(* ===== verification/FDB_Prelude.thy ===== *)
theory FDB_Prelude
  imports Main "HOL-Library.Word" "HOL-Library.List_Lexorder" "HOL-Library.Sublist"
begin

text \<open>
  Shared vocabulary of the development.

  \<^item> Go values: a \<^verbatim>\<open>string\<close> and a \<^verbatim>\<open>[]byte\<close> are lists of \<^typ>\<open>8 word\<close>, compared
    lexicographically as Go and FoundationDB compare them (\<open>List_Lexorder\<close>); a nil slice
    and an empty slice are the same value here, since the driver never tells them apart except to
    decide when to allocate. An \<^verbatim>\<open>int64\<close> is an \<^typ>\<open>int\<close>; where the code converts it to or from a
    64-bit word the conversion (and its wrap-around) is written out.
  \<^item> Go results: a call that may return an \<^verbatim>\<open>error\<close> or panic has type \<open>'a res\<close>.
  \<^item> Generic lemmas on lexicographic order, prefixes, sorted ranges of a key-value map and
    chunked byte strings.
\<close>

named_theorems go_simps \<open>unfolding rules for the result type and its combinators\<close>
named_theorems byte_order \<open>facts on the lexicographic order of byte strings\<close>

section \<open>Go values\<close>

type_synonym byte = "8 word"
type_synonym bytes = "8 word list"
type_synonym int64 = int
type_synonym kv = "bytes \<times> bytes"

text \<open>The \<^verbatim>\<open>int64\<close> that an arithmetic result wraps around to.\<close>

definition wrap64 :: "int \<Rightarrow> int64" where
  "wrap64 i = sint (word_of_int i :: 64 word)"

lemma wrap64_id: "- (2 ^ 63) \<le> i \<Longrightarrow> i < 2 ^ 63 \<Longrightarrow> wrap64 i = i"
  by (simp add: wrap64_def sint_sbintrunc' signed_take_bit_int_eq_self)

definition str :: "string \<Rightarrow> bytes" where
  "str s = map of_char s"

text \<open>
  The error values the driver itself returns or inspects. \<^term>\<open>FdbError\<close> is an
  \<^verbatim>\<open>fdb.Error\<close> with its code; \<open>WrapErr\<close> is \<^verbatim>\<open>fmt.Errorf\<close> with a \<^verbatim>\<open>%w\<close> verb, \<open>Errorf\<close> one without.
\<close>

datatype go_error =
    FdbError int
  | ErrKeyExists
  | ErrCompacted
  | ErrFutureRev
  | ErrRequestTooLarge
  | ErrGRPCUnhealthy
  | Errorf string
  | WrapErr string go_error

datatype go_panic = FdbPanic int | RuntimePanic string

datatype 'a res = Ok 'a | Err go_error | Panic go_panic

definition res_bind :: "'a res \<Rightarrow> ('a \<Rightarrow> 'b res) \<Rightarrow> 'b res" where
  "res_bind r k = (case r of Ok x \<Rightarrow> k x | Err e \<Rightarrow> Err e | Panic p \<Rightarrow> Panic p)"

definition res_of_sum :: "go_error + 'a \<Rightarrow> 'a res" where
  "res_of_sum r = (case r of Inl e \<Rightarrow> Err e | Inr x \<Rightarrow> Ok x)"

definition map_res :: "('a \<Rightarrow> 'b) \<Rightarrow> 'a res \<Rightarrow> 'b res" where
  "map_res g r = res_bind r (\<lambda>x. Ok (g x))"

text \<open>\<^verbatim>\<open>errors.As(e, &ep)\<close> for \<^verbatim>\<open>ep fdb.Error\<close>: the first \<^verbatim>\<open>fdb.Error\<close> of the error chain.\<close>

fun as_fdb_error :: "go_error \<Rightarrow> int option" where
  "as_fdb_error (FdbError c) = Some c"
| "as_fdb_error (WrapErr _ e) = as_fdb_error e"
| "as_fdb_error _ = None"

lemma res_bind_simps [simp, go_simps]:
  "res_bind (Ok x) k = k x"
  "res_bind (Err e) k = Err e"
  "res_bind (Panic p) k = Panic p"
  by (simp_all add: res_bind_def)

lemma res_of_sum_simps [simp, go_simps]:
  "res_of_sum (Inl e) = Err e"
  "res_of_sum (Inr x) = Ok x"
  by (simp_all add: res_of_sum_def)

lemma map_res_simps [simp, go_simps]:
  "map_res g (Ok x) = Ok (g x)"
  "map_res g (Err e) = Err e"
  "map_res g (Panic p) = Panic p"
  by (simp_all add: map_res_def)

lemma res_bind_Ok_iff [go_simps]:
  "res_bind r k = Ok y \<longleftrightarrow> (\<exists>x. r = Ok x \<and> k x = Ok y)"
  by (cases r) auto

lemma res_bind_Err_iff:
  "res_bind r k = Err e \<longleftrightarrow> r = Err e \<or> (\<exists>x. r = Ok x \<and> k x = Err e)"
  by (cases r) auto

lemma map_res_Ok_iff [go_simps]: "map_res g r = Ok y \<longleftrightarrow> (\<exists>x. r = Ok x \<and> y = g x)"
  by (cases r) auto

lemma res_of_sum_Ok_iff [go_simps]: "res_of_sum s = Ok y \<longleftrightarrow> s = Inr y"
  by (cases s) auto

lemma res_bind_assoc: "res_bind (res_bind r k) l = res_bind r (\<lambda>x. res_bind (k x) l)"
  by (cases r) auto

section \<open>Lexicographic order and prefixes\<close>

lemma append_less_append [simp, byte_order]:
  fixes xs ys zs :: "'a::linorder list"
  shows "xs @ ys < xs @ zs \<longleftrightarrow> ys < zs"
  by (induction xs) auto

lemma append_le_append [simp, byte_order]:
  fixes xs ys zs :: "'a::linorder list"
  shows "xs @ ys \<le> xs @ zs \<longleftrightarrow> ys \<le> zs"
  by (simp add: list_le_def)

lemma prefix_imp_le [byte_order]:
  fixes p k :: "'a::linorder list"
  shows "prefix p k \<Longrightarrow> p \<le> k"
  by (metis append_Nil2 append_le_append linorder_not_less not_less_Nil prefixE)

lemma less_append_right:
  fixes xs ys :: "'a::linorder list"
  assumes "xs < ys" and "\<not> prefix xs ys"
  shows "xs @ as < ys @ bs"
  using assms
proof (induction xs arbitrary: ys)
  case Nil
  then show ?case by simp
next
  case (Cons x xs)
  then show ?case by (cases ys) auto
qed

lemma less_append_same_length:
  fixes xs ys :: "'a::linorder list"
  assumes "xs < ys" and "length xs = length ys"
  shows "xs @ as < ys @ bs"
proof (rule less_append_right)
  show "xs < ys" by fact
  show "\<not> prefix xs ys"
    using assms by (metis append_eq_conv_conj order_less_irrefl prefixE take_all_iff linorder_le_cases)
qed

text \<open>The keys with a given prefix form an interval.\<close>

lemma prefix_convex:
  fixes p a b c :: "'a::linorder list"
  assumes "prefix p a" "prefix p c" "a \<le> b" "b \<le> c"
  shows "prefix p b"
  using assms
proof (induction p arbitrary: a b c)
  case Nil
  then show ?case by simp
next
  case (Cons x p)
  from Cons.prems obtain a' c' where ac: "a = x # a'" "c = x # c'" "prefix p a'" "prefix p c'"
    by (metis Cons_prefix_Cons prefixE append_Cons prefix_def)
  from Cons.prems(3,4) ac obtain y b' where b: "b = y # b'"
    by (cases b) (auto simp: list_le_def)
  from Cons.prems(3,4) ac b have y: "y = x" and le: "a' \<le> b'" "b' \<le> c'"
    by (auto simp: list_le_def)
  from Cons.IH [OF ac(3,4) le] have "prefix p b'" .
  with b y show ?case by simp
qed

lemma same_prefix_append_eq:
  assumes "p @ xs = q @ ys" and "\<not> prefix p q" and "\<not> prefix q p"
  shows False
  using assms by (metis append_eq_append_conv2 prefixI)

section \<open>Ordered ranges of a key-value map\<close>

text \<open>
  What a range read over a set of keys returns: the pairs of the map whose key satisfies
  \<open>P\<close>, in ascending key order.
\<close>

definition range_list :: "('k::linorder \<rightharpoonup> 'v) \<Rightarrow> ('k \<Rightarrow> bool) \<Rightarrow> ('k \<times> 'v) list" where
  "range_list m P = map (\<lambda>k. (k, the (m k))) (sorted_list_of_set {k \<in> dom m. P k})"

lemma range_list_unique:
  assumes "finite (dom m)"
    and "sorted (map fst xs)" "distinct (map fst xs)"
    and "\<And>k v. (k, v) \<in> set xs \<longleftrightarrow> m k = Some v \<and> P k"
  shows "range_list m P = xs"
proof -
  have "set (map fst xs) = {k \<in> dom m. P k}"
    using assms(4) by force
  then have keys: "sorted_list_of_set {k \<in> dom m. P k} = map fst xs"
    using assms(2,3) sorted_list_of_set.idem_if_sorted_distinct by metis
  have "map (\<lambda>k. (k, the (m k))) (map fst xs) = map (\<lambda>p. p) xs"
    unfolding map_map
  proof (rule map_cong [OF refl])
    fix p assume p: "p \<in> set xs"
    have "m (fst p) = Some (snd p)"
      using p assms(4) [of "fst p" "snd p"] by (metis prod.collapse)
    then show "((\<lambda>k. (k, the (m k))) \<circ> fst) p = p" by simp
  qed
  then show ?thesis by (simp add: range_list_def keys)
qed

lemma set_range_list [simp]:
  assumes "finite (dom m)"
  shows "set (range_list m P) = {(k, v). m k = Some v \<and> P k}"
  using assms by (auto simp: range_list_def image_iff)

lemma range_list_sorted: "sorted (map fst (range_list m P))"
  by (simp add: range_list_def comp_def)

lemma range_list_distinct: "distinct (map fst (range_list m P))"
  by (simp add: range_list_def comp_def)

lemma range_list_cong:
  assumes "\<And>k. P k \<Longrightarrow> m k = m' k" and "\<And>k. P k \<longleftrightarrow> Q k"
  shows "range_list m P = range_list m' Q"
proof -
  have "{k \<in> dom m. P k} = {k \<in> dom m'. Q k}" using assms by (auto simp: dom_def)
  moreover have "the (m k) = the (m' k)" if "k \<in> {k \<in> dom m'. Q k}" for k
    using that assms by auto
  ultimately show ?thesis
    unfolding range_list_def by (cases "finite {k \<in> dom m'. Q k}") auto
qed

lemma range_list_empty:
  assumes "\<And>k. P k \<Longrightarrow> m k = None"
  shows "range_list m P = []"
proof -
  have e: "{k \<in> dom m. P k} = {}" using assms by force
  show ?thesis unfolding range_list_def e by simp
qed

section \<open>Chunked byte strings\<close>

text \<open>
  The pieces a byte string is cut into, each with the offset it starts at: what the loops
  \<^verbatim>\<open>for offset := 0; offset < len(value); offset += chunkSize\<close> of the driver produce. The
  recursion is on the remaining bytes; \<open>c > 0\<close> bytes are taken per step.
\<close>

function chunks_from :: "nat \<Rightarrow> nat \<Rightarrow> 'a list \<Rightarrow> (nat \<times> 'a list) list" where
  "chunks_from c off xs =
     (if xs = [] \<or> c = 0 then [] else (off, take c xs) # chunks_from c (off + c) (drop c xs))"
  by pat_completeness auto
termination
  by (relation "measure (\<lambda>(c, off, xs). length xs)") auto

declare chunks_from.simps [simp del]

lemma chunks_from_Nil [simp]: "chunks_from c off [] = []"
  by (simp add: chunks_from.simps)

lemma concat_chunks_from:
  "0 < c \<Longrightarrow> concat (map snd (chunks_from c off xs)) = xs"
proof (induction c off xs rule: chunks_from.induct)
  case (1 c off xs)
  then show ?case
    by (subst chunks_from.simps) auto
qed

lemma map_upt_Suc_shift: "map g [0..<Suc n] = g 0 # map (\<lambda>i. g (Suc i)) [0..<n]"
  by (induction n) simp_all

lemma chunks_from_offsets:
  "0 < c \<Longrightarrow> map fst (chunks_from c off xs)
     = map (\<lambda>i. off + i * c) [0..<(length xs + c - 1) div c]"
proof (induction c off xs rule: chunks_from.induct)
  case (1 c off xs)
  show ?case
  proof (cases "xs = []")
    case True
    with "1.prems" show ?thesis by simp
  next
    case False
    let ?n = "(length xs + c - 1) div c"
    have n: "?n = Suc ((length (drop c xs) + c - 1) div c)"
    proof (cases "length xs \<le> c")
      case True
      with False "1.prems" have "length xs + c - 1 < 2 * c" "c \<le> length xs + c - 1"
        by (cases xs; simp)+
      then have "?n = 1"
        by (intro div_nat_eqI) auto
      with True "1.prems" show ?thesis by simp
    next
      case False
      then have eq: "length xs + c - 1 = (length (drop c xs) + c - 1) + c"
        using "1.prems" by simp
      show ?thesis
        unfolding eq using "1.prems" by (subst div_add_self2) simp_all
    qed
    have "map fst (chunks_from c off xs) = off # map fst (chunks_from c (off + c) (drop c xs))"
      using False "1.prems" by (subst chunks_from.simps) simp
    also have "\<dots> = off # map (\<lambda>i. off + c + i * c) [0..<(length (drop c xs) + c - 1) div c]"
      using "1.IH" False "1.prems" by simp
    also have "\<dots> = map (\<lambda>i. off + i * c) [0..<?n]"
      unfolding n map_upt_Suc_shift by (simp add: add.assoc)
    finally show ?thesis .
  qed
qed

lemma chunks_from_nonempty:
  "p \<in> set (chunks_from c off xs) \<Longrightarrow> snd p \<noteq> []"
proof (induction c off xs rule: chunks_from.induct)
  case (1 c off xs)
  show ?case
  proof (cases "xs = [] \<or> c = 0")
    case True
    with "1.prems" show ?thesis by (auto simp: chunks_from.simps [of c off xs])
  next
    case False
    with "1.prems" have "p = (off, take c xs) \<or> p \<in> set (chunks_from c (off + c) (drop c xs))"
      by (simp add: chunks_from.simps [of c off xs])
    with False "1.IH" show ?thesis by auto
  qed
qed

end
