(* ===== verification/FDB_Versionstamp.thy ===== *)
theory FDB_Versionstamp
  imports FDB_Prelude
begin

text \<open>
  Versionstamps and the \<^verbatim>\<open>int64\<close> revisions they stand for
  (\<^verbatim>\<open>src/pkg/drivers/fdb/util.go\<close>). The big-endian codecs are those of Go's
  \<^verbatim>\<open>encoding/binary\<close>; \<^verbatim>\<open>tuple.Versionstamp\<close> is a struct of a ten byte transaction version and a
  user version. The lemmas show that a revision survives the trip through a versionstamp, that
  the order of versionstamps is the order of revisions, and exactly when the conversion panics.
\<close>

section \<open>Big-endian integers\<close>

primrec be_bytes :: "nat \<Rightarrow> nat \<Rightarrow> bytes" where
  "be_bytes 0 x = []"
| "be_bytes (Suc n) x = be_bytes n (x div 256) @ [of_nat x]"

definition be_nat :: "bytes \<Rightarrow> nat" where
  "be_nat bs = foldl (\<lambda>a b. a * 256 + unat b) 0 bs"

definition be_uint64 :: "bytes \<Rightarrow> 64 word" where
  "be_uint64 bs = of_nat (be_nat (take 8 bs))"

definition be_uint16 :: "bytes \<Rightarrow> 16 word" where
  "be_uint16 bs = of_nat (be_nat (take 2 bs))"

lemma be_nat_Nil [simp]: "be_nat [] = 0"
  by (simp add: be_nat_def)

lemma be_nat_snoc [simp]: "be_nat (bs @ [b]) = be_nat bs * 256 + unat b"
  by (simp add: be_nat_def)

lemma length_be_bytes [simp]: "length (be_bytes n x) = n"
  by (induction n arbitrary: x) auto

lemma unat_byte_of_nat: "unat (of_nat x :: byte) = x mod 256"
  by (simp add: unat_of_nat)

lemma unat_byte_less: "unat (b :: byte) < 256"
  using unsigned_less [of b, where 'a = nat] by simp

lemma be_nat_be_bytes: "be_nat (be_bytes n x) = x mod 256 ^ n"
proof (induction n arbitrary: x)
  case 0
  then show ?case by simp
next
  case (Suc n)
  have "be_nat (be_bytes (Suc n) x) = (x div 256) mod 256 ^ n * 256 + x mod 256"
    by (simp add: Suc.IH unat_byte_of_nat)
  also have "\<dots> = x mod 256 ^ Suc n"
    by (metis mod_mult2_eq mult.commute power_Suc)
  finally show ?case .
qed

lemma be_nat_less: "be_nat bs < 256 ^ length bs"
proof (induction bs rule: rev_induct)
  case Nil
  then show ?case by simp
next
  case (snoc b bs)
  then show ?case using unat_byte_less [of b] by simp
qed

lemma be_bytes_be_nat: "be_bytes (length bs) (be_nat bs) = bs"
proof (induction bs rule: rev_induct)
  case Nil
  then show ?case by simp
next
  case (snoc b bs)
  have "(be_nat bs * 256 + unat b) div 256 = be_nat bs"
    using unat_byte_less [of b] by simp
  moreover have "(of_nat (be_nat bs * 256 + unat b) :: byte) = b"
    unfolding word_unat_eq_iff unat_byte_of_nat using unat_byte_less [of b] by simp
  ultimately show ?case using snoc by simp
qed

lemma be_nat_inj: "length bs = length cs \<Longrightarrow> be_nat bs = be_nat cs \<Longrightarrow> bs = cs"
  by (metis be_bytes_be_nat)

lemma snoc_less_snoc:
  fixes a b :: "'a::linorder"
  shows "length xs = length ys \<Longrightarrow> xs @ [a] < ys @ [b] \<longleftrightarrow> xs < ys \<or> xs = ys \<and> a < b"
  by (induction xs ys rule: list_induct2) auto

lemma be_nat_less_iff:
  "length bs = length cs \<Longrightarrow> bs < cs \<longleftrightarrow> be_nat bs < be_nat cs"
proof (induction bs arbitrary: cs rule: rev_induct)
  case Nil
  then show ?case by simp
next
  case (snoc b bs)
  then obtain c ds where cs: "cs = ds @ [c]" and len: "length bs = length ds"
    by (cases cs rule: rev_cases) auto
  have "bs @ [b] < ds @ [c] \<longleftrightarrow> be_nat bs < be_nat ds \<or> be_nat bs = be_nat ds \<and> unat b < unat c"
    using len snoc.IH [OF len] be_nat_inj [OF len]
    by (auto simp: snoc_less_snoc word_less_nat_alt)
  also have "\<dots> \<longleftrightarrow> be_nat bs * 256 + unat b < be_nat ds * 256 + unat c"
    using unat_byte_less [of b] unat_byte_less [of c] by linarith
  finally show ?case by (simp add: cs)
qed

section \<open>Versionstamps\<close>

record versionstamp =
  TransactionVersion :: bytes
  UserVersion :: "16 word"

text \<open>\<^verbatim>\<open>TransactionVersion\<close> is a \<^verbatim>\<open>[10]byte\<close>; Go's types guarantee its length.\<close>

definition vs_wf :: "versionstamp \<Rightarrow> bool" where
  "vs_wf v \<longleftrightarrow> length (TransactionVersion v) = 10"

text \<open>The twelve bytes of a versionstamp, in which the tuple layer orders them.\<close>

definition vs_key :: "versionstamp \<Rightarrow> bytes" where
  "vs_key v = TransactionVersion v @ be_bytes 2 (unat (UserVersion v))"

text \<open>The zero value of the struct.\<close>

definition zeroVersionstamp :: versionstamp where
  "zeroVersionstamp = \<lparr>TransactionVersion = replicate 10 0, UserVersion = 0\<rparr>"

definition versionstampBytesToInt64 :: "bytes \<Rightarrow> int64 res" where
  "versionstampBytesToInt64 bs =
     (if length bs < 8 then Panic (RuntimePanic ''slice bounds out of range'')
      else Ok (sint (be_uint64 (take 8 bs))))"

definition VersionstampToInt64 :: "versionstamp \<Rightarrow> int64 res" where
  "VersionstampToInt64 v =
     (let idInCommit = be_uint16 (drop 8 (TransactionVersion v))
      in if idInCommit \<noteq> 0 \<and> idInCommit \<noteq> 65535
         then Panic (RuntimePanic ''there was more than one transaction in this commit'')
         else versionstampBytesToInt64 (TransactionVersion v))"

definition int64ToVersionstamp :: "int64 \<Rightarrow> versionstamp" where
  "int64ToVersionstamp r =
     \<lparr>TransactionVersion = be_bytes 8 (unat (word_of_int r :: 64 word)) @ [0, 0],
      UserVersion = 0\<rparr>"

lemma vs_wf_int64ToVersionstamp [simp]: "vs_wf (int64ToVersionstamp r)"
  by (simp add: vs_wf_def int64ToVersionstamp_def)

lemma vs_key_inj: "vs_wf v \<Longrightarrow> vs_wf w \<Longrightarrow> vs_key v = vs_key w \<Longrightarrow> v = w"
proof -
  assume wf: "vs_wf v" "vs_wf w" and eq: "vs_key v = vs_key w"
  from wf have len: "length (TransactionVersion v) = length (TransactionVersion w)"
    by (simp add: vs_wf_def)
  with eq have tv: "TransactionVersion v = TransactionVersion w"
    and uv: "be_bytes 2 (unat (UserVersion v)) = be_bytes 2 (unat (UserVersion w))"
    by (auto simp: vs_key_def)
  from uv have "unat (UserVersion v) mod 65536 = unat (UserVersion w) mod 65536"
    using be_nat_be_bytes [of 2 "unat (UserVersion v)"] be_nat_be_bytes [of 2 "unat (UserVersion w)"]
    by simp
  then have "UserVersion v = UserVersion w"
    using unsigned_less [of "UserVersion v", where 'a = nat]
      unsigned_less [of "UserVersion w", where 'a = nat]
    by (simp add: word_unat_eq_iff)
  with tv show "v = w" by simp
qed

lemma be_uint16_zero_tail [simp]: "be_uint16 [0, 0] = 0"
  by (simp add: be_uint16_def be_nat_def)

lemma VersionstampToInt64_int64ToVersionstamp:
  assumes "- (2 ^ 63) \<le> r" and "r < 2 ^ 63"
  shows "VersionstampToInt64 (int64ToVersionstamp r) = Ok r"
proof -
  let ?w = "word_of_int r :: 64 word"
  have "be_uint64 (be_bytes 8 (unat ?w)) = ?w"
    using unsigned_less [of ?w, where 'a = nat] by (simp add: be_uint64_def be_nat_be_bytes)
  moreover have "sint ?w = r"
    using assms by (simp add: sint_sbintrunc' signed_take_bit_int_eq_self)
  ultimately show ?thesis
    by (simp add: VersionstampToInt64_def int64ToVersionstamp_def versionstampBytesToInt64_def Let_def)
qed

text \<open>On non-negative revisions the byte order of versionstamps is the order of revisions.\<close>

lemma int64ToVersionstamp_less_iff:
  assumes "0 \<le> r" "r < 2 ^ 63" "0 \<le> s" "s < 2 ^ 63"
  shows "vs_key (int64ToVersionstamp r) < vs_key (int64ToVersionstamp s) \<longleftrightarrow> r < s"
proof -
  have u: "unat (word_of_int x :: 64 word) = nat x" if "0 \<le> x" "x < 2 ^ 63" for x :: int
    using that by (simp add: unat_eq_nat_uint uint_word_of_int)
  have "be_bytes 8 (nat r) < be_bytes 8 (nat s) \<longleftrightarrow> nat r mod 256 ^ 8 < nat s mod 256 ^ 8"
    by (subst be_nat_less_iff) (simp_all only: length_be_bytes be_nat_be_bytes)
  also have "\<dots> \<longleftrightarrow> nat r < nat s"
    using assms by (subst (1 2) mod_less) (auto simp: nat_less_iff)
  also have "\<dots> \<longleftrightarrow> r < s"
    using assms by auto
  finally have lt: "be_bytes 8 (nat r) < be_bytes 8 (nat s) \<longleftrightarrow> r < s" .
  have app: "xs @ z < ys @ z \<longleftrightarrow> xs < ys" if "length xs = length ys" for xs ys z :: bytes
    using that by (metis append_less_append less_append_same_length linorder_neq_iff order_less_asym)
  have "unat (word_of_int r :: 64 word) = nat r" "unat (word_of_int s :: 64 word) = nat s"
    using assms by (simp_all only: u)
  then show ?thesis
    by (simp add: vs_key_def int64ToVersionstamp_def app lt append_assoc [symmetric]
        del: append_assoc)
qed

lemma VersionstampToInt64_Ok_iff:
  "vs_wf v \<Longrightarrow> (\<exists>r. VersionstampToInt64 v = Ok r) \<longleftrightarrow>
     be_uint16 (drop 8 (TransactionVersion v)) \<in> {0, 65535}"
  by (auto simp: VersionstampToInt64_def versionstampBytesToInt64_def vs_wf_def Let_def)

lemma VersionstampToInt64_bounds:
  "VersionstampToInt64 v = Ok r \<Longrightarrow> - (2 ^ 63) \<le> r \<and> r < 2 ^ 63"
  using sint_ge [of "be_uint64 (take 8 (TransactionVersion v))"]
    sint_lt [of "be_uint64 (take 8 (TransactionVersion v))"]
  by (auto simp: VersionstampToInt64_def versionstampBytesToInt64_def Let_def split: if_splits)

text \<open>
  A revision stamp: what FoundationDB assigns to a transaction that is first in its commit
  batch (batch index 0) with a version below \<open>2 ^ 63\<close>, read back at user version 0.
\<close>

definition revision_stamp :: "bytes \<Rightarrow> bool" where
  "revision_stamp st \<longleftrightarrow> length st = 10 \<and> drop 8 st = [0, 0] \<and> be_nat (take 8 st) < 2 ^ 63"

lemma revision_stamp_roundtrip:
  assumes "revision_stamp st"
  shows "\<lparr>TransactionVersion = st, UserVersion = 0\<rparr> = int64ToVersionstamp (int (be_nat (take 8 st)))"
proof -
  have "st = take 8 st @ [0, 0]"
    using assms by (metis append_take_drop_id revision_stamp_def)
  moreover have "be_bytes 8 (be_nat (take 8 st)) = take 8 st"
    using be_bytes_be_nat [of "take 8 st"] assms by (simp add: revision_stamp_def)
  moreover have "unat (word_of_int (int (be_nat (take 8 st))) :: 64 word) = be_nat (take 8 st)"
    using assms by (simp add: revision_stamp_def unat_of_nat)
  ultimately show ?thesis by (simp add: int64ToVersionstamp_def)
qed

end
