(* ===== verification/FDB_Client.thy ===== *)
theory FDB_Client
  imports FDB_Versionstamp
begin

text \<open>
  The interface of the FoundationDB Go bindings that the driver calls: the tuple and subspace
  layers, key selectors, transactions. None of that code is in the repository, so it is a
  parameter of the model: a record \<open>fdb_lib\<close> of the functions the driver calls, over an abstract
  type \<open>'d\<close> of databases and \<open>'t\<close> of transactions. What the driver relies on is stated as the
  assumptions of two locales, each a documented behaviour of the bindings:

  \<^item> \<open>fdb_tuples\<close>: the tuple encoding concatenates self-delimiting element encodings, preserves
    the order of elements, and encodes a string so that dropping its terminator gives the common
    prefix of all its extensions; \<^verbatim>\<open>Strinc\<close> and \<^verbatim>\<open>PrefixRange\<close> bound the keys with a prefix.
  \<^item> \<open>fdb_client\<close>: a transaction is a read-your-writes view of an ordered map; versionstamped
    sets take effect at commit, with the transaction's stamp in the key; a read either fails or
    returns what the view holds; the read version of a transaction is that of the database it
    reads, and is not below the version of a commit before.

  \<open>tr_Reset\<close> is what an attempt of a transaction starts from: a new transaction, or one reset by
  \<^verbatim>\<open>OnError\<close>, that reads the database as it is then. \<open>tr_Commit\<close> and \<open>tr_GetCommittedVersion\<close> are
  given the versionstamp the cluster assigns. The last seven fields of the record are
  observers used in statements only.
\<close>

section \<open>Tuples, selectors, iterators\<close>

datatype elem =
    TString bytes
  | TBool bool
  | TInt int64
  | TVersionstamp versionstamp
  | TUUID bytes

datatype selector = FirstGreaterOrEqual bytes | FirstGreaterThan bytes

datatype streaming_mode = StreamingModeIterator | StreamingModeWantAll | StreamingModeExact

record range_options =
  ro_Limit :: nat
  ro_Mode :: streaming_mode
  ro_Reverse :: bool

text \<open>
  A range iterator is the sequence of results it will deliver: pairs, or an error that ends it.
  \<^verbatim>\<open>Advance\<close> reports whether there is one more and consumes nothing; \<^verbatim>\<open>Get\<close> delivers it.
\<close>

type_synonym iter = "(go_error + kv) list"

definition it_Advance :: "iter \<Rightarrow> bool" where
  "it_Advance it \<longleftrightarrow> it \<noteq> []"

fun it_Get :: "iter \<Rightarrow> (kv \<times> iter) res" where
  "it_Get [] = Panic (RuntimePanic ''iterator exhausted'')"
| "it_Get (Inl e # it) = Err e"
| "it_Get (Inr kv # it) = Ok (kv, it)"

record ('d, 't) fdb_lib =
  tuple_Pack :: "elem list \<Rightarrow> bytes"
  tuple_Unpack :: "bytes \<Rightarrow> go_error + elem list"
  subspace_Sub :: "bytes \<Rightarrow> elem list \<Rightarrow> bytes"
  subspace_Pack :: "bytes \<Rightarrow> elem list \<Rightarrow> bytes"
  subspace_PackWithVersionstamp :: "bytes \<Rightarrow> elem list \<Rightarrow> go_error + bytes"
  subspace_Unpack :: "bytes \<Rightarrow> bytes \<Rightarrow> go_error + elem list"
  subspace_FDBRangeKeys :: "bytes \<Rightarrow> bytes \<times> bytes"
  IncompleteVersionstamp :: "16 word \<Rightarrow> versionstamp"
  Versionstamp_Bytes :: "versionstamp \<Rightarrow> bytes"
  fdb_Strinc :: "bytes \<Rightarrow> go_error + bytes"
  fdb_PrefixRange :: "bytes \<Rightarrow> go_error + (bytes \<times> bytes)"
  db_CreateTransaction :: "'d \<Rightarrow> go_error + 't"
  tr_Reset :: "'d \<Rightarrow> 't \<Rightarrow> 't"
  tr_SetOption :: "int \<Rightarrow> 't \<Rightarrow> go_error + 't"
  tr_Get :: "'t \<Rightarrow> bytes \<Rightarrow> go_error + bytes option"
  tr_GetRange :: "bool \<Rightarrow> 't \<Rightarrow> selector \<Rightarrow> selector \<Rightarrow> range_options \<Rightarrow> iter"
  tr_GetReadVersion :: "'t \<Rightarrow> go_error + int64"
  tr_Set :: "bytes \<Rightarrow> bytes \<Rightarrow> 't \<Rightarrow> 't"
  tr_SetVersionstampedKey :: "bytes \<Rightarrow> bytes \<Rightarrow> 't \<Rightarrow> 't"
  tr_Clear :: "bytes \<Rightarrow> 't \<Rightarrow> 't"
  tr_ClearRange :: "bytes \<Rightarrow> bytes \<Rightarrow> 't \<Rightarrow> 't"
  tr_Add :: "bytes \<Rightarrow> bytes \<Rightarrow> 't \<Rightarrow> 't"
  tr_Commit :: "bytes \<Rightarrow> 't \<Rightarrow> 'd"
  tr_GetCommittedVersion :: "bytes \<Rightarrow> 't \<Rightarrow> go_error + int64"
  tr_GetEstimatedRangeSizeBytes :: "'t \<Rightarrow> bytes \<times> bytes \<Rightarrow> go_error + int64"
  db_view :: "'d \<Rightarrow> bytes \<rightharpoonup> bytes"
  tr_view :: "'t \<Rightarrow> bytes \<rightharpoonup> bytes"
  tr_pending :: "'t \<Rightarrow> (bytes \<times> bytes) list"
  tr_alive :: "'t \<Rightarrow> bool"
  db_version :: "'d \<Rightarrow> int64"
  tr_version :: "'t \<Rightarrow> int64"
  vs_complete :: "bytes \<Rightarrow> bytes \<Rightarrow> bytes"

section \<open>What is documented of the tuple layer\<close>

text \<open>An incomplete versionstamp has a transaction version of ten 0xFF bytes.\<close>

definition vs_incomplete :: "versionstamp \<Rightarrow> bool" where
  "vs_incomplete v \<longleftrightarrow> TransactionVersion v = replicate 10 255"

fun elem_ok :: "elem \<Rightarrow> bool" where
  "elem_ok (TString _) \<longleftrightarrow> True"
| "elem_ok (TBool _) \<longleftrightarrow> True"
| "elem_ok (TInt i) \<longleftrightarrow> - (2 ^ 63) \<le> i \<and> i < 2 ^ 63"
| "elem_ok (TVersionstamp v) \<longleftrightarrow> vs_wf v \<and> \<not> vs_incomplete v"
| "elem_ok (TUUID u) \<longleftrightarrow> length u = 16"

abbreviation tuple_ok :: "elem list \<Rightarrow> bool" where
  "tuple_ok \<equiv> list_all elem_ok"

fun elem_less :: "elem \<Rightarrow> elem \<Rightarrow> bool" where
  "elem_less (TString a) (TString b) \<longleftrightarrow> a < b"
| "elem_less (TBool a) (TBool b) \<longleftrightarrow> \<not> a \<and> b"
| "elem_less (TInt a) (TInt b) \<longleftrightarrow> a < b"
| "elem_less (TVersionstamp a) (TVersionstamp b) \<longleftrightarrow> vs_key a < vs_key b"
| "elem_less (TUUID a) (TUUID b) \<longleftrightarrow> a < b"
| "elem_less _ _ \<longleftrightarrow> False"

text \<open>Completing a tuple: the stamp of the transaction replaces the incomplete versionstamp.\<close>

fun elem_fill :: "bytes \<Rightarrow> elem \<Rightarrow> elem" where
  "elem_fill st (TVersionstamp v) =
     TVersionstamp (if vs_incomplete v then v\<lparr>TransactionVersion := st\<rparr> else v)"
| "elem_fill st e = e"

fun elem_incomplete :: "elem \<Rightarrow> bool" where
  "elem_incomplete (TVersionstamp v) = vs_incomplete v"
| "elem_incomplete _ = False"

fun is_TString :: "elem \<Rightarrow> bool" where
  "is_TString (TString _) \<longleftrightarrow> True"
| "is_TString _ \<longleftrightarrow> False"

text \<open>
  Element encodings are self-delimiting with one proviso: a string ends with a zero byte and a
  zero byte inside it is written as 0x00 0xFF, so the encoding of \<open>p\<close> is also a prefix of the
  encodings of the strings that continue \<open>p\<close> with a zero byte. What follows a complete string is
  never 0xFF.
\<close>

locale fdb_tuples =
  fixes L :: "('d, 't) fdb_lib"
  assumes pack_Nil: "tuple_Pack L [] = []"
    and pack_append: "tuple_ok s \<Longrightarrow> tuple_ok t \<Longrightarrow>
      tuple_Pack L (s @ t) = tuple_Pack L s @ tuple_Pack L t"
    and unpack_pack: "tuple_ok t \<Longrightarrow> tuple_Unpack L (tuple_Pack L t) = Inr t"
    and pack_head: "elem_ok a \<Longrightarrow> \<exists>c r. tuple_Pack L [a] = c # r \<and> c < 255"
    and pack_delimited: "elem_ok a \<Longrightarrow> tuple_ok (b # t) \<Longrightarrow> tuple_Pack L (b # t) = tuple_Pack L [a] @ z \<Longrightarrow>
      (is_TString a \<longrightarrow> z = [] \<or> hd z \<noteq> 255) \<Longrightarrow> a = b"
    and pack_string_nul: "tuple_ok t \<Longrightarrow>
      prefix (tuple_Pack L [TString p]) (tuple_Pack L (TString x # t)) \<longleftrightarrow> p = x \<or> prefix (p @ [0]) x"
    and pack_less: "tuple_ok (a # s) \<Longrightarrow> tuple_ok (b # t) \<Longrightarrow> elem_less a b \<Longrightarrow>
      tuple_Pack L (a # s) < tuple_Pack L (b # t)"
    and pack_string_prefix: "tuple_ok t \<Longrightarrow>
      prefix (butlast (tuple_Pack L [TString p])) (tuple_Pack L (TString x # t)) \<longleftrightarrow> prefix p x"
    and sub_eq: "subspace_Sub L p t = p @ tuple_Pack L t"
    and spack_eq: "subspace_Pack L p t = p @ tuple_Pack L t"
    and sunpack_eq: "tuple_ok t \<Longrightarrow> subspace_Unpack L p (p @ tuple_Pack L t) = Inr t"
    and range_keys_eq: "subspace_FDBRangeKeys L p = (p @ [0], p @ [255])"
    and packvs_complete: "subspace_PackWithVersionstamp L p t = Inr k \<Longrightarrow> length st = 10 \<Longrightarrow>
      vs_complete L k st = p @ tuple_Pack L (map (elem_fill st) t)"
    and incomplete_eq: "IncompleteVersionstamp L u = \<lparr>TransactionVersion = replicate 10 255, UserVersion = u\<rparr>"
    and vs_bytes_eq: "Versionstamp_Bytes L v = vs_key v"
    and strinc_ok: "\<exists>b \<in> set p. b \<noteq> 255 \<Longrightarrow> \<exists>e. fdb_Strinc L p = Inr e"
    and strinc_range: "fdb_Strinc L p = Inr e \<Longrightarrow> (p \<le> k \<and> k < e) \<longleftrightarrow> prefix p k"
    and prefix_range_eq: "fdb_PrefixRange L p = map_sum id (Pair p) (fdb_Strinc L p)"
begin

lemma pack_Cons: "tuple_ok (a # t) \<Longrightarrow> tuple_Pack L (a # t) = tuple_Pack L [a] @ tuple_Pack L t"
  using pack_append [of "[a]" t] by simp

lemma pack_singleton_nonempty: "elem_ok a \<Longrightarrow> tuple_Pack L [a] \<noteq> []"
  using pack_head [of a] by auto

lemma pack_inj: "tuple_ok s \<Longrightarrow> tuple_ok t \<Longrightarrow> tuple_Pack L s = tuple_Pack L t \<longleftrightarrow> s = t"
  by (metis unpack_pack sum.inject(2))

text \<open>An element that is not a string is a prefix of the tuples that start with it, and no other.\<close>

lemma pack_elem_prefix_iff:
  assumes "elem_ok a" "tuple_ok (b # t)" "\<not> is_TString a"
  shows "prefix (tuple_Pack L [a]) (tuple_Pack L (b # t)) \<longleftrightarrow> a = b"
proof
  assume "prefix (tuple_Pack L [a]) (tuple_Pack L (b # t))"
  then obtain z where "tuple_Pack L (b # t) = tuple_Pack L [a] @ z" by (auto simp: prefix_def)
  from pack_delimited [OF assms(1,2) this] assms(3) show "a = b" by simp
next
  assume "a = b"
  with assms(2) pack_Cons [of b t] show "prefix (tuple_Pack L [a]) (tuple_Pack L (b # t))" by simp
qed

text \<open>The same for a string, when no string involved has a zero byte.\<close>

lemma pack_string_prefix_eq:
  assumes "tuple_ok t" "0 \<notin> set x"
  shows "prefix (tuple_Pack L [TString p]) (tuple_Pack L (TString x # t)) \<longleftrightarrow> p = x"
  using assms pack_string_nul [of t p x] by (auto simp: prefix_def)

text \<open>Keys of a tuple inside a subspace lie strictly between the bounds of its range.\<close>

lemma range_keys_contain:
  assumes "tuple_ok (a # t)"
  shows "p @ [0] \<le> p @ tuple_Pack L (a # t)" and "p @ tuple_Pack L (a # t) < p @ [255]"
proof -
  from assms pack_head [of a] obtain c r where "tuple_Pack L [a] = c # r" "c < 255"
    by auto
  with assms have h: "tuple_Pack L (a # t) = c # (r @ tuple_Pack L t)" "c < 255"
    using pack_Cons [of a t] by simp_all
  then show "p @ tuple_Pack L (a # t) < p @ [255]" by simp
  have "[0] \<le> c # (r @ tuple_Pack L t)"
    by (cases "c = 0"; cases "r @ tuple_Pack L t") (auto simp: list_le_def word_gt_0)
  with h show "p @ [0] \<le> p @ tuple_Pack L (a # t)" by simp
qed

lemma range_keys_prefix:
  fixes p k :: bytes
  assumes "p @ [0] \<le> k" and "k < p @ [255]"
  shows "prefix p k"
  by (rule prefix_convex [of p "p @ [0]" "p @ [255]" k]) (use assms in auto)

text \<open>The range of the subspace of one element holds exactly the longer tuples that start with it.\<close>

lemma range_keys_elem_iff:
  assumes "elem_ok a" "tuple_ok (b # c # t)"
  shows "(p @ tuple_Pack L [a]) @ [0] \<le> p @ tuple_Pack L (b # c # t) \<and>
      p @ tuple_Pack L (b # c # t) < (p @ tuple_Pack L [a]) @ [255] \<longleftrightarrow> a = b"
    (is "?in \<longleftrightarrow> _")
proof
  assume i: ?in
  then have "prefix (p @ tuple_Pack L [a]) (p @ tuple_Pack L (b # c # t))"
    using range_keys_prefix by blast
  then obtain z where z: "tuple_Pack L (b # c # t) = tuple_Pack L [a] @ z" by (auto simp: prefix_def)
  with i have "[0] \<le> z" "z < [255]" by simp_all
  then have "z = [] \<or> hd z \<noteq> 255" by (cases z) auto
  with pack_delimited [OF assms z] show "a = b" by simp
next
  assume "a = b"
  with assms have "p @ tuple_Pack L (b # c # t) = (p @ tuple_Pack L [a]) @ tuple_Pack L (c # t)"
    using pack_Cons [of b "c # t"] by simp
  moreover have "tuple_ok (c # t)" using assms by simp
  ultimately show ?in using range_keys_contain [of c t "p @ tuple_Pack L [a]"] by simp
qed

lemma string_has_non_ff: "\<exists>b \<in> set (tuple_Pack L (TString s # t)). b \<noteq> 255" if "tuple_ok t"
proof -
  from pack_head [of "TString s"] obtain c r where "tuple_Pack L [TString s] = c # r" "c < 255"
    by auto
  with that have "tuple_Pack L (TString s # t) = c # (r @ tuple_Pack L t)" "c \<noteq> 255"
    using pack_Cons [of "TString s" t] by auto
  then show ?thesis by auto
qed

end

section \<open>What is documented of transactions\<close>

fun sel_from :: "selector \<Rightarrow> bytes \<Rightarrow> bool" where
  "sel_from (FirstGreaterOrEqual b) k \<longleftrightarrow> b \<le> k"
| "sel_from (FirstGreaterThan b) k \<longleftrightarrow> b < k"

fun sel_upto :: "selector \<Rightarrow> bytes \<Rightarrow> bool" where
  "sel_upto (FirstGreaterOrEqual e) k \<longleftrightarrow> k < e"
| "sel_upto (FirstGreaterThan e) k \<longleftrightarrow> k \<le> e"

definition limited :: "range_options \<Rightarrow> 'a list \<Rightarrow> 'a list" where
  "limited opts xs =
     (let ys = (if ro_Reverse opts then rev xs else xs)
      in if ro_Limit opts = 0 then ys else take (ro_Limit opts) ys)"

definition sel_range :: "(bytes \<rightharpoonup> bytes) \<Rightarrow> selector \<Rightarrow> selector \<Rightarrow> kv list" where
  "sel_range m b e = range_list m (\<lambda>k. sel_from b k \<and> sel_upto e k)"

definition stamp_all :: "(bytes \<Rightarrow> bytes \<Rightarrow> bytes) \<Rightarrow> bytes \<Rightarrow> kv list
    \<Rightarrow> (bytes \<rightharpoonup> bytes) \<Rightarrow> (bytes \<rightharpoonup> bytes)" where
  "stamp_all complete st ps m = foldl (\<lambda>m (k, v). m(complete k st \<mapsto> v)) m ps"

locale fdb_client = fdb_tuples L for L :: "('d, 't) fdb_lib" +
  assumes finite_view: "finite (dom (tr_view L t))"
    and reset_view: "tr_view L (tr_Reset L d t) = db_view L d" "tr_pending L (tr_Reset L d t) = []"
    and option_view: "tr_SetOption L c t = Inr t' \<Longrightarrow>
      tr_view L t' = tr_view L t \<and> tr_pending L t' = tr_pending L t \<and> tr_alive L t' = tr_alive L t"
    and option_alive: "tr_alive L t \<Longrightarrow> \<exists>t'. tr_SetOption L c t = Inr t'"
    and get_sound: "tr_pending L t = [] \<Longrightarrow> tr_Get L t k = Inr x \<Longrightarrow> x = tr_view L t k"
    and get_alive: "tr_pending L t = [] \<Longrightarrow> tr_alive L t \<Longrightarrow> tr_Get L t k = Inr (tr_view L t k)"
    and range_sound: "tr_pending L t = [] \<Longrightarrow>
      (let xs = limited opts (sel_range (tr_view L t) b e)
       in tr_GetRange L snap t b e opts = map Inr xs \<or>
          (\<exists>n err. tr_GetRange L snap t b e opts = map Inr (take n xs) @ [Inl err]))"
    and range_alive: "tr_pending L t = [] \<Longrightarrow> tr_alive L t \<Longrightarrow>
      tr_GetRange L snap t b e opts = map Inr (limited opts (sel_range (tr_view L t) b e))"
    and read_version_alive: "tr_alive L t \<Longrightarrow> \<exists>r. tr_GetReadVersion L t = Inr r"
    and read_version_sound: "tr_GetReadVersion L t = Inr r \<Longrightarrow> r = tr_version L t"
    and reset_version: "tr_version L (tr_Reset L d t) = db_version L d"
    and option_version: "tr_SetOption L c t = Inr t' \<Longrightarrow> tr_version L t' = tr_version L t"
    and version_frame: "tr_version L (tr_Set L k v t) = tr_version L t"
      "tr_version L (tr_SetVersionstampedKey L k v t) = tr_version L t"
      "tr_version L (tr_Clear L k t) = tr_version L t"
      "tr_version L (tr_ClearRange L lo hi t) = tr_version L t"
      "tr_version L (tr_Add L k p t) = tr_version L t"
    and commit_version: "tr_version L t \<le> db_version L (tr_Commit L st t)"
      "int (be_nat (take 8 st)) \<le> db_version L (tr_Commit L st t)"
    and set_view: "tr_view L (tr_Set L k v t) = (tr_view L t)(k \<mapsto> v)"
    and set_frame: "tr_pending L (tr_Set L k v t) = tr_pending L t"
      "tr_alive L (tr_Set L k v t) = tr_alive L t"
    and clear_view: "tr_view L (tr_Clear L k t) = (tr_view L t)(k := None)"
    and clear_frame: "tr_pending L (tr_Clear L k t) = tr_pending L t"
      "tr_alive L (tr_Clear L k t) = tr_alive L t"
    and clear_range_view: "tr_view L (tr_ClearRange L lo hi t) =
      (\<lambda>k. if lo \<le> k \<and> k < hi then None else tr_view L t k)"
    and clear_range_frame: "tr_pending L (tr_ClearRange L lo hi t) = tr_pending L t"
      "tr_alive L (tr_ClearRange L lo hi t) = tr_alive L t"
    and add_view: "\<exists>v. tr_view L (tr_Add L k p t) = (tr_view L t)(k \<mapsto> v)"
    and add_frame: "tr_pending L (tr_Add L k p t) = tr_pending L t"
      "tr_alive L (tr_Add L k p t) = tr_alive L t"
    and setvs_view: "tr_view L (tr_SetVersionstampedKey L k v t) = tr_view L t"
    and setvs_pending: "tr_pending L (tr_SetVersionstampedKey L k v t) = tr_pending L t @ [(k, v)]"
    and setvs_alive: "tr_alive L (tr_SetVersionstampedKey L k v t) = tr_alive L t"
    and commit_view: "db_view L (tr_Commit L st t) =
      stamp_all (vs_complete L) st (tr_pending L t) (tr_view L t)"
begin

lemmas frame_simps = set_frame clear_frame clear_range_frame add_frame setvs_view setvs_pending setvs_alive

lemma strinc_prefix_string:
  assumes "tuple_ok t"
  shows "\<exists>e. fdb_Strinc L (p @ tuple_Pack L (TString s # t)) = Inr e"
  using strinc_ok string_has_non_ff [OF assms, of s] by (metis Un_iff set_append)

end

end
