(* ===== verification/FDB_Transact.thy ===== *)
theory FDB_Transact
  imports FDB_Subspaces
begin

text \<open>
  Transactions with retries (\<^verbatim>\<open>src/pkg/drivers/fdb/fdb_util.go\<close>: \<^verbatim>\<open>transact\<close>, \<^verbatim>\<open>retryable\<close>,
  \<^verbatim>\<open>panicToError\<close>, \<^verbatim>\<open>setFirstInBatch\<close>).

  What the cluster and the other clients do around the attempts of one transaction is a list of
  \<open>attempt\<close>s, one per pass through the loop of \<^verbatim>\<open>retryable\<close>: the commits of other clients before the
  attempt reads, the versionstamp the cluster assigns, how the commit ends (a commit reported as
  unknown may have been applied), what \<^verbatim>\<open>OnError\<close> answers, the random UUID drawn, which iterations
  of a range read have been running for longer than the split duration. Attempts are isolated:
  their reads and their commit take effect at one point, as FoundationDB's strict
  serializability guarantees. The model recurses over this list; \<open>None\<close> means that the list ended
  while the transaction was still being retried.
\<close>

datatype commit_outcome =
    Committed
  | NotCommitted go_error
  | CommitUnknown go_error

record 'd attempt =
  at_before :: "'d \<Rightarrow> 'd"
  at_stamp :: bytes
  at_commit :: commit_outcome
  at_OnError :: "int \<Rightarrow> go_error option"
  at_uuid :: bytes
  at_slow :: "nat \<Rightarrow> bool"
  at_conflicts :: "go_error option"

section \<open>The retry loop\<close>

text \<open>
  \<open>wrapped\<close> is given the attempt and the state and returns its outcome, with \<open>Err e\<close> for a
  non-nil error (the value beside it is never used by a caller). The result carries the attempt it was
  returned by, whose stamp resolves the versionstamp future.
\<close>

fun retryable ::
    "(nat \<Rightarrow> bool) \<Rightarrow> ('d attempt \<Rightarrow> 's \<Rightarrow> 'a res \<times> 's) \<Rightarrow> nat \<Rightarrow> 'd attempt list \<Rightarrow> 's
     \<Rightarrow> ('a res \<times> 'd attempt \<times> 's) option" where
  "retryable force wrapped i [] s = None"
| "retryable force wrapped i (a # as) s =
     (case wrapped a s of
        (Panic p, s') \<Rightarrow> Some (Panic p, a, s')
      | (r, s') \<Rightarrow>
          (case (if force i then Err (FdbError 1021) else r) of
             Err e \<Rightarrow>
               (case (case as_fdb_error e of Some ep \<Rightarrow> at_OnError a ep | None \<Rightarrow> Some e) of
                  Some e' \<Rightarrow> Some (Err e', a, s')
                | None \<Rightarrow> retryable force wrapped (Suc i) as s')
           | r' \<Rightarrow> Some (r', a, s')))"

text \<open>
  \<^verbatim>\<open>panicToError\<close> in a deferred call of \<^verbatim>\<open>wrapped\<close>: an \<^verbatim>\<open>fdb.Error\<close> panic is recovered and stored
  in a variable of \<^verbatim>\<open>transact\<close>. The results of \<^verbatim>\<open>wrapped\<close> are unnamed, so the call returns their zero
  values: \<open>zero\<close> and a nil error. Any other panic is raised again.
\<close>

definition panicToError :: "'a \<Rightarrow> 'a res \<Rightarrow> 'a res" where
  "panicToError zero r = (case r of Panic (FdbPanic c) \<Rightarrow> Ok zero | _ \<Rightarrow> r)"

definition notCommittedErrorCode :: int where
  "notCommittedErrorCode = 1020"

text \<open>The options set at the start of an attempt: timeout, retry limit, conflicting keys report.\<close>

definition transact_options :: "('d, 't) FDB \<Rightarrow> 't \<Rightarrow> 't res" where
  "transact_options f t =
     res_bind (wrap_err ''failed to set timeout limit'' (res_of_sum (tr_SetOption (f_lib f) 500 t))) (\<lambda>t1.
     res_bind (wrap_err ''failed to set timeout limit'' (res_of_sum (tr_SetOption (f_lib f) 501 t1))) (\<lambda>t2.
     if LogConflictingKeys (f_cfg f)
     then wrap_err ''failed to set conflicint keys option'' (res_of_sum (tr_SetOption (f_lib f) 712 t2))
     else Ok t2))"

text \<open>The outcome of \<^verbatim>\<open>tr.Commit().Get()\<close> and the database it leaves.\<close>

definition commit_get :: "('d, 't) FDB \<Rightarrow> 'd attempt \<Rightarrow> 'd \<Rightarrow> 't \<Rightarrow> go_error option \<times> 'd" where
  "commit_get f a d t =
     (case at_commit a of
        Committed \<Rightarrow> (None, tr_Commit (f_lib f) (at_stamp a) t)
      | NotCommitted e \<Rightarrow> (Some e, d)
      | CommitUnknown e \<Rightarrow> (Some e, tr_Commit (f_lib f) (at_stamp a) t))"

definition log_conflicts :: "('d, 't) FDB \<Rightarrow> 'd attempt \<Rightarrow> 'a res \<Rightarrow> 'a res" where
  "log_conflicts f a r =
     (case r of
        Err e \<Rightarrow>
          if LogConflictingKeys (f_cfg f) \<and> as_fdb_error e = Some notCommittedErrorCode
          then (case at_conflicts a of Some err \<Rightarrow> Err err | None \<Rightarrow> r)
          else r
      | _ \<Rightarrow> r)"

text \<open>
  One pass: \<^verbatim>\<open>wrapped\<close>. The body is given the attempt, the transaction and the variables its closure
  captures; it returns its value with the transaction it built up.
\<close>

definition transact_wrapped ::
    "('d, 't) FDB \<Rightarrow> 'a \<Rightarrow> ('d attempt \<Rightarrow> 't \<Rightarrow> 'c \<Rightarrow> ('a \<times> 't) res \<times> 'c)
     \<Rightarrow> 'd attempt \<Rightarrow> 'd \<times> 't \<times> 'c \<Rightarrow> 'a res \<times> 'd \<times> 't \<times> 'c" where
  "transact_wrapped f zero body a = (\<lambda>(d, t, c).
     let d1 = at_before a d; t1 = tr_Reset (f_lib f) d1 t
     in case transact_options f t1 of
          Ok t2 \<Rightarrow>
            (case body a t2 c of
               (Ok (ret, t3), c') \<Rightarrow>
                 (case commit_get f a d1 t3 of
                    (None, d2) \<Rightarrow> (Ok ret, d2, t3, c')
                  | (Some e, d2) \<Rightarrow> (log_conflicts f a (Err e), d2, t3, c'))
             | (Err e, c') \<Rightarrow> (log_conflicts f a (Err e), d1, t2, c')
             | (Panic p, c') \<Rightarrow> (panicToError zero (Panic p), d1, t2, c'))
        | Err e \<Rightarrow> (Err e, d1, t1, c)
        | Panic p \<Rightarrow> (panicToError zero (Panic p), d1, t1, c))"

definition transact ::
    "('d, 't) FDB \<Rightarrow> 'a \<Rightarrow> ('d attempt \<Rightarrow> 't \<Rightarrow> 'c \<Rightarrow> ('a \<times> 't) res \<times> 'c)
     \<Rightarrow> 'd attempt list \<Rightarrow> 'd \<Rightarrow> 'c \<Rightarrow> ('a res \<times> bytes \<times> 'd \<times> 'c) option" where
  "transact f zero body script d c =
     (case db_CreateTransaction (f_lib f) d of
        Inl e \<Rightarrow> Some (Err (WrapErr ''failed to create a transaction'' e), [], d, c)
      | Inr t \<Rightarrow>
          map_option (\<lambda>(r, a, d', t', c'). (r, at_stamp a, d', c'))
            (retryable (forceRetryTransaction (f_cfg f)) (transact_wrapped f zero body) 0 script (d, t, c)))"

definition setFirstInBatch :: "('d, 't) FDB \<Rightarrow> 't \<Rightarrow> 't res" where
  "setFirstInBatch f t = res_of_sum (tr_SetOption (f_lib f) 710 t)"

end
