(* ===== verification/FDB_Driver.thy ===== *)
theory FDB_Driver
  imports FDB_Transact
begin

text \<open>
  The driver's own state and the values it hands to kine: events (\<^verbatim>\<open>revRecordToEvent\<close> of
  \<^verbatim>\<open>util.go\<close>), the prefix test of \<^verbatim>\<open>fdb_watch.go\<close>, the count tracker of \<^verbatim>\<open>fdb_count.go\<close> and the
  mutable fields of \<^verbatim>\<open>FDB\<close> (\<^verbatim>\<open>fdb.go\<close>). \<^verbatim>\<open>server.Event\<close> and \<^verbatim>\<open>server.KeyValue\<close> are kine's structs,
  reduced to the fields the driver sets.
\<close>

section \<open>Events\<close>

record KeyValue =
  kv_Key :: bytes
  kv_CreateRevision :: int64
  kv_ModRevision :: int64
  kv_Lease :: int64
  kv_Value :: bytes

record Event =
  ev_Create :: bool
  ev_Delete :: bool
  ev_KV :: KeyValue
  ev_PrevKV :: "KeyValue option"

definition zeroKeyValue :: KeyValue where
  "zeroKeyValue = \<lparr>kv_Key = [], kv_CreateRevision = 0, kv_ModRevision = 0, kv_Lease = 0, kv_Value = []\<rparr>"

definition revRecordToEvent :: "('d, 't) FDB \<Rightarrow> RevRecord \<Rightarrow> Event res" where
  "revRecordToEvent f rr =
     (let r = rr_Record rr in
      res_bind (VersionstampToInt64 (RevRecord_GetCreateRevision rr)) (\<lambda>createRev.
      res_bind (VersionstampToInt64 (rr_Rev rr)) (\<lambda>modRev.
      res_bind (if r_PrevRevision r \<noteq> dummyVersionstamp f
                then map_res (\<lambda>p. Some (zeroKeyValue\<lparr>kv_ModRevision := p\<rparr>)) (VersionstampToInt64 (r_PrevRevision r))
                else Ok None) (\<lambda>prevKV.
      Ok \<lparr>ev_Create = r_IsCreate r, ev_Delete = r_IsDelete r,
          ev_KV = \<lparr>kv_Key = r_Key r, kv_CreateRevision = createRev, kv_ModRevision = modRev,
                   kv_Lease = r_Lease r,
                   kv_Value = (if APITest (f_cfg f) \<and> r_IsDelete r then [] else r_Value r)\<rparr>,
          ev_PrevKV = prevKV\<rparr>))))"

text \<open>\<^verbatim>\<open>strings.HasSuffix(prefix, "/") && strings.HasPrefix(key, prefix) || key == prefix\<close>\<close>

definition doesEventHavePrefix :: "bytes \<Rightarrow> bytes \<Rightarrow> bool" where
  "doesEventHavePrefix key pre \<longleftrightarrow> suffix (str ''/'') pre \<and> prefix pre key \<or> key = pre"

section \<open>The count tracker\<close>

record countEntry =
  ce_count :: int64
  ce_seedRev :: int64

type_synonym countTracker = "bytes \<rightharpoonup> countEntry"

definition newCountTracker :: countTracker where
  "newCountTracker = Map.empty"

definition countTracker_reset :: "countTracker \<Rightarrow> countTracker" where
  "countTracker_reset t = Map.empty"

definition countTracker_get :: "countTracker \<Rightarrow> bytes \<Rightarrow> int64 \<times> int64 \<times> bool" where
  "countTracker_get t pre =
     (case t pre of None \<Rightarrow> (0, 0, False) | Some e \<Rightarrow> (ce_count e, ce_seedRev e, True))"

definition countTracker_seed :: "bytes \<Rightarrow> int64 \<Rightarrow> int64 \<Rightarrow> countTracker \<Rightarrow> countTracker" where
  "countTracker_seed pre count seedRev t =
     (case t pre of None \<Rightarrow> t(pre \<mapsto> \<lparr>ce_count = count, ce_seedRev = seedRev\<rparr>) | Some _ \<Rightarrow> t)"

text \<open>
  The body of the inner loop of \<^verbatim>\<open>apply\<close> for one tracked prefix. The loop ranges over a map and treats
  each entry alone, so the order of the iteration does not matter.
\<close>

definition countEntry_apply :: "bytes \<Rightarrow> Event \<Rightarrow> countEntry \<Rightarrow> countEntry" where
  "countEntry_apply pre ev e =
     (if kv_ModRevision (ev_KV ev) \<le> ce_seedRev e \<or> \<not> doesEventHavePrefix (kv_Key (ev_KV ev)) pre then e
      else if ev_Create ev then e\<lparr>ce_count := wrap64 (ce_count e + 1)\<rparr>
      else e\<lparr>ce_count := wrap64 (ce_count e - 1)\<rparr>)"

fun countTracker_apply :: "Event list \<Rightarrow> countTracker \<Rightarrow> countTracker" where
  "countTracker_apply [] t = t"
| "countTracker_apply (ev # evs) t =
     (if \<not> ev_Create ev \<and> \<not> ev_Delete ev then countTracker_apply evs t
      else countTracker_apply evs (\<lambda>pre. map_option (countEntry_apply pre ev) (t pre)))"

section \<open>The mutable state of the driver\<close>

text \<open>
  The database and the fields of \<^verbatim>\<open>FDB\<close> that change after \<^verbatim>\<open>Start\<close>. \<open>d_pollKick\<close>: the channel of
  capacity one holds a wake-up.
\<close>

record 'd driver =
  d_db :: 'd
  d_pollKick :: bool
  d_lastWatchRev :: int64
  d_pollActive :: bool
  d_counts :: countTracker

definition kickPoll :: "'d driver \<Rightarrow> 'd driver" where
  "kickPoll s = s\<lparr>d_pollKick := True\<rparr>"

text \<open>The driver \<^verbatim>\<open>NewFDB\<close> returns, on a database.\<close>

definition NewFDB :: "'d \<Rightarrow> 'd driver" where
  "NewFDB d = \<lparr>d_db = d, d_pollKick = False, d_lastWatchRev = 0, d_pollActive = False, d_counts = newCountTracker\<rparr>"

end
