(* ===== verification/FDB_Range.thy ===== *)
theory FDB_Range
  imports FDB_Driver
begin

text \<open>
  Range reads in batches (\<^verbatim>\<open>src/pkg/drivers/fdb/fdb_util.go\<close>: \<^verbatim>\<open>Processor\<close>, \<^verbatim>\<open>processBatch\<close>,
  \<^verbatim>\<open>processRange\<close>). A \<^verbatim>\<open>Processor[T]\<close> is a record of its methods over its state \<open>'s\<close>; the items \<open>'r\<close> it is
  given are range iterators or records. An iterator is advanced by reading it, so \<^verbatim>\<open>next\<close> returns the rest.
  A batch is one transaction, whose closure captures the state of the processor: a retried attempt
  sees what an earlier one left there.
\<close>

record ('t, 'r, 's) Processor =
  p_streamingMode :: streaming_mode
  p_snapshotReads :: bool
  p_startBatch :: "'s \<Rightarrow> 's"
  p_next :: "'t \<Rightarrow> 'r \<Rightarrow> 's \<Rightarrow> (bytes option \<times> bool \<times> 't \<times> 'r) res \<times> 's"
  p_endBatch :: "'t \<Rightarrow> bool \<Rightarrow> 's \<Rightarrow> 't res \<times> 's"
  p_postBatch :: "'s \<Rightarrow> 's"

record batchResult =
  br_lastReadKey :: "bytes option"
  br_collectorNeedsMore :: bool

text \<open>
  The loop of \<^verbatim>\<open>processBatch\<close>. \<open>slow i\<close>: more than \<^verbatim>\<open>splitRangeAfterDuration\<close> has passed after iteration \<open>i\<close>. An
  iteration that asks for more and has not advanced the iterator would be repeated for ever; the model
  ends there with a panic of its own, which no processor of the driver reaches.
\<close>

function processBatch_loop ::
    "('t, iter, 's) Processor \<Rightarrow> (nat \<Rightarrow> bool) \<Rightarrow> nat \<Rightarrow> 't \<Rightarrow> iter \<Rightarrow> 's \<Rightarrow> (batchResult \<times> 't) res \<times> 's" where
  "processBatch_loop p slow i t it s =
     (case p_next p t it s of
        (Err e, s1) \<Rightarrow> (Err e, s1)
      | (Panic q, s1) \<Rightarrow> (Panic q, s1)
      | (Ok (lastKey, needsMore, t1, it1), s1) \<Rightarrow>
          let res = \<lparr>br_lastReadKey = lastKey, br_collectorNeedsMore = needsMore \<and> lastKey \<noteq> None\<rparr>
          in if slow i \<or> \<not> br_collectorNeedsMore res then (Ok (res, t1), s1)
             else if length it1 < length it then processBatch_loop p slow (Suc i) t1 it1 s1
             else (Panic (RuntimePanic ''processBatch spins''), s1))"
  by pat_completeness auto
termination
  by (relation "measure (\<lambda>(p, slow, i, t, it, s). length it)") auto

declare processBatch_loop.simps [simp del]

definition processBatch_body ::
    "('d, 't) FDB \<Rightarrow> ('t, iter, 's) Processor \<Rightarrow> selector \<times> selector \<Rightarrow> 'd attempt \<Rightarrow> 't \<Rightarrow> 's
     \<Rightarrow> (batchResult \<times> 't) res \<times> 's" where
  "processBatch_body f p sel a t s =
     (let it = tr_GetRange (f_lib f) (p_snapshotReads p) t (fst sel) (snd sel)
                 \<lparr>ro_Limit = 0, ro_Mode = p_streamingMode p, ro_Reverse = False\<rparr>
      in case processBatch_loop p (at_slow a) 0 t it (p_startBatch p s) of
           (Err e, s1) \<Rightarrow> (Err e, s1)
         | (Panic q, s1) \<Rightarrow> (Panic q, s1)
         | (Ok (res, t1), s1) \<Rightarrow>
             (case p_endBatch p t1 (\<not> br_collectorNeedsMore res) s1 of
                (Err e, s2) \<Rightarrow> (Err e, s2)
              | (Panic q, s2) \<Rightarrow> (Panic q, s2)
              | (Ok t2, s2) \<Rightarrow> (Ok (res, t2), s2)))"

text \<open>\<^verbatim>\<open>postBatch\<close> runs after the transaction, also when it failed. The stamp of the last attempt is returned with the result.\<close>

definition processBatch ::
    "('d, 't) FDB \<Rightarrow> ('t, iter, 's) Processor \<Rightarrow> selector \<times> selector \<Rightarrow> 'd attempt list \<Rightarrow> 'd \<Rightarrow> 's
     \<Rightarrow> (batchResult res \<times> bytes \<times> 'd \<times> 's) option" where
  "processBatch f p sel script d s =
     (case transact f \<lparr>br_lastReadKey = None, br_collectorNeedsMore = False\<rparr> (processBatch_body f p sel) script d s of
        None \<Rightarrow> None
      | Some (Panic q, st, d1, s1) \<Rightarrow> Some (Panic q, st, d1, s1)
      | Some (r, st, d1, s1) \<Rightarrow> Some (r, st, d1, p_postBatch p s1))"

text \<open>One list of attempts per batch; \<open>None\<close> when they ended first.\<close>

fun processRange ::
    "('d, 't) FDB \<Rightarrow> ('t, iter, 's) Processor \<Rightarrow> selector \<times> selector \<Rightarrow> 'd attempt list list \<Rightarrow> 'd \<Rightarrow> 's
     \<Rightarrow> (unit res \<times> bytes \<times> 'd \<times> 's) option" where
  "processRange f p sel [] d s = None"
| "processRange f p sel (script # scripts) d s =
     (case processBatch f p sel script d s of
        None \<Rightarrow> None
      | Some (Err e, st, d1, s1) \<Rightarrow> Some (Err e, st, d1, s1)
      | Some (Panic q, st, d1, s1) \<Rightarrow> Some (Panic q, st, d1, s1)
      | Some (Ok res, st, d1, s1) \<Rightarrow>
          if \<not> br_collectorNeedsMore res then Some (Ok (), st, d1, s1)
          else processRange f p
                 (FirstGreaterThan (case br_lastReadKey res of None \<Rightarrow> [] | Some k \<Rightarrow> k), snd sel) scripts d1 s1)"

end
