(* ===== verification/FDB_Layout.thy ===== *)
theory FDB_Layout
  imports FDB_Subspaces
begin

text \<open>
  The key-value layout of the driver: which pairs a record occupies in each subspace, and that
  the parsers of the subspaces read exactly that record back. The locale \<open>fdb_driver\<close> is a
  driver opened on a directory over a client that satisfies \<open>fdb_client\<close>.
\<close>

section \<open>The pairs of a record\<close>

definition rec_wf :: "Record \<Rightarrow> bool" where
  "rec_wf r \<longleftrightarrow>
     - (2 ^ 63) \<le> r_Lease r \<and> r_Lease r < 2 ^ 63 \<and>
     elem_ok (TVersionstamp (r_CreateRevision r)) \<and> elem_ok (TVersionstamp (r_PrevRevision r)) \<and>
     r_ValueSize r = int (length (r_Value r)) \<and> length (r_Value r) < 2 ^ 63 \<and>
     length (r_WriteUUID r) = 16"

text \<open>A history entry: a revision and the record written at it.\<close>

type_synonym entry = "versionstamp \<times> Record"

definition entry_wf :: "entry \<Rightarrow> bool" where
  "entry_wf e \<longleftrightarrow> elem_ok (TVersionstamp (fst e)) \<and> rec_wf (snd e)"

definition chunk_kvs :: "('d, 't) fdb_lib \<Rightarrow> bytes \<Rightarrow> elem list \<Rightarrow> bytes \<Rightarrow> kv list" where
  "chunk_kvs L p t val =
     map (\<lambda>(off, b). (p @ tuple_Pack L (t @ [TInt (int off)]), b)) (chunks_from chunkSize 0 val)"

definition rev_kvs :: "('d, 't) fdb_lib \<Rightarrow> bytes \<Rightarrow> entry \<Rightarrow> kv list" where
  "rev_kvs L p e =
     (p @ tuple_Pack L [TVersionstamp (fst e)], tuple_Pack L (ByRevision_recordToTuple (snd e)))
     # chunk_kvs L p [TVersionstamp (fst e)] (r_Value (snd e))"

definition index_kv :: "('d, 't) fdb_lib \<Rightarrow> bytes \<Rightarrow> entry \<Rightarrow> kv" where
  "index_kv L p e =
     (p @ tuple_Pack L [TString (r_Key (snd e)), TVersionstamp (fst e)],
      tuple_Pack L (ByKeyAndRevision_recordToTuple (snd e)))"

definition current_kvs :: "('d, 't) fdb_lib \<Rightarrow> bytes \<Rightarrow> bytes \<times> bytes \<Rightarrow> kv list" where
  "current_kvs L p kv = chunk_kvs L p [TString (fst kv)] (snd kv)"

text \<open>What is read back of a record: the by-revision subspace has no write UUID, the index no value.\<close>

definition by_revision_record :: "Record \<Rightarrow> Record" where
  "by_revision_record r = r\<lparr>r_WriteUUID := zeroUUID, r_LatestForKey := False\<rparr>"

definition index_record :: "entry \<Rightarrow> ByKeyAndRevisionRecord" where
  "index_record e =
     \<lparr>bk_Key = \<lparr>kr_Key = r_Key (snd e), kr_Rev = fst e\<rparr>,
      bk_Value = (snd e)\<lparr>r_Value := [], r_LatestForKey := False\<rparr>\<rparr>"

text \<open>The map and a list of pairs agree on a subspace: the subspace holds these pairs and nothing else.\<close>

definition agree_on :: "bytes \<Rightarrow> (bytes \<rightharpoonup> bytes) \<Rightarrow> kv list \<Rightarrow> bool" where
  "agree_on p m kvs \<longleftrightarrow> (\<forall>k. prefix p k \<longrightarrow> m k = map_of kvs k)"

text \<open>Histories: strictly ascending revisions, well-formed entries.\<close>

definition hist_sorted :: "entry list \<Rightarrow> bool" where
  "hist_sorted h \<longleftrightarrow> sorted_wrt (\<lambda>e e'. vs_key (fst e) < vs_key (fst e')) h"

definition hist_wf :: "entry list \<Rightarrow> bool" where
  "hist_wf h \<longleftrightarrow> hist_sorted h \<and> (\<forall>e\<in>set h. entry_wf e)"

text \<open>
  What the database holds once a transaction commits with stamp \<open>st\<close>, and a map updated with
  a list of pairs in order.
\<close>

definition committed :: "('d, 't) fdb_lib \<Rightarrow> bytes \<Rightarrow> 't \<Rightarrow> (bytes \<rightharpoonup> bytes)" where
  "committed L st t = stamp_all (vs_complete L) st (tr_pending L t) (tr_view L t)"

definition stamped :: "('d, 't) fdb_lib \<Rightarrow> bytes \<Rightarrow> 't \<Rightarrow> kv list" where
  "stamped L st t = map (\<lambda>(k, v). (vs_complete L k st, v)) (tr_pending L t)"

definition upd_all :: "kv list \<Rightarrow> (bytes \<rightharpoonup> bytes) \<Rightarrow> (bytes \<rightharpoonup> bytes)" where
  "upd_all kvs m = foldl (\<lambda>m (k, v). m(k \<mapsto> v)) m kvs"

lemma upd_all_Nil [simp]: "upd_all [] m = m"
  by (simp add: upd_all_def)

lemma upd_all_Cons [simp]: "upd_all (kv # kvs) m = upd_all kvs (m(fst kv \<mapsto> snd kv))"
  by (cases kv) (simp add: upd_all_def)

lemma upd_all_append [simp]: "upd_all (xs @ ys) m = upd_all ys (upd_all xs m)"
  by (simp add: upd_all_def)

lemma upd_all_notin: "k \<notin> fst ` set kvs \<Longrightarrow> upd_all kvs m k = m k"
  by (induction kvs arbitrary: m) auto

lemma upd_all_in: "k \<in> fst ` set kvs \<Longrightarrow> upd_all kvs m k = upd_all kvs Map.empty k"
proof (induction kvs arbitrary: m)
  case Nil
  then show ?case by simp
next
  case (Cons kv kvs)
  show ?case
  proof (cases "k \<in> fst ` set kvs")
    case True
    with Cons.IH show ?thesis by (metis upd_all_Cons)
  next
    case False
    with Cons.prems show ?thesis by (simp add: upd_all_notin)
  qed
qed

lemma upd_all_map_of:
  assumes "distinct (map fst kvs)"
  shows "upd_all kvs m = m ++ map_of kvs"
  using assms
proof (induction kvs arbitrary: m)
  case Nil
  then show ?case by simp
next
  case (Cons kv kvs)
  have none: "map_of kvs (fst kv) = None"
    using Cons.prems by (simp add: map_of_eq_None_iff)
  have "upd_all (kv # kvs) m = m(fst kv \<mapsto> snd kv) ++ map_of kvs"
    using Cons by simp
  also have "\<dots> = m ++ map_of (kv # kvs)"
    using none by (auto simp: map_add_def fun_eq_iff split: option.splits)
  finally show ?case .
qed

lemma stamp_all_upd_all:
  "stamp_all c st ps m = upd_all (map (\<lambda>(k, v). (c k st, v)) ps) m"
  unfolding stamp_all_def upd_all_def foldl_map by (simp add: case_prod_unfold)

lemma committed_eq: "committed L st t = upd_all (stamped L st t) (tr_view L t)"
  by (simp add: committed_def stamped_def stamp_all_upd_all)

section \<open>Offsets of chunks\<close>

lemma chunks_offsets_bound:
  "(off, b) \<in> set (chunks_from chunkSize 0 val) \<Longrightarrow> off < length val"
proof -
  assume "(off, b) \<in> set (chunks_from chunkSize 0 val)"
  then have "off \<in> set (map fst (chunks_from chunkSize 0 val))" by force
  then obtain i where i: "off = i * chunkSize" "i < (length val + chunkSize - 1) div chunkSize"
    by (auto simp: chunks_from_offsets chunkSize_def)
  then have "(i + 1) * chunkSize \<le> length val + chunkSize - 1"
    by (metis Suc_eq_plus1 Suc_leI div_times_less_eq_dividend le_trans mult_le_mono1)
  with i show "off < length val" by (simp add: chunkSize_def)
qed

lemma chunks_offsets_sorted: "sorted_wrt (<) (map fst (chunks_from chunkSize 0 val))"
proof -
  have "sorted_wrt (\<lambda>i j. i * chunkSize < j * chunkSize) [0..<(length val + chunkSize - 1) div chunkSize]"
    by (rule sorted_wrt_mono_rel [OF _ sorted_wrt_upt]) (simp add: chunkSize_def)
  then show ?thesis
    by (simp add: chunks_from_offsets chunkSize_def sorted_wrt_map)
qed

section \<open>The driver on a directory\<close>

locale fdb_driver = fdb_client L for L :: "('d, 't) fdb_lib" +
  fixes cfg :: config and dir :: bytes and f :: "('d, 't) FDB"
  assumes driver_eq: "f = openSubspaces L cfg dir"
begin

lemma driver_simps [simp]:
  "f_lib f = L" "f_cfg f = cfg"
  "f_byRevision f = dir @ tuple_Pack L [TString (str ''byRevision'')]"
  "f_byKeyAndRevision f = dir @ tuple_Pack L [TString (str ''byKeyAndRevision'')]"
  "f_byKeyCurrent f = dir @ tuple_Pack L [TString (str ''byKeyCurrent'')]"
  "f_watch f = dir @ tuple_Pack L [TString (str ''watch'')]"
  "f_compactRev f = dir @ tuple_Pack L [TString (str ''compactRevision'')]"
  by (simp_all only: driver_eq openSubspaces_def CreateByRevisionSubspace_def
      CreateByKeyRevisionSubspace_def CreateByKeyCurrentSubspace_def CreateWatchSubspace_def
      CreateCompactRevisionSubspace_def sub_eq FDB.select_convs)

text \<open>A key of one subspace is in no other.\<close>

lemma subspace_disjoint:
  assumes "a \<noteq> b" "0 \<notin> set a" "0 \<notin> set b" "prefix (dir @ tuple_Pack L [TString a]) k"
  shows "\<not> prefix (dir @ tuple_Pack L [TString b]) k"
proof
  assume "prefix (dir @ tuple_Pack L [TString b]) k"
  from prefix_same_cases [OF assms(4) this]
  have "prefix (tuple_Pack L [TString a]) (tuple_Pack L [TString b])
      \<or> prefix (tuple_Pack L [TString b]) (tuple_Pack L [TString a])"
    by simp
  with assms(1-3) show False by (auto simp: pack_string_prefix_eq)
qed

subsection \<open>Order and prefixes of keys in a subspace\<close>

lemma pack_snoc_less:
  assumes "tuple_ok t" "elem_ok a" "elem_ok b" "elem_less a b"
  shows "p @ tuple_Pack L (t @ [a]) < p @ tuple_Pack L (t @ [b])"
  using assms pack_append [of t "[a]"] pack_append [of t "[b]"] pack_less [of a "[]" b "[]"] by simp

lemma pack_head_less:
  assumes "tuple_ok (a # s)" "tuple_ok (b # t)" "elem_less a b"
  shows "p @ tuple_Pack L (a # s) < p @ tuple_Pack L (b # t)"
  using assms pack_less by simp

lemma pack_extend_less:
  assumes "tuple_ok t" "elem_ok a"
  shows "p @ tuple_Pack L t < p @ tuple_Pack L (t @ [a])"
proof -
  have "tuple_Pack L (t @ [a]) = tuple_Pack L t @ tuple_Pack L [a]"
    using assms pack_append [of t "[a]"] by simp
  moreover obtain c r where "tuple_Pack L [a] = c # r"
    using pack_head [OF assms(2)] by blast
  moreover have "tuple_Pack L t @ [] < tuple_Pack L t @ (c # r)"
    by (subst append_less_append) simp
  ultimately show ?thesis by simp
qed

lemma chunk_offset_ok:
  "(off, b) \<in> set (chunks_from chunkSize 0 val) \<Longrightarrow> length val < 2 ^ 63 \<Longrightarrow> elem_ok (TInt (int off))"
  by (drule chunks_offsets_bound) simp

text \<open>The chunks of a value are stored in ascending key order, after the key they extend.\<close>

lemma chunk_kvs_sorted:
  assumes "tuple_ok t" "length val < 2 ^ 63"
  shows "sorted_wrt (<) (map fst (chunk_kvs L p t val))"
proof -
  let ?cs = "chunks_from chunkSize 0 val"
  have "sorted_wrt (\<lambda>x y. fst x < fst y) ?cs"
    using chunks_offsets_sorted [of val] by (simp add: sorted_wrt_map)
  then have "sorted_wrt (\<lambda>x y. p @ tuple_Pack L (t @ [TInt (int (fst x))])
      < p @ tuple_Pack L (t @ [TInt (int (fst y))])) ?cs"
  proof (rule sorted_wrt_mono_rel [rotated])
    fix x y assume "x \<in> set ?cs" "y \<in> set ?cs" "fst x < fst y"
    moreover from this assms(2) have "elem_ok (TInt (int (fst x)))" "elem_ok (TInt (int (fst y)))"
      by (metis chunk_offset_ok prod.collapse)+
    ultimately show "p @ tuple_Pack L (t @ [TInt (int (fst x))])
        < p @ tuple_Pack L (t @ [TInt (int (fst y))])"
      using assms(1) by (intro pack_snoc_less) auto
  qed
  then show ?thesis
    by (simp add: chunk_kvs_def sorted_wrt_map case_prod_beta comp_def)
qed

lemma chunk_kvs_prefix:
  assumes "tuple_ok t" "length val < 2 ^ 63" "kv \<in> set (chunk_kvs L p t val)"
  shows "\<exists>a. elem_ok a \<and> fst kv = p @ tuple_Pack L (t @ [a])"
proof -
  from assms(3) obtain off b where c: "(off, b) \<in> set (chunks_from chunkSize 0 val)"
    "fst kv = p @ tuple_Pack L (t @ [TInt (int off)])"
    by (auto simp: chunk_kvs_def)
  from chunk_offset_ok [OF c(1) assms(2)] c(2) show ?thesis by blast
qed

lemma rev_kvs_keys:
  assumes "entry_wf e" "kv \<in> set (rev_kvs L p e)"
  shows "\<exists>s. tuple_ok s \<and> fst kv = p @ tuple_Pack L (TVersionstamp (fst e) # s)"
proof -
  have ok: "tuple_ok [TVersionstamp (fst e)]" and len: "length (r_Value (snd e)) < 2 ^ 63"
    using assms(1) by (auto simp: entry_wf_def rec_wf_def)
  from assms(2) consider "fst kv = p @ tuple_Pack L [TVersionstamp (fst e)]"
    | "kv \<in> set (chunk_kvs L p [TVersionstamp (fst e)] (r_Value (snd e)))"
    by (auto simp: rev_kvs_def)
  then show ?thesis
  proof cases
    case 1
    then show ?thesis by (intro exI [of _ "[]"]) simp
  next
    case 2
    from chunk_kvs_prefix [OF ok len 2] obtain a where
      "elem_ok a" "fst kv = p @ tuple_Pack L ([TVersionstamp (fst e)] @ [a])" by blast
    then show ?thesis by (intro exI [of _ "[a]"]) simp
  qed
qed

lemma rev_kvs_sorted:
  assumes "entry_wf e"
  shows "sorted_wrt (<) (map fst (rev_kvs L p e))"
proof -
  have ok: "tuple_ok [TVersionstamp (fst e)]" and len: "length (r_Value (snd e)) < 2 ^ 63"
    using assms by (auto simp: entry_wf_def rec_wf_def)
  have "p @ tuple_Pack L [TVersionstamp (fst e)] < k"
    if "k \<in> fst ` set (chunk_kvs L p [TVersionstamp (fst e)] (r_Value (snd e)))" for k
    using that chunk_kvs_prefix [OF ok len] pack_extend_less [OF ok] by force
  with chunk_kvs_sorted [OF ok len] show ?thesis
    by (simp add: rev_kvs_def)
qed

lemma rev_kvs_less:
  assumes "entry_wf e" "entry_wf e'" "vs_key (fst e) < vs_key (fst e')"
    and "kv \<in> set (rev_kvs L p e)" "kv' \<in> set (rev_kvs L p e')"
  shows "fst kv < fst kv'"
proof -
  from rev_kvs_keys [OF assms(1,4)] rev_kvs_keys [OF assms(2,5)] obtain s s' where
    s: "tuple_ok s" "fst kv = p @ tuple_Pack L (TVersionstamp (fst e) # s)"
      "tuple_ok s'" "fst kv' = p @ tuple_Pack L (TVersionstamp (fst e') # s')"
    by blast
  show ?thesis
    unfolding s(2,4) by (rule pack_head_less) (use assms s in \<open>auto simp: entry_wf_def\<close>)
qed

text \<open>A history in ascending revision order is laid out in ascending key order.\<close>

lemma history_kvs_sorted:
  assumes "sorted_wrt (\<lambda>e e'. vs_key (fst e) < vs_key (fst e')) h" "\<forall>e\<in>set h. entry_wf e"
  shows "sorted_wrt (<) (map fst (concat (map (rev_kvs L p) h)))"
  using assms
proof (induction h)
  case Nil
  then show ?case by simp
next
  case (Cons e h)
  have "fst kv < fst kv'"
    if "kv \<in> set (rev_kvs L p e)" "e' \<in> set h" "kv' \<in> set (rev_kvs L p e')" for kv e' kv'
    using that Cons.prems by (intro rev_kvs_less) auto
  with Cons rev_kvs_sorted [of e] show ?case
    by (auto simp: sorted_wrt_append)
qed

subsection \<open>Round trips: what is stored is what is parsed\<close>

lemmas record_tuple_simps = ByRevision_recordToTuple_def ByRevision_tupleToRecord_def
  ByKeyAndRevision_recordToTuple_def ByKeyAndRevision_tupleToRecord_def tuple_access

lemma ByRevision_tuple_roundtrip:
  "ByRevision_tupleToRecord (ByRevision_recordToTuple r)
     = Ok (r\<lparr>r_WriteUUID := zeroUUID, r_Value := [], r_LatestForKey := False\<rparr>)"
  by (simp add: record_tuple_simps)

lemma ByKeyAndRevision_tuple_roundtrip:
  "ByKeyAndRevision_tupleToRecord (ByKeyAndRevision_recordToTuple r)
     = Ok (r\<lparr>r_Key := [], r_Value := [], r_LatestForKey := False\<rparr>)"
  by (simp add: record_tuple_simps)

lemma recordToTuple_ok:
  assumes "rec_wf r"
  shows "tuple_ok (ByRevision_recordToTuple r)" "tuple_ok (ByKeyAndRevision_recordToTuple r)"
  using assms by (auto simp: rec_wf_def ByRevision_recordToTuple_def ByKeyAndRevision_recordToTuple_def)

lemma ByRevision_ParseKV_header:
  assumes "entry_wf (v, r)"
  shows "ByRevision_ParseKV f (f_byRevision f @ tuple_Pack L [TVersionstamp v],
      tuple_Pack L (ByRevision_recordToTuple r))
    = Ok (v, r\<lparr>r_WriteUUID := zeroUUID, r_Value := [], r_LatestForKey := False\<rparr>)"
proof -
  have "subspace_Unpack L (f_byRevision f) (f_byRevision f @ tuple_Pack L [TVersionstamp v])
      = Inr [TVersionstamp v]"
    by (rule sunpack_eq) (use assms in \<open>simp add: entry_wf_def\<close>)
  moreover have "tuple_Unpack L (tuple_Pack L (ByRevision_recordToTuple r))
      = Inr (ByRevision_recordToTuple r)"
    by (rule unpack_pack) (use assms recordToTuple_ok in \<open>simp add: entry_wf_def\<close>)
  moreover have "tupleAt asVersionstamp [TVersionstamp v] 0 = Ok v"
    by (simp add: tuple_access)
  ultimately show ?thesis
    by (simp add: ByRevision_ParseKV_def ByRevision_tuple_roundtrip wrap_err_def del: driver_simps(3))
qed

lemma getBlob_full: "ByRevision_getBlob it buf (length buf) = Ok (buf, it)"
  by (cases it) auto

lemma getBlob_chunks:
  assumes "\<forall>c\<in>set cs. snd c \<noteq> []"
    and "length buf = offset + length (concat (map snd cs))"
  shows "ByRevision_getBlob (map Inr cs @ it) buf offset
    = Ok (take offset buf @ concat (map snd cs), it)"
  using assms
proof (induction cs arbitrary: buf offset)
  case Nil
  then show ?case using getBlob_full [of it buf] by simp
next
  case (Cons c cs)
  let ?b = "go_copy_at buf offset (snd c)"
  have len: "length ?b = length buf"
    using Cons.prems by (simp add: go_copy_at_def)
  have tk: "take (offset + length (snd c)) ?b = take offset buf @ snd c"
    using Cons.prems by (simp add: go_copy_at_def)
  have "offset < length buf"
    using Cons.prems by (cases "snd c") auto
  then have "ByRevision_getBlob (map Inr (c # cs) @ it) buf offset
      = ByRevision_getBlob (map Inr cs @ it) ?b (offset + length (snd c))"
    by simp
  also have "\<dots> = Ok (take (offset + length (snd c)) ?b @ concat (map snd cs), it)"
    using Cons.prems len by (intro Cons.IH) auto
  finally show ?case by (simp add: tk)
qed

lemma chunk_kvs_values: "concat (map snd (chunk_kvs L p t val)) = val"
proof -
  have "map snd (chunk_kvs L p t val) = map snd (chunks_from chunkSize 0 val)"
    by (simp add: chunk_kvs_def case_prod_beta comp_def)
  then show ?thesis by (simp add: concat_chunks_from chunkSize_def)
qed

lemma chunk_kvs_nonempty: "kv \<in> set (chunk_kvs L p t val) \<Longrightarrow> snd kv \<noteq> []"
  by (auto simp: chunk_kvs_def dest: chunks_from_nonempty)

text \<open>Reading a stored record off an iterator returns it whole and leaves the rest of the iterator.\<close>

lemma ByRevision_GetFromIterator_rev_kvs:
  assumes "entry_wf e"
  shows "ByRevision_GetFromIterator f (map Inr (rev_kvs L (f_byRevision f) e) @ it)
    = Ok (Some (fst e, by_revision_record (snd e)), it)"
proof -
  obtain v r where e: "e = (v, r)" by (cases e)
  let ?cs = "chunk_kvs L (f_byRevision f) [TVersionstamp v] (r_Value r)"
  have size: "r_ValueSize r = int (length (r_Value r))"
    using assms by (simp add: e entry_wf_def rec_wf_def)
  have blob: "ByRevision_getBlob (map Inr ?cs @ it) (replicate (length (r_Value r)) 0) 0
      = Ok (r_Value r, it)"
    using getBlob_chunks [of ?cs "replicate (length (r_Value r)) 0" 0 it] chunk_kvs_nonempty
    by (fastforce simp: chunk_kvs_values)
  show ?thesis
    using ByRevision_ParseKV_header [OF assms [unfolded e]] blob size
    by (simp add: e ByRevision_GetFromIterator_def rev_kvs_def it_Advance_def
        by_revision_record_def del: driver_simps(3))
qed

lemma ByKeyAndRevision_parseKV_index_kv:
  assumes "entry_wf e"
  shows "ByKeyAndRevision_parseKV f (index_kv L (f_byKeyAndRevision f) e) = Ok (index_record e)"
proof -
  let ?t = "[TString (r_Key (snd e)), TVersionstamp (fst e)]"
  have "subspace_Unpack L (f_byKeyAndRevision f) (f_byKeyAndRevision f @ tuple_Pack L ?t) = Inr ?t"
    by (rule sunpack_eq) (use assms in \<open>simp add: entry_wf_def\<close>)
  moreover have "tuple_Unpack L (tuple_Pack L (ByKeyAndRevision_recordToTuple (snd e)))
      = Inr (ByKeyAndRevision_recordToTuple (snd e))"
    by (rule unpack_pack) (use assms recordToTuple_ok in \<open>simp add: entry_wf_def\<close>)
  moreover have "tupleAt asString ?t 0 = Ok (r_Key (snd e))"
    "tupleAt asVersionstamp ?t 1 = Ok (fst e)"
    by (simp_all add: tuple_access)
  ultimately show ?thesis
    by (simp add: ByKeyAndRevision_parseKV_def index_kv_def index_record_def
        ByKeyAndRevision_tuple_roundtrip del: driver_simps(4))
qed

lemma ByKeyAndRevision_GetFromIterator_index_kv:
  assumes "entry_wf e"
  shows "ByKeyAndRevision_GetFromIterator f (Inr (index_kv L (f_byKeyAndRevision f) e) # it)
    = Ok (Some (index_record e), it)"
  using ByKeyAndRevision_parseKV_index_kv [OF assms]
  by (simp add: ByKeyAndRevision_GetFromIterator_def it_Advance_def)

lemma ByKeyCurrent_parseKV_chunk:
  assumes "kv \<in> set (current_kvs L (f_byKeyCurrent f) (key, val))" "length val < 2 ^ 63"
  shows "ByKeyCurrent_parseKV f kv = Ok \<lparr>dc_key = key, dc_value = snd kv\<rparr>"
proof -
  from chunk_kvs_prefix [of "[TString key]" val kv "f_byKeyCurrent f"] assms obtain a where
    a: "elem_ok a" "fst kv = f_byKeyCurrent f @ tuple_Pack L [TString key, a]"
    by (auto simp: current_kvs_def)
  then have "subspace_Unpack L (f_byKeyCurrent f) (fst kv) = Inr [TString key, a]"
    by (simp add: sunpack_eq del: driver_simps(5))
  then show ?thesis by (simp add: ByKeyCurrent_parseKV_def tuple_access del: driver_simps(5))
qed

subsection \<open>Reading the subspaces of a live transaction\<close>

lemma sorted_keys_distinct: "sorted_wrt (<) (map fst kvs) \<Longrightarrow> distinct (map fst (kvs :: kv list))"
  by (simp add: strict_sorted_iff)

lemma sorted_keys_range_list:
  fixes kvs :: "kv list"
  assumes "sorted_wrt (<) (map fst kvs)" "finite (dom m)"
    and "\<And>k v. (k, v) \<in> set kvs \<longleftrightarrow> m k = Some v \<and> P k"
  shows "range_list m P = kvs"
  using assms by (intro range_list_unique) (auto simp: strict_sorted_iff)

lemma strinc_subspace:
  assumes "tuple_ok t"
  shows "\<exists>e. fdb_Strinc L ((dir @ tuple_Pack L [TString s]) @ tuple_Pack L t) = Inr e"
  using strinc_prefix_string [OF assms, of dir s] pack_Cons [of "TString s" t] assms by simp

lemma prefix_range_subspace:
  assumes "tuple_ok t" "p = dir @ tuple_Pack L [TString s]"
  obtains e where "fdb_PrefixRange L (p @ tuple_Pack L t) = Inr (p @ tuple_Pack L t, e)"
    and "\<And>k. (p @ tuple_Pack L t \<le> k \<and> k < e) \<longleftrightarrow> prefix (p @ tuple_Pack L t) k"
proof -
  from strinc_subspace [OF assms(1), of s] assms(2) obtain e where
    e: "fdb_Strinc L (p @ tuple_Pack L t) = Inr e" by auto
  show ?thesis
    by (rule that [of e]) (simp_all add: prefix_range_eq e strinc_range [OF e])
qed

lemma hist_rev_inj:
  assumes "hist_sorted h" "e \<in> set h" "e' \<in> set h" "fst e = fst e'"
  shows "e = e'"
  using assms unfolding hist_sorted_def
proof (induction h)
  case Nil
  then show ?case by simp
next
  case (Cons a h)
  then show ?case by auto
qed

lemma map_of_concat_rev_kvs:
  assumes "hist_wf h"
  shows "map_of (concat (map (rev_kvs L p) h)) k = Some x \<longleftrightarrow>
    (\<exists>e\<in>set h. (k, x) \<in> set (rev_kvs L p e))"
proof -
  have "distinct (map fst (concat (map (rev_kvs L p) h)))"
    using history_kvs_sorted assms by (intro sorted_keys_distinct) (auto simp: hist_wf_def hist_sorted_def)
  then show ?thesis by (subst map_of_eq_Some_iff) auto
qed

lemma rev_kvs_prefix_iff:
  assumes "entry_wf e" "elem_ok (TVersionstamp v)" "(k, x) \<in> set (rev_kvs L p e)"
  shows "prefix (p @ tuple_Pack L [TVersionstamp v]) k \<longleftrightarrow> fst e = v"
proof -
  from rev_kvs_keys [OF assms(1,3)] obtain s where
    s: "tuple_ok s" "k = p @ tuple_Pack L (TVersionstamp (fst e) # s)" by auto
  have "tuple_ok (TVersionstamp (fst e) # s)"
    using s assms(1) by (auto simp: entry_wf_def)
  then show ?thesis
    unfolding s(2) same_prefix_prefix by (subst pack_elem_prefix_iff) (use assms(2) in auto)
qed

text \<open>The pairs under a revision are those of its entry, or none.\<close>

lemma rev_range_list:
  assumes "hist_wf h" "elem_ok (TVersionstamp v)" "finite (dom m)"
    and "agree_on p m (concat (map (rev_kvs L p) h))"
  shows "range_list m (prefix (p @ tuple_Pack L [TVersionstamp v]))
    = concat (map (rev_kvs L p) (filter (\<lambda>e. fst e = v) h))"
proof (rule sorted_keys_range_list)
  show "sorted_wrt (<) (map fst (concat (map (rev_kvs L p) (filter (\<lambda>e. fst e = v) h))))"
    using assms(1) by (intro history_kvs_sorted) (auto simp: hist_wf_def hist_sorted_def sorted_wrt_filter)
  show "finite (dom m)" by fact
next
  fix k x
  have wf: "entry_wf e" if "e \<in> set h" for e using assms(1) that by (simp add: hist_wf_def)
  have m: "m k = map_of (concat (map (rev_kvs L p) h)) k" if "prefix (p @ tuple_Pack L [TVersionstamp v]) k"
    using assms(4) that by (meson agree_on_def append_prefixD)
  have "(k, x) \<in> set (concat (map (rev_kvs L p) (filter (\<lambda>e. fst e = v) h))) \<longleftrightarrow>
      (\<exists>e\<in>set h. (k, x) \<in> set (rev_kvs L p e) \<and> fst e = v)"
    by auto
  also have "\<dots> \<longleftrightarrow> (\<exists>e\<in>set h. (k, x) \<in> set (rev_kvs L p e)) \<and>
      prefix (p @ tuple_Pack L [TVersionstamp v]) k"
    using rev_kvs_prefix_iff [OF wf assms(2), where k = k and x = x and p = p] by blast
  also have "\<dots> \<longleftrightarrow> m k = Some x \<and> prefix (p @ tuple_Pack L [TVersionstamp v]) k"
    using m map_of_concat_rev_kvs [OF assms(1), of p k x] by auto
  finally show "(k, x) \<in> set (concat (map (rev_kvs L p) (filter (\<lambda>e. fst e = v) h))) \<longleftrightarrow>
      m k = Some x \<and> prefix (p @ tuple_Pack L [TVersionstamp v]) k" .
qed

lemma filter_rev_eq:
  assumes "hist_sorted h" "(v, r) \<in> set h"
  shows "filter (\<lambda>e. fst e = v) h = [(v, r)]"
  using assms unfolding hist_sorted_def
proof (induction h)
  case Nil
  then show ?case by simp
next
  case (Cons a h)
  have tl: "filter (\<lambda>e. fst e = fst a) h = []"
    using Cons.prems(1) by (auto simp: filter_empty_conv)
  show ?case
  proof (cases "a = (v, r)")
    case True
    with tl show ?thesis by simp
  next
    case False
    with Cons.prems have "(v, r) \<in> set h" "fst a \<noteq> v" by auto
    with Cons show ?thesis by simp
  qed
qed

lemma ByRevision_GetIterator_eq:
  assumes "hist_wf h" "elem_ok (TVersionstamp v)" "tr_alive L t" "tr_pending L t = []"
    and "agree_on (f_byRevision f) (tr_view L t) (concat (map (rev_kvs L (f_byRevision f)) h))"
  shows "ByRevision_GetIterator f t v
    = Ok (map Inr (concat (map (rev_kvs L (f_byRevision f)) (filter (\<lambda>e. fst e = v) h))))"
proof -
  obtain e where
    e: "fdb_PrefixRange L (f_byRevision f @ tuple_Pack L [TVersionstamp v])
        = Inr (f_byRevision f @ tuple_Pack L [TVersionstamp v], e)"
      "\<And>k. (f_byRevision f @ tuple_Pack L [TVersionstamp v] \<le> k \<and> k < e)
        \<longleftrightarrow> prefix (f_byRevision f @ tuple_Pack L [TVersionstamp v]) k"
    by (rule prefix_range_subspace [of "[TVersionstamp v]" "f_byRevision f" "str ''byRevision''"])
      (use assms(2) in auto)
  show ?thesis
    using rev_range_list [OF assms(1,2) finite_view assms(5)]
    by (simp add: ByRevision_GetIterator_def spack_eq e range_alive [OF assms(4,3)] limited_def
        sel_range_def del: driver_simps(3))
qed

lemma ByRevision_Get_Some:
  assumes "hist_wf h" "tr_alive L t" "tr_pending L t = []" "(v, r) \<in> set h"
    and "agree_on (f_byRevision f) (tr_view L t) (concat (map (rev_kvs L (f_byRevision f)) h))"
  shows "ByRevision_Get f t v = Ok (Some (by_revision_record r))"
proof -
  have wf: "entry_wf (v, r)" using assms(1,4) by (auto simp: hist_wf_def)
  then have "elem_ok (TVersionstamp v)" by (simp add: entry_wf_def)
  with assms filter_rev_eq [of h v r] have
    "ByRevision_GetIterator f t v = Ok (map Inr (rev_kvs L (f_byRevision f) (v, r)))"
    by (subst ByRevision_GetIterator_eq) (auto simp: hist_wf_def)
  then show ?thesis
    using ByRevision_GetFromIterator_rev_kvs [OF wf, of "[]"]
    by (simp add: ByRevision_Get_def)
qed

lemma ByRevision_Get_None:
  assumes "hist_wf h" "tr_alive L t" "tr_pending L t = []" "elem_ok (TVersionstamp v)"
    and "\<forall>e\<in>set h. fst e \<noteq> v"
    and "agree_on (f_byRevision f) (tr_view L t) (concat (map (rev_kvs L (f_byRevision f)) h))"
  shows "ByRevision_Get f t v = Ok None"
proof -
  have "filter (\<lambda>e. fst e = v) h = []" using assms(5) by (simp add: filter_empty_conv)
  with assms have "ByRevision_GetIterator f t v = Ok []"
    by (subst ByRevision_GetIterator_eq) auto
  then show ?thesis
    by (simp add: ByRevision_Get_def ByRevision_GetFromIterator_def it_Advance_def)
qed

lemma index_kv_keys_less:
  assumes "entry_wf e" "entry_wf e'" "r_Key (snd e) = r_Key (snd e')" "vs_key (fst e) < vs_key (fst e')"
  shows "fst (index_kv L p e) < fst (index_kv L p e')"
  using assms pack_snoc_less [of "[TString (r_Key (snd e))]" "TVersionstamp (fst e)" "TVersionstamp (fst e')" p]
  by (simp add: index_kv_def entry_wf_def)

lemma index_kv_key_eq_iff:
  assumes "entry_wf e" "entry_wf e'"
  shows "fst (index_kv L p e) = fst (index_kv L p e') \<longleftrightarrow> r_Key (snd e) = r_Key (snd e') \<and> fst e = fst e'"
  using assms pack_inj [of "[TString (r_Key (snd e)), TVersionstamp (fst e)]"
      "[TString (r_Key (snd e')), TVersionstamp (fst e')]"]
  by (auto simp: index_kv_def entry_wf_def)

lemma hist_distinct: "hist_sorted h \<Longrightarrow> distinct h"
  unfolding hist_sorted_def by (induction h) auto

lemma map_of_index_kvs:
  assumes "hist_wf h"
  shows "map_of (map (index_kv L p) h) k = Some x \<longleftrightarrow> (\<exists>e\<in>set h. index_kv L p e = (k, x))"
proof -
  have "inj_on (fst \<circ> index_kv L p) (set h)"
  proof (rule inj_onI)
    fix e e' assume ee: "e \<in> set h" "e' \<in> set h" "(fst \<circ> index_kv L p) e = (fst \<circ> index_kv L p) e'"
    then have "fst e = fst e'"
      using assms index_kv_key_eq_iff [of e e' p] by (simp add: hist_wf_def)
    with ee assms show "e = e'" by (auto simp: hist_wf_def intro: hist_rev_inj)
  qed
  then have "distinct (map fst (map (index_kv L p) h))"
    using assms hist_distinct by (simp add: distinct_map hist_wf_def)
  then show ?thesis by (subst map_of_eq_Some_iff) (auto simp: image_iff Bex_def eq_commute)
qed

text \<open>Under a key the index holds the key's entries, oldest first.\<close>

lemma index_range_list:
  assumes "hist_wf h" "finite (dom m)" "agree_on p m (map (index_kv L p) h)"
  shows "range_list m (\<lambda>k. (p @ tuple_Pack L [TString key]) @ [0] \<le> k \<and>
      k < (p @ tuple_Pack L [TString key]) @ [255])
    = map (index_kv L p) (filter (\<lambda>e. r_Key (snd e) = key) h)"
proof (rule sorted_keys_range_list)
  have "sorted_wrt (\<lambda>e e'. fst (index_kv L p e) < fst (index_kv L p e'))
      (filter (\<lambda>e. r_Key (snd e) = key) h)"
    using assms(1) unfolding hist_wf_def hist_sorted_def
    by (intro sorted_wrt_mono_rel [OF _ sorted_wrt_filter [of "\<lambda>e e'. vs_key (fst e) < vs_key (fst e')"]])
      (auto intro!: index_kv_keys_less)
  then show "sorted_wrt (<) (map fst (map (index_kv L p) (filter (\<lambda>e. r_Key (snd e) = key) h)))"
    by (simp add: sorted_wrt_map comp_def)
  show "finite (dom m)" by fact
next
  fix k x
  let ?q = "p @ tuple_Pack L [TString key]"
  let ?in = "?q @ [0] \<le> k \<and> k < ?q @ [255]"
  have in_iff: "?in \<longleftrightarrow> r_Key (snd e) = key" if "e \<in> set h" "k = fst (index_kv L p e)" for e
  proof -
    have ok: "tuple_ok [TString (r_Key (snd e)), TVersionstamp (fst e)]"
      using assms(1) that(1) by (auto simp: hist_wf_def entry_wf_def)
    have k: "k = p @ tuple_Pack L [TString (r_Key (snd e)), TVersionstamp (fst e)]"
      using that(2) by (simp add: index_kv_def)
    from range_keys_elem_iff [OF _ ok, of "TString key" p] show ?thesis
      unfolding k by auto
  qed
  have m: "m k = map_of (map (index_kv L p) h) k" if ?in
    using that assms(3) range_keys_prefix [of ?q k] unfolding agree_on_def by (meson append_prefixD)
  have "(k, x) \<in> set (map (index_kv L p) (filter (\<lambda>e. r_Key (snd e) = key) h)) \<longleftrightarrow>
      (\<exists>e\<in>set h. index_kv L p e = (k, x) \<and> r_Key (snd e) = key)"
    by (auto intro: rev_image_eqI)
  also have "\<dots> \<longleftrightarrow> (\<exists>e\<in>set h. index_kv L p e = (k, x)) \<and> ?in"
    using in_iff by (metis fst_conv)
  also have "\<dots> \<longleftrightarrow> m k = Some x \<and> ?in"
    using m map_of_index_kvs [OF assms(1), of p k x] by auto
  finally show "(k, x) \<in> set (map (index_kv L p) (filter (\<lambda>e. r_Key (snd e) = key) h)) \<longleftrightarrow>
      m k = Some x \<and> ?in" .
qed

end

end
