(* ===== verification/FDB_Store.thy ===== *)
theory FDB_Store
  imports FDB_Layout
begin

text \<open>
  The effect of the subspace writes of a transaction, once it commits, on the layout of a history:
  the by-revision record and its chunks, the index entry, the current value. The invariant
  \<open>represents\<close> says that a database holds exactly a given history; the lemmas at the end show that
  appending an entry the way \<^verbatim>\<open>append\<close> does keeps it.
\<close>

section \<open>Chunks by position\<close>

lemma chunks_from_positions:
  "0 < c \<Longrightarrow> chunks_from c off xs
     = map (\<lambda>i. (off + i * c, take c (drop (i * c) xs))) [0..<(length xs + c - 1) div c]"
proof (rule nth_equalityI)
  assume c: "0 < c"
  have len: "length (chunks_from c off xs) = (length xs + c - 1) div c"
    using chunks_from_offsets [OF c, of off xs] by (metis length_map length_upt diff_zero)
  then show "length (chunks_from c off xs)
      = length (map (\<lambda>i. (off + i * c, take c (drop (i * c) xs))) [0..<(length xs + c - 1) div c])"
    by simp
  fix i assume i: "i < length (chunks_from c off xs)"
  have "chunks_from c off xs ! i = (off + i * c, take c (drop (i * c) xs))"
    using i c
  proof (induction i arbitrary: off xs)
    case 0
    then show ?case by (cases "xs = []") (simp_all add: chunks_from.simps [of c off xs])
  next
    case (Suc i)
    then have "xs \<noteq> []" by auto
    with Suc.prems have "chunks_from c off xs ! Suc i = chunks_from c (off + c) (drop c xs) ! i"
      "i < length (chunks_from c (off + c) (drop c xs))"
      by (simp_all add: chunks_from.simps [of c off xs])
    with Suc.IH [OF this(2) Suc.prems(2)] show ?case by (simp add: algebra_simps)
  qed
  with i len show "chunks_from c off xs ! i
      = map (\<lambda>i. (off + i * c, take c (drop (i * c) xs))) [0..<(length xs + c - 1) div c] ! i"
    by simp
qed

definition nchunks :: "bytes \<Rightarrow> nat" where
  "nchunks val = (length val + chunkSize - 1) div chunkSize"

lemma chunkSize_pos: "0 < chunkSize"
  by (simp add: chunkSize_def)

lemma numChunks_length: "numChunks (int (length val)) = int (nchunks val)"
proof -
  have "int (length val) + int chunkSize - 1 = int (length val + chunkSize - 1)"
    using chunkSize_pos by simp
  then show ?thesis
    by (simp only: numChunks_def nchunks_def go_div_def of_nat_less_0_iff if_False zdiv_int)
qed

lemma nchunks_bound: "i < nchunks val \<Longrightarrow> i * chunkSize < length val"
proof -
  assume "i < nchunks val"
  then have "(i + 1) * chunkSize \<le> length val + chunkSize - 1"
    unfolding nchunks_def using chunkSize_pos
    by (metis Suc_eq_plus1 Suc_leI less_eq_div_iff_mult_less_eq)
  then show ?thesis using chunkSize_pos by (simp add: add.commute)
qed

lemma nchunks_times_bound: "length val < 2 ^ 62 \<Longrightarrow> nchunks val * chunkSize < 2 ^ 63"
proof -
  assume "length val < 2 ^ 62"
  moreover have "nchunks val * chunkSize \<le> length val + chunkSize - 1"
    by (simp add: nchunks_def)
  ultimately show ?thesis by (simp add: chunkSize_def)
qed

section \<open>The representation invariant\<close>

text \<open>The newest entry of a key, and the entries that are newest and not deletions.\<close>

definition last_entry :: "entry list \<Rightarrow> bytes \<Rightarrow> entry option" where
  "last_entry h key =
     (let es = filter (\<lambda>e. r_Key (snd e) = key) h in if es = [] then None else Some (last es))"

definition live :: "entry list \<Rightarrow> entry \<Rightarrow> bool" where
  "live h e \<longleftrightarrow> last_entry h (r_Key (snd e)) = Some e \<and> \<not> r_IsDelete (snd e)"

definition current_agrees :: "('d, 't) fdb_lib \<Rightarrow> bytes \<Rightarrow> (bytes \<rightharpoonup> bytes) \<Rightarrow> entry list \<Rightarrow> bool" where
  "current_agrees L p m h \<longleftrightarrow>
     (\<forall>k x. prefix p k \<longrightarrow>
        (m k = Some x \<longleftrightarrow>
           (\<exists>e. live h e \<and> (k, x) \<in> set (current_kvs L p (r_Key (snd e), r_Value (snd e))))))"

text \<open>
  What the driver relies on of a stored entry: its revision and the revisions it refers to convert
  to \<^verbatim>\<open>int64\<close>, it is not both a creation and a deletion, its key has no zero byte, its value is of a
  size that occurs.
\<close>

definition is_revision :: "versionstamp \<Rightarrow> bool" where
  "is_revision v \<longleftrightarrow> revision_stamp (TransactionVersion v) \<and> UserVersion v = 0"

definition entry_ok :: "('d, 't) fdb_lib \<Rightarrow> entry \<Rightarrow> bool" where
  "entry_ok L e \<longleftrightarrow>
     is_revision (fst e) \<and>
     (is_revision (r_CreateRevision (snd e)) \<or> r_CreateRevision (snd e) = createDummyVersionstamp L) \<and>
     (is_revision (r_PrevRevision (snd e)) \<or> r_PrevRevision (snd e) = createDummyVersionstamp L) \<and>
     \<not> (r_IsCreate (snd e) \<and> r_IsDelete (snd e)) \<and>
     0 \<notin> set (r_Key (snd e)) \<and> length (r_Value (snd e)) < 2 ^ 62"

definition represents :: "('d, 't) FDB \<Rightarrow> (bytes \<rightharpoonup> bytes) \<Rightarrow> entry list \<Rightarrow> bool" where
  "represents f m h \<longleftrightarrow>
     hist_wf h \<and> (\<forall>e\<in>set h. entry_ok (f_lib f) e) \<and>
     agree_on (f_byRevision f) m (concat (map (rev_kvs (f_lib f) (f_byRevision f)) h)) \<and>
     agree_on (f_byKeyAndRevision f) m (map (index_kv (f_lib f) (f_byKeyAndRevision f)) h) \<and>
     current_agrees (f_lib f) (f_byKeyCurrent f) m h"

lemma last_entry_Some:
  assumes "last_entry h key = Some e"
  shows "e \<in> set h" "r_Key (snd e) = key"
proof -
  let ?es = "filter (\<lambda>e. r_Key (snd e) = key) h"
  from assms have ne: "?es \<noteq> []" and e: "e = last ?es"
    by (auto simp: last_entry_def Let_def split: if_splits)
  have "e \<in> set ?es" unfolding e by (rule last_in_set [OF ne])
  then show "e \<in> set h" "r_Key (snd e) = key" by simp_all
qed

lemma last_entry_snoc:
  "last_entry (h @ [e]) key = (if r_Key (snd e) = key then Some e else last_entry h key)"
  by (simp add: last_entry_def)

lemma last_entry_append_other:
  "(\<forall>e\<in>set h'. r_Key (snd e) \<noteq> key) \<Longrightarrow> last_entry (h @ h') key = last_entry h key"
  by (simp add: last_entry_def)

lemma last_entry_None: "last_entry h key = None \<longleftrightarrow> (\<forall>e\<in>set h. r_Key (snd e) \<noteq> key)"
  by (simp add: last_entry_def filter_empty_conv)

lemma live_snoc:
  "live (h @ [e]) x \<longleftrightarrow> (if r_Key (snd x) = r_Key (snd e) then x = e \<and> \<not> r_IsDelete (snd e) else live h x)"
  by (auto simp: live_def last_entry_snoc)

lemma option_eq_if: "(\<And>x. a = Some x \<longleftrightarrow> \<not> P \<and> b = Some x) \<Longrightarrow> a = (if P then None else b)"
  by (cases a; cases b) auto

lemma live_in: "live h e \<Longrightarrow> e \<in> set h"
  by (auto simp: live_def dest: last_entry_Some)

section \<open>The writes of a transaction\<close>

context fdb_driver
begin

lemma chunk_kvs_positions:
  "chunk_kvs L p t val = map (\<lambda>i. (p @ tuple_Pack L (t @ [TInt (int (i * chunkSize))]),
      take chunkSize (drop (i * chunkSize) val))) [0..<nchunks val]"
  by (simp add: chunk_kvs_def chunks_from_positions [OF chunkSize_pos] nchunks_def comp_def)

lemma stamped_setvs:
  assumes "subspace_PackWithVersionstamp L p t = Inr k" "length st = 10"
  shows "stamped L st (tr_SetVersionstampedKey L k v tr)
    = stamped L st tr @ [(p @ tuple_Pack L (map (elem_fill st) t), v)]"
  using packvs_complete [OF assms] by (simp add: stamped_def frame_simps)

lemma fill_incomplete:
  "elem_fill st (TVersionstamp (IncompleteVersionstamp L 0)) = TVersionstamp \<lparr>TransactionVersion = st, UserVersion = 0\<rparr>"
  by (simp add: incomplete_eq vs_incomplete_def)

lemma writeBlob_from_effect:
  assumes "\<not> UseSequentialId cfg" "length st = 10"
    and "ByRevision_writeBlob_from f (IncompleteVersionstamp L 0) val off t = Ok t'"
  shows "stamped L st t' = stamped L st t @ map (\<lambda>(o', b). (f_byRevision f @
      tuple_Pack L [TVersionstamp \<lparr>TransactionVersion = st, UserVersion = 0\<rparr>, TInt (int o')], b))
      (chunks_from chunkSize off (drop off val))
    \<and> tr_view L t' = tr_view L t \<and> tr_alive L t' = tr_alive L t"
  using assms(3)
proof (induction "length val - off" arbitrary: off t rule: less_induct)
  case less
  show ?case
  proof (cases "off < length val")
    case False
    with less.prems show ?thesis by (simp add: ByRevision_writeBlob_from.simps)
  next
    case True
    let ?tup = "[TVersionstamp (IncompleteVersionstamp L 0), TInt (int off)]"
    let ?b = "take chunkSize (drop off val)"
    have b: "take ((if off + chunkSize > length val then length val else off + chunkSize) - off) (drop off val) = ?b"
      by simp
    from less.prems True assms(1) obtain k where
      k: "subspace_PackWithVersionstamp L (f_byRevision f) ?tup = Inr k" and
      rest: "ByRevision_writeBlob_from f (IncompleteVersionstamp L 0) val (off + chunkSize)
        (tr_SetVersionstampedKey L k ?b t) = Ok t'"
      unfolding ByRevision_writeBlob_from.simps [of f _ val off t]
      by (cases "subspace_PackWithVersionstamp L (f_byRevision f) ?tup")
        (simp_all add: GetWriteOps_def b del: driver_simps(3))
    have IH: "stamped L st t' = stamped L st (tr_SetVersionstampedKey L k ?b t) @ map (\<lambda>(o', b). (f_byRevision f @
        tuple_Pack L [TVersionstamp \<lparr>TransactionVersion = st, UserVersion = 0\<rparr>, TInt (int o')], b))
        (chunks_from chunkSize (off + chunkSize) (drop (off + chunkSize) val))
      \<and> tr_view L t' = tr_view L t \<and> tr_alive L t' = tr_alive L t"
      using less.hyps [OF _ rest] True chunkSize_pos by (simp add: frame_simps del: driver_simps(3))
    have "chunks_from chunkSize off (drop off val)
        = (off, ?b) # chunks_from chunkSize (off + chunkSize) (drop (off + chunkSize) val)"
      using True chunkSize_pos by (subst chunks_from.simps) (simp add: add.commute)
    with IH show ?thesis
      by (simp add: stamped_setvs [OF k assms(2)] fill_incomplete del: driver_simps(3) elem_fill.simps(1))
  qed
qed

lemma ByRevision_Write_effect:
  assumes "\<not> UseSequentialId cfg" "length st = 10"
    and "ByRevision_Write f (IncompleteVersionstamp L 0) r t = Ok t'"
  shows "stamped L st t' = stamped L st t @
      (let kvs = rev_kvs L (f_byRevision f) (\<lparr>TransactionVersion = st, UserVersion = 0\<rparr>, r) in tl kvs @ [hd kvs])"
    and "tr_view L t' = tr_view L t" and "tr_alive L t' = tr_alive L t"
proof -
  let ?v = "\<lparr>TransactionVersion = st, UserVersion = 0\<rparr>"
  let ?tup = "[TVersionstamp (IncompleteVersionstamp L 0)]"
  from assms(1,3) obtain t1 k where
    t1: "ByRevision_writeBlob_from f (IncompleteVersionstamp L 0) (r_Value r) 0 t = Ok t1" and
    k: "subspace_PackWithVersionstamp L (f_byRevision f) ?tup = Inr k" and
    t': "t' = tr_SetVersionstampedKey L k (tuple_Pack L (ByRevision_recordToTuple r)) t1"
    by (auto simp: ByRevision_Write_def ByRevision_writeBlob_def GetWriteOps_def go_simps
        simp del: driver_simps(3))
  note eff = writeBlob_from_effect [OF assms(1,2) t1]
  from eff show "tr_view L t' = tr_view L t" "tr_alive L t' = tr_alive L t"
    by (simp_all add: t' frame_simps)
  show "stamped L st t' = stamped L st t @ (let kvs = rev_kvs L (f_byRevision f) (?v, r) in tl kvs @ [hd kvs])"
    using eff by (simp add: t' stamped_setvs [OF k assms(2)] fill_incomplete chunk_kvs_def rev_kvs_def
        Let_def del: driver_simps(3) elem_fill.simps(1))
qed

lemma ByKeyAndRevision_Write_effect:
  assumes "\<not> UseSequentialId cfg" "length st = 10"
    and "ByKeyAndRevision_Write f \<lparr>kr_Key = r_Key r, kr_Rev = IncompleteVersionstamp L 0\<rparr> r t = Ok t'"
  shows "stamped L st t' = stamped L st t @
      [index_kv L (f_byKeyAndRevision f) (\<lparr>TransactionVersion = st, UserVersion = 0\<rparr>, r)]"
    and "tr_view L t' = tr_view L t" and "tr_alive L t' = tr_alive L t"
proof -
  from assms(1,3) obtain k where
    k: "subspace_PackWithVersionstamp L (f_byKeyAndRevision f)
      [TString (r_Key r), TVersionstamp (IncompleteVersionstamp L 0)] = Inr k" and
    t': "t' = tr_SetVersionstampedKey L k (tuple_Pack L (ByKeyAndRevision_recordToTuple r)) t"
    by (auto simp: ByKeyAndRevision_Write_def GetWriteOps_def go_simps simp del: driver_simps(4))
  show "stamped L st t' = stamped L st t @
      [index_kv L (f_byKeyAndRevision f) (\<lparr>TransactionVersion = st, UserVersion = 0\<rparr>, r)]"
    by (simp add: t' stamped_setvs [OF k assms(2)] fill_incomplete index_kv_def
        del: driver_simps(4) elem_fill.simps(1))
  show "tr_view L t' = tr_view L t" "tr_alive L t' = tr_alive L t"
    by (simp_all add: t' frame_simps)
qed

subsection \<open>The current value\<close>

lemma setChunks_from_effect:
  "tr_view L (ByKeyCurrent_setChunks_from f key val off t) = upd_all (map (\<lambda>(o', b).
      (f_byKeyCurrent f @ tuple_Pack L [TString key, TInt (int o')], b))
      (chunks_from chunkSize off (drop off val))) (tr_view L t)
   \<and> tr_pending L (ByKeyCurrent_setChunks_from f key val off t) = tr_pending L t
   \<and> tr_alive L (ByKeyCurrent_setChunks_from f key val off t) = tr_alive L t"
proof (induction "length val - off" arbitrary: off t rule: less_induct)
  case less
  show ?case
  proof (cases "off < length val")
    case False
    then show ?thesis by (simp add: ByKeyCurrent_setChunks_from.simps)
  next
    case True
    let ?b = "take chunkSize (drop off val)"
    let ?t = "tr_Set L (f_byKeyCurrent f @ tuple_Pack L [TString key, TInt (int off)]) ?b t"
    have b: "take (min (off + chunkSize) (length val) - off) (drop off val) = ?b"
      by (simp add: min_def)
    have step: "ByKeyCurrent_setChunks_from f key val off t
        = ByKeyCurrent_setChunks_from f key val (off + chunkSize) ?t"
      using True by (subst ByKeyCurrent_setChunks_from.simps) (simp add: spack_eq b del: driver_simps(5))
    have "chunks_from chunkSize off (drop off val)
        = (off, ?b) # chunks_from chunkSize (off + chunkSize) (drop (off + chunkSize) val)"
      using True chunkSize_pos by (subst chunks_from.simps) (simp add: add.commute)
    with less.hyps [of "off + chunkSize" ?t] True chunkSize_pos show ?thesis
      by (simp add: step set_view set_frame del: driver_simps(5))
  qed
qed

lemma setChunks_effect:
  "tr_view L (ByKeyCurrent_setChunks_from f key val 0 t)
     = upd_all (chunk_kvs L (f_byKeyCurrent f) [TString key] val) (tr_view L t)"
  "tr_pending L (ByKeyCurrent_setChunks_from f key val 0 t) = tr_pending L t"
  "tr_alive L (ByKeyCurrent_setChunks_from f key val 0 t) = tr_alive L t"
  using setChunks_from_effect [of key val 0 t] by (simp_all add: chunk_kvs_def del: driver_simps(5))

lemma ByKeyCurrent_Clear_effect:
  "\<exists>t'. ByKeyCurrent_Clear f key t = Ok t' \<and>
     tr_view L t' = (\<lambda>k. if prefix (f_byKeyCurrent f @ tuple_Pack L [TString key]) k then None else tr_view L t k) \<and>
     tr_pending L t' = tr_pending L t \<and> tr_alive L t' = tr_alive L t"
proof -
  obtain e where
    e: "fdb_PrefixRange L (f_byKeyCurrent f @ tuple_Pack L [TString key])
        = Inr (f_byKeyCurrent f @ tuple_Pack L [TString key], e)"
      "\<And>k. (f_byKeyCurrent f @ tuple_Pack L [TString key] \<le> k \<and> k < e)
        \<longleftrightarrow> prefix (f_byKeyCurrent f @ tuple_Pack L [TString key]) k"
    by (rule prefix_range_subspace [of "[TString key]" "f_byKeyCurrent f" "str ''byKeyCurrent''"]) auto
  then show ?thesis
    by (simp add: ByKeyCurrent_Clear_def spack_eq clear_range_view clear_range_frame del: driver_simps(5))
qed

lemma elem_ok_int_nat: "n < 2 ^ 63 \<Longrightarrow> elem_ok (TInt (int n))"
proof -
  assume "n < 2 ^ 63"
  then have "int n < 2 ^ 63" by (metis of_nat_less_iff of_nat_numeral of_nat_power)
  then show ?thesis by simp
qed

lemma chunk_position_ok:
  "i < nchunks val \<Longrightarrow> length val < 2 ^ 62 \<Longrightarrow> elem_ok (TInt (int (i * chunkSize)))"
  by (rule elem_ok_int_nat) (use nchunks_bound [of i val] in simp)

lemma chunk_key_prefix:
  assumes "elem_ok a"
  shows "prefix (p @ tuple_Pack L [TString key]) (p @ tuple_Pack L [TString key, a])"
  using pack_Cons [of "TString key" "[a]"] assms by simp

lemma chunk_kvs_distinct: "length val < 2 ^ 62 \<Longrightarrow> distinct (map fst (chunk_kvs L p [TString key] val))"
  by (intro sorted_keys_distinct chunk_kvs_sorted) simp_all

lemma chunk_keys: "k \<in> fst ` set (chunk_kvs L p [TString key] val) \<longleftrightarrow>
    (\<exists>i<nchunks val. k = p @ tuple_Pack L [TString key, TInt (int (i * chunkSize))])"
  by (auto simp: chunk_kvs_positions image_iff)

text \<open>
  Overwriting in place: what the tail clear removes is exactly the old chunks that the new ones
  do not overwrite.
\<close>

lemma overwrite_chunks:
  fixes p key old val
  defines "q \<equiv> p @ tuple_Pack L [TString key]"
  assumes old: "\<And>k. prefix q k \<Longrightarrow> m k = map_of (chunk_kvs L p [TString key] old) k"
    and len: "length old < 2 ^ 62" "length val < 2 ^ 62"
    and m1: "\<And>k. m1 k = (if nchunks val < nchunks old \<and> prefix q k \<and>
        p @ tuple_Pack L [TString key, TInt (int (nchunks val * chunkSize))] \<le> k then None else m k)"
  shows "upd_all (chunk_kvs L p [TString key] val) m1
    = (\<lambda>k. if prefix q k then map_of (chunk_kvs L p [TString key] val) k else m k)"
proof (rule ext)
  fix k
  let ?new = "chunk_kvs L p [TString key] val"
  have upd: "upd_all ?new m1 k = (m1 ++ map_of ?new) k"
    using upd_all_map_of [OF chunk_kvs_distinct [OF len(2)]] by simp
  consider (new) "k \<in> fst ` set ?new" | (other) "k \<notin> fst ` set ?new" "\<not> prefix q k"
    | (stale) "k \<notin> fst ` set ?new" "prefix q k"
    by blast
  then show "upd_all ?new m1 k = (if prefix q k then map_of ?new k else m k)"
  proof cases
    case new
    then obtain x where "map_of ?new k = Some x" by (metis map_of_eq_None_iff option.exhaust)
    moreover have "prefix q k"
      using new chunk_key_prefix chunk_position_ok len(2) unfolding q_def chunk_keys by blast
    ultimately show ?thesis by (simp add: upd)
  next
    case other
    then show ?thesis by (simp add: upd m1 map_add_def map_of_eq_None_iff [THEN iffD2])
  next
    case stale
    have "m1 k = None"
    proof (cases "m k")
      case None
      then show ?thesis by (simp add: m1)
    next
      case (Some x)
      then have "k \<in> fst ` set (chunk_kvs L p [TString key] old)"
        using old [OF stale(2)] by (metis map_of_SomeD fst_conv image_eqI)
      then obtain i where i: "i < nchunks old" "k = p @ tuple_Pack L [TString key, TInt (int (i * chunkSize))]"
        unfolding chunk_keys by blast
      with stale(1) have ge: "nchunks val \<le> i" unfolding chunk_keys by (metis linorder_not_less)
      have "p @ tuple_Pack L [TString key, TInt (int (nchunks val * chunkSize))] \<le> k"
      proof (cases "nchunks val = i")
        case False
        have "elem_ok (TInt (int (nchunks val * chunkSize)))" "elem_ok (TInt (int (i * chunkSize)))"
          by (rule elem_ok_int_nat, rule nchunks_times_bound [OF len(2)]) (rule chunk_position_ok [OF i(1) len(1)])
        with False ge i(2) chunkSize_pos show ?thesis
          using pack_snoc_less [of "[TString key]" "TInt (int (nchunks val * chunkSize))"
              "TInt (int (i * chunkSize))" p] by simp
      qed (simp add: i(2))
      with stale ge i(1) show ?thesis by (simp add: m1)
    qed
    with stale show ?thesis by (simp add: upd map_add_def map_of_eq_None_iff [THEN iffD2])
  qed
qed

lemma ByKeyCurrent_Replace_effect:
  assumes old: "\<And>k. prefix (f_byKeyCurrent f @ tuple_Pack L [TString key]) k \<Longrightarrow>
      tr_view L t k = map_of (chunk_kvs L (f_byKeyCurrent f) [TString key] old) k"
    and len: "length old < 2 ^ 62" "length val < 2 ^ 62"
  shows "\<exists>t'. ByKeyCurrent_Replace f key val (int (length old)) t = Ok t' \<and>
     tr_view L t' = (\<lambda>k. if prefix (f_byKeyCurrent f @ tuple_Pack L [TString key]) k
        then map_of (chunk_kvs L (f_byKeyCurrent f) [TString key] val) k else tr_view L t k) \<and>
     tr_pending L t' = tr_pending L t \<and> tr_alive L t' = tr_alive L t"
proof (cases "nchunks val < nchunks old")
  case False
  then have "ByKeyCurrent_Replace f key val (int (length old)) t = Ok (ByKeyCurrent_setChunks_from f key val 0 t)"
    by (simp add: ByKeyCurrent_Replace_def numChunks_length del: driver_simps(5))
  with False overwrite_chunks [OF old len] show ?thesis by (simp add: setChunks_effect del: driver_simps(5))
next
  case True
  let ?q = "f_byKeyCurrent f @ tuple_Pack L [TString key]"
  let ?b = "f_byKeyCurrent f @ tuple_Pack L [TString key, TInt (int (nchunks val * chunkSize))]"
  obtain e where e: "fdb_Strinc L ?q = Inr e"
    using strinc_subspace [of "[TString key]" "str ''byKeyCurrent''"] by auto
  let ?t = "tr_ClearRange L ?b e t"
  have rep: "ByKeyCurrent_Replace f key val (int (length old)) t = Ok (ByKeyCurrent_setChunks_from f key val 0 ?t)"
    using True e by (simp add: ByKeyCurrent_Replace_def numChunks_length spack_eq del: driver_simps(5))
  have "?q \<le> ?b"
    using chunk_key_prefix [OF elem_ok_int_nat [OF nchunks_times_bound [OF len(2)]]] by (rule prefix_imp_le)
  then have "(?b \<le> k \<and> k < e) \<longleftrightarrow> prefix ?q k \<and> ?b \<le> k" for k
    using strinc_range [OF e, of k] by (meson order_trans)
  then have "tr_view L ?t k = (if nchunks val < nchunks old \<and> prefix ?q k \<and> ?b \<le> k then None else tr_view L t k)" for k
    using True by (simp add: clear_range_view del: driver_simps(5))
  note over = overwrite_chunks [OF old len this]
  then show ?thesis unfolding rep by (simp add: setChunks_effect clear_range_frame over del: driver_simps(5))
qed

subsection \<open>Appending an entry\<close>

lemma agree_on_append:
  assumes "agree_on p m kvs" "\<And>k. prefix p k \<Longrightarrow> m' k = upd_all new m k"
    and "distinct (map fst new)" "fst ` set kvs \<inter> fst ` set new = {}"
  shows "agree_on p m' (kvs @ new)"
  unfolding agree_on_def
proof (intro allI impI)
  fix k assume k: "prefix p k"
  have "m' k = (m ++ map_of new) k" using assms(2) [OF k] upd_all_map_of [OF assms(3)] by simp
  also have "\<dots> = (map_of kvs ++ map_of new) k"
    using assms(1) [unfolded agree_on_def, rule_format, OF k] by (simp add: map_add_def split: option.split)
  also have "\<dots> = map_of (kvs @ new) k"
    using map_add_comm [of "map_of kvs" "map_of new"] assms(4) by (simp add: dom_map_of_conv_image_fst)
  finally show "m' k = map_of (kvs @ new) k" .
qed

lemma subspace_keys:
  shows "entry_wf e \<Longrightarrow> kv \<in> set (rev_kvs L p e) \<Longrightarrow> prefix p (fst kv)"
    and "prefix p (fst (index_kv L p e))"
  by (auto dest: rev_kvs_keys simp: index_kv_def)

lemma upd_all_rotate:
  assumes "distinct (map fst (x # xs))"
  shows "upd_all (xs @ [x]) m = upd_all (x # xs) m"
proof -
  have d: "distinct (map fst (xs @ [x]))" using assms by auto
  have "set (xs @ [x]) = set (x # xs)" by auto
  then have "map_of (xs @ [x]) = map_of (x # xs)" using assms d map_of_inject_set by blast
  then show ?thesis unfolding upd_all_map_of [OF d] upd_all_map_of [OF assms] by (rule arg_cong)
qed

lemma hist_wf_snoc:
  "hist_wf (h @ [e]) \<longleftrightarrow> hist_wf h \<and> entry_wf e \<and> (\<forall>e'\<in>set h. vs_key (fst e') < vs_key (fst e))"
  by (auto simp: hist_wf_def hist_sorted_def sorted_wrt_append)

lemma agree_rev_append:
  assumes "hist_wf (h @ [e])" "agree_on p m (concat (map (rev_kvs L p) h))"
    and "\<And>k. prefix p k \<Longrightarrow> m' k = upd_all (rev_kvs L p e) m k"
  shows "agree_on p m' (concat (map (rev_kvs L p) (h @ [e])))"
proof -
  have wf: "hist_wf h" "entry_wf e" "\<And>e'. e' \<in> set h \<Longrightarrow> vs_key (fst e') < vs_key (fst e)"
    "\<And>e'. e' \<in> set h \<Longrightarrow> entry_wf e'"
    using assms(1) [unfolded hist_wf_snoc] by (auto simp: hist_wf_def)
  have "fst ` set (concat (map (rev_kvs L p) h)) \<inter> fst ` set (rev_kvs L p e) = {}"
  proof -
    have "fst kv \<noteq> fst kv'" if "e' \<in> set h" "kv \<in> set (rev_kvs L p e')" "kv' \<in> set (rev_kvs L p e)" for e' kv kv'
      using rev_kvs_less [OF wf(4) [OF that(1)] wf(2) wf(3) [OF that(1)] that(2,3)] by simp
    then show ?thesis by (intro equals0I) (elim IntE imageE, simp del: split_paired_Ex, metis)
  qed
  from agree_on_append [OF assms(2,3) sorted_keys_distinct [OF rev_kvs_sorted [OF wf(2)]] this]
  show ?thesis by simp
qed

lemma agree_index_append:
  assumes "hist_wf (h @ [e])" "agree_on p m (map (index_kv L p) h)"
    and "\<And>k. prefix p k \<Longrightarrow> m' k = upd_all [index_kv L p e] m k"
  shows "agree_on p m' (map (index_kv L p) (h @ [e]))"
proof -
  have wf: "entry_wf e" "\<And>e'. e' \<in> set h \<Longrightarrow> entry_wf e'" "\<And>e'. e' \<in> set h \<Longrightarrow> fst e' \<noteq> fst e"
    using assms(1) [unfolded hist_wf_snoc] by (auto simp: hist_wf_def)
  have "fst ` set (map (index_kv L p) h) \<inter> fst ` set [index_kv L p e] = {}"
  proof -
    have "fst (index_kv L p e') \<noteq> fst (index_kv L p e)" if "e' \<in> set h" for e'
      using index_kv_key_eq_iff [OF wf(2) [OF that] wf(1)] wf(3) [OF that] by simp
    then have "fst (index_kv L p e) \<notin> (fst \<circ> index_kv L p) ` set h"
      by (intro notI) (elim imageE, simp only: comp_apply, blast)
    then show ?thesis by (simp add: image_comp)
  qed
  from agree_on_append [OF assms(2,3) _ this] show ?thesis by simp
qed

lemma current_key_prefix:
  assumes "(k, x) \<in> set (current_kvs L p (key, val))" "length val < 2 ^ 62" "0 \<notin> set key"
  shows "prefix (p @ tuple_Pack L [TString key']) k \<longleftrightarrow> key' = key"
proof -
  from chunk_kvs_prefix [of "[TString key]" val "(k, x)" p] assms(1,2) obtain a where
    "elem_ok a" "k = p @ tuple_Pack L [TString key, a]" by (auto simp: current_kvs_def)
  with pack_string_prefix_eq [of "[a]" key key'] assms(3) show ?thesis by simp
qed

lemma current_agrees_append:
  fixes p e
  defines "q \<equiv> p @ tuple_Pack L [TString (r_Key (snd e))]"
  assumes old: "current_agrees L p m h"
    and small: "\<And>e. e \<in> set h \<Longrightarrow> 0 \<notin> set (r_Key (snd e)) \<and> length (r_Value (snd e)) < 2 ^ 62"
      "0 \<notin> set (r_Key (snd e))" "length (r_Value (snd e)) < 2 ^ 62"
    and m': "\<And>k. prefix p k \<Longrightarrow> m' k = (if prefix q k
        then if r_IsDelete (snd e) then None else map_of (current_kvs L p (r_Key (snd e), r_Value (snd e))) k
        else m k)"
  shows "current_agrees L p m' (h @ [e])"
  unfolding current_agrees_def
proof (intro allI impI)
  fix k x assume k: "prefix p k"
  let ?cur = "\<lambda>e. current_kvs L p (r_Key (snd e), r_Value (snd e))"
  have other: "prefix q k \<longleftrightarrow> r_Key (snd e') = r_Key (snd e)" if "(k, x) \<in> set (?cur e')" "e' \<in> set h" for e'
    using current_key_prefix [OF that(1), of "r_Key (snd e)"] small(1) [OF that(2)] by (auto simp: q_def)
  have self: "prefix q k" if "(k, x) \<in> set (?cur e)"
    using current_key_prefix [OF that small(3,2)] by (simp add: q_def)
  have new: "map_of (?cur e) k = Some x \<longleftrightarrow> (k, x) \<in> set (?cur e)"
    using chunk_kvs_distinct [OF small(3)] by (simp add: current_kvs_def)
  show "m' k = Some x \<longleftrightarrow> (\<exists>e'. live (h @ [e]) e' \<and> (k, x) \<in> set (?cur e'))"
  proof (cases "prefix q k")
    case True
    have "(\<exists>e'. live (h @ [e]) e' \<and> (k, x) \<in> set (?cur e')) \<longleftrightarrow> \<not> r_IsDelete (snd e) \<and> (k, x) \<in> set (?cur e)"
      using other True live_in unfolding live_snoc by metis
    with True new show ?thesis by (simp add: m' [OF k])
  next
    case False
    have "(\<exists>e'. live (h @ [e]) e' \<and> (k, x) \<in> set (?cur e')) \<longleftrightarrow> (\<exists>e'. live h e' \<and> (k, x) \<in> set (?cur e'))"
      using other False self live_in unfolding live_snoc by metis
    with False old k show ?thesis by (simp add: m' [OF k] current_agrees_def)
  qed
qed

text \<open>
  The map left by a transaction that wrote the by-revision record, the index entry and the current
  value of an entry, and touched nothing else of the three subspaces, represents the history with
  that entry at its end.
\<close>

lemma represents_append:
  assumes rep: "represents f m h" and wf: "hist_wf (h @ [e])"
    and ok: "entry_ok L e"
    and m1: "\<And>k. prefix (f_byRevision f) k \<Longrightarrow> m' k = upd_all (rev_kvs L (f_byRevision f) e) m k"
    and m2: "\<And>k. prefix (f_byKeyAndRevision f) k \<Longrightarrow> m' k = upd_all [index_kv L (f_byKeyAndRevision f) e] m k"
    and m3: "\<And>k. prefix (f_byKeyCurrent f) k \<Longrightarrow>
      m' k = (if prefix (f_byKeyCurrent f @ tuple_Pack L [TString (r_Key (snd e))]) k
        then if r_IsDelete (snd e) then None
          else map_of (current_kvs L (f_byKeyCurrent f) (r_Key (snd e), r_Value (snd e))) k
        else m k)"
  shows "represents f m' (h @ [e])"
proof -
  have all: "\<forall>e'\<in>set (h @ [e]). entry_ok L e'" using rep ok by (auto simp: represents_def)
  have small: "0 \<notin> set (r_Key (snd e))" "length (r_Value (snd e)) < 2 ^ 62"
    using ok by (simp_all add: entry_ok_def)
  have 1: "agree_on (f_byRevision f) m' (concat (map (rev_kvs L (f_byRevision f)) (h @ [e])))"
    using rep by (intro agree_rev_append [OF wf _ m1]) (auto simp: represents_def simp del: driver_simps(3-5))
  have 2: "agree_on (f_byKeyAndRevision f) m' (map (index_kv L (f_byKeyAndRevision f)) (h @ [e]))"
    using rep by (intro agree_index_append [OF wf _ m2]) (auto simp: represents_def simp del: driver_simps(3-5))
  have 3: "current_agrees L (f_byKeyCurrent f) m' (h @ [e])"
    using rep by (intro current_agrees_append [OF _ _ small m3])
      (auto simp: represents_def entry_ok_def simp del: driver_simps(3-5))
  show ?thesis
    unfolding represents_def using wf all 1 2 3 by (simp del: driver_simps(3-5) set_append map_append)
qed

text \<open>What a represented history says of the chunks under one key.\<close>

lemma represents_current:
  assumes "represents f m h" "prefix (f_byKeyCurrent f @ tuple_Pack L [TString key]) k"
  shows "m k = (case last_entry h key of
      None \<Rightarrow> None
    | Some e \<Rightarrow> if r_IsDelete (snd e) then None
        else map_of (current_kvs L (f_byKeyCurrent f) (key, r_Value (snd e))) k)"
proof -
  let ?p = "f_byKeyCurrent f"
  let ?cur = "\<lambda>e. current_kvs L ?p (r_Key (snd e), r_Value (snd e))"
  have small: "0 \<notin> set (r_Key (snd e))" "length (r_Value (snd e)) < 2 ^ 62" if "e \<in> set h" for e
    using assms(1) that by (auto simp: represents_def entry_ok_def)
  have p: "prefix ?p k" using assms(2) by (rule append_prefixD)
  have "m k = Some x \<longleftrightarrow> (\<exists>e. live h e \<and> (k, x) \<in> set (?cur e))" for x
    using assms(1) p by (simp add: represents_def current_agrees_def del: driver_simps(5))
  moreover have "(\<exists>e. live h e \<and> (k, x) \<in> set (?cur e)) \<longleftrightarrow>
      (\<exists>e. live h e \<and> r_Key (snd e) = key \<and> map_of (?cur e) k = Some x)" for x
  proof -
    have "(k, x) \<in> set (?cur e) \<longleftrightarrow> r_Key (snd e) = key \<and> map_of (?cur e) k = Some x" if "live h e" for e
      using current_key_prefix [of k x ?p "r_Key (snd e)" "r_Value (snd e)" key] small [OF live_in [OF that]]
        chunk_kvs_distinct [of "r_Value (snd e)" ?p "r_Key (snd e)"] assms(2)
      by (auto simp: current_kvs_def simp del: driver_simps(5))
    then show ?thesis by blast
  qed
  ultimately have m: "m k = Some x \<longleftrightarrow> (\<exists>e. live h e \<and> r_Key (snd e) = key \<and> map_of (?cur e) k = Some x)" for x
    by simp
  show ?thesis
  proof (cases "last_entry h key")
    case None
    then have "\<not> (live h e \<and> r_Key (snd e) = key)" for e by (auto simp: live_def)
    then have "m k \<noteq> Some x" for x using m by blast
    then have "m k = None" by (cases "m k") auto
    with None show ?thesis by simp
  next
    case (Some e)
    then have e: "r_Key (snd e) = key" by (rule last_entry_Some)
    have "live h e' \<and> r_Key (snd e') = key \<longleftrightarrow> e' = e \<and> \<not> r_IsDelete (snd e)" for e'
      using Some e by (auto simp: live_def)
    with m have "m k = Some x \<longleftrightarrow> \<not> r_IsDelete (snd e) \<and> map_of (?cur e) k = Some x" for x by metis
    from option_eq_if [OF this] Some e show ?thesis by simp
  qed
qed

end

end
