(* ===== verification/FDB_Write.thy ===== *)
theory FDB_Write
  imports FDB_Driver FDB_Store
begin

text \<open>
  The write path (\<^verbatim>\<open>src/pkg/drivers/fdb/fdb_write.go\<close>, with \<^verbatim>\<open>getLast\<close> of \<^verbatim>\<open>fdb_read.go\<close>):
  \<^verbatim>\<open>Create\<close>, \<^verbatim>\<open>Update\<close>, \<^verbatim>\<open>Delete\<close> and the \<^verbatim>\<open>append\<close> they share. Each operation is the closure it hands to
  \<^verbatim>\<open>transact\<close>, whose captured variable is \<^verbatim>\<open>lastWriteUUID\<close>, and the code around it.
\<close>

section \<open>Results\<close>

definition maxRecordSize :: nat where
  "maxRecordSize = 2 * 1024 * 1024"

text \<open>The revision and the record of a \<^verbatim>\<open>*RevRecord\<close>; its \<^verbatim>\<open>Record\<close> pointer can be nil.\<close>

type_synonym revRecordRef = "versionstamp \<times> Record option"

record writeResult =
  wr_keyFuture :: "FutureKey option"
  wr_revFuture :: "FutureInt64 option"
  wr_isKey :: bool
  wr_revRecord :: "revRecordRef option"
  wr_writeSuccess :: bool

definition newModificationResultKey :: "FutureKey \<Rightarrow> revRecordRef option \<Rightarrow> bool \<Rightarrow> writeResult" where
  "newModificationResultKey revFuture revRecord writeSuccess =
     \<lparr>wr_keyFuture = Some revFuture, wr_revFuture = None, wr_isKey = True,
      wr_revRecord = revRecord, wr_writeSuccess = writeSuccess\<rparr>"

definition newModificationResultRev :: "FutureInt64 \<Rightarrow> revRecordRef option \<Rightarrow> bool \<Rightarrow> writeResult" where
  "newModificationResultRev r revRecord writeSuccess =
     \<lparr>wr_keyFuture = None, wr_revFuture = Some r, wr_isKey = False,
      wr_revRecord = revRecord, wr_writeSuccess = writeSuccess\<rparr>"

text \<open>
  \<open>st\<close> is the versionstamp of the attempt that produced the result; a nil \<^verbatim>\<open>*writeResult\<close> is dereferenced.
\<close>

definition getResult ::
    "('d, 't) FDB \<Rightarrow> bytes \<Rightarrow> writeResult option \<Rightarrow> (int64 \<times> KeyValue option \<times> bool) res" where
  "getResult f st res =
     (case res of
        None \<Rightarrow> Panic (RuntimePanic ''nil pointer dereference'')
      | Some r \<Rightarrow>
          res_bind
            (if wr_isKey r then
               (case wr_keyFuture r of
                  None \<Rightarrow> Panic (RuntimePanic ''nil pointer dereference'')
                | Some k \<Rightarrow> versionstampBytesToInt64 (FutureKey_Get f st k))
             else
               (case wr_revFuture r of
                  None \<Rightarrow> Panic (RuntimePanic ''nil pointer dereference'')
                | Some rv \<Rightarrow> res_of_sum rv)) (\<lambda>revRes.
          res_bind
            (case wr_revRecord r of
               None \<Rightarrow> Ok None
             | Some (v, None) \<Rightarrow> Panic (RuntimePanic ''nil pointer dereference'')
             | Some (v, Some record) \<Rightarrow>
                 map_res (\<lambda>ev. Some (if wr_isKey r then (ev_KV ev)\<lparr>kv_ModRevision := revRes\<rparr> else ev_KV ev))
                   (revRecordToEvent f \<lparr>rr_Rev = v, rr_Record = record\<rparr>)) (\<lambda>kv.
          Ok (revRes, kv, wr_writeSuccess r))))"

section \<open>Appending a revision\<close>

definition FDB_append ::
    "('d, 't) FDB \<Rightarrow> bytes \<Rightarrow> Record \<Rightarrow> int64 \<Rightarrow> 't \<Rightarrow> (FutureKey \<times> 't) res" where
  "FDB_append f uuid record0 prevValueSize t =
     (let record = record0\<lparr>r_WriteUUID := uuid\<rparr> in
      res_bind (RevisionSubspace_IncrementAndGet f t) (\<lambda>(newRev, revFuture, t1).
      res_bind (ByRevision_Write f newRev record t1) (\<lambda>t2.
      res_bind (ByKeyAndRevision_Write f \<lparr>kr_Key = r_Key record, kr_Rev = newRev\<rparr> record t2) (\<lambda>t3.
      res_bind
        (if r_IsDelete record then ByKeyCurrent_Clear f (r_Key record) t3
         else ByKeyCurrent_Replace f (r_Key record) (r_Value record) prevValueSize t3) (\<lambda>t4.
      Ok (revFuture, Watch_Write f t4))))))"

definition getLast :: "('d, 't) FDB \<Rightarrow> 't \<Rightarrow> bytes \<Rightarrow> ByKeyAndRevisionRecord option res" where
  "getLast f t key =
     (let (b, e) = subspace_FDBRangeKeys (f_lib f) (subspace_Sub (f_lib f) (f_byKeyAndRevision f) [TString key]);
          it = tr_GetRange (f_lib f) False t (FirstGreaterOrEqual b) (FirstGreaterOrEqual e)
                 \<lparr>ro_Limit = 1, ro_Mode = StreamingModeExact, ro_Reverse = True\<rparr>
      in if \<not> it_Advance it then Ok None
         else map_res fst (ByKeyAndRevision_GetFromIterator f it))"

section \<open>Create, Update, Delete\<close>

text \<open>
  A closure returns its result with the transaction, and the captured \<^verbatim>\<open>lastWriteUUID\<close>.
\<close>

type_synonym 't closure_result = "(writeResult option \<times> 't) res \<times> bytes"

definition returns :: "'t \<Rightarrow> bytes \<Rightarrow> writeResult res \<Rightarrow> 't closure_result" where
  "returns t u r = (map_res (\<lambda>w. (Some w, t)) r, u)"

text \<open>\<^verbatim>\<open>newModificationResultRev(latestRevF, rr, false)\<close> with \<^verbatim>\<open>latestRevF\<close> from \<^verbatim>\<open>GetLatestRev\<close>.\<close>

definition latestRevResult :: "('d, 't) FDB \<Rightarrow> 't \<Rightarrow> revRecordRef option \<Rightarrow> writeResult res" where
  "latestRevResult f t rr =
     map_res (\<lambda>latestRevF. newModificationResultRev latestRevF rr False) (RevisionSubspace_GetLatestRev f t)"

text \<open>The end of each closure: append the record, remember the UUID, return the key future.\<close>

definition appendResult ::
    "('d, 't) FDB \<Rightarrow> 'd attempt \<Rightarrow> 't \<Rightarrow> bytes \<Rightarrow> Record \<Rightarrow> int64 \<Rightarrow> (Record \<Rightarrow> revRecordRef option) \<Rightarrow> 't closure_result" where
  "appendResult f a t u record prevValueSize rr =
     (case FDB_append f (at_uuid a) record prevValueSize t of
        Ok (keyFuture, t') \<Rightarrow>
          (Ok (Some (newModificationResultKey keyFuture (rr (record\<lparr>r_WriteUUID := at_uuid a\<rparr>)) True), t'), at_uuid a)
      | Err e \<Rightarrow> (Err e, u)
      | Panic p \<Rightarrow> (Panic p, u))"

definition Create_body ::
    "('d, 't) FDB \<Rightarrow> bytes \<Rightarrow> bytes \<Rightarrow> int64 \<Rightarrow> 'd attempt \<Rightarrow> 't \<Rightarrow> bytes \<Rightarrow> 't closure_result" where
  "Create_body f key val lease a t0 lastWriteUUID =
     (case setFirstInBatch f t0 of
        Err e \<Rightarrow> (Err e, lastWriteUUID)
      | Panic p \<Rightarrow> (Panic p, lastWriteUUID)
      | Ok t \<Rightarrow>
     (case getLast f t key of
        Err e \<Rightarrow> (Err e, lastWriteUUID)
      | Panic p \<Rightarrow> (Panic p, lastWriteUUID)
      | Ok lastRecord \<Rightarrow>
     let createRecord =
       \<lparr>r_Key = key, r_IsDelete = False, r_IsCreate = True, r_Lease = lease,
        r_CreateRevision = dummyVersionstamp f, r_PrevRevision = dummyVersionstamp f,
        r_ValueSize = int (length val), r_WriteUUID = zeroUUID, r_Value = val, r_LatestForKey = False\<rparr>
     in (case lastRecord of
           None \<Rightarrow> appendResult f a t lastWriteUUID createRecord 0 (\<lambda>_. None)
         | Some lr \<Rightarrow>
             if r_IsCreate (bk_Value lr) \<and> lastWriteUUID = r_WriteUUID (bk_Value lr)
             then returns t lastWriteUUID
                    (map_res (\<lambda>r. newModificationResultRev (Inr r) None True) (VersionstampToInt64 (kr_Rev (bk_Key lr))))
             else if \<not> r_IsDelete (bk_Value lr) then (Err ErrKeyExists, lastWriteUUID)
             else appendResult f a t lastWriteUUID
                    (createRecord\<lparr>r_PrevRevision := kr_Rev (bk_Key lr)\<rparr>) 0 (\<lambda>_. None))))"

text \<open>What each operation does with the result of its transaction.\<close>

definition finish ::
    "('d, 't) FDB \<Rightarrow> 'd driver \<Rightarrow> (writeResult option res \<times> bytes \<times> 'd \<times> bytes) option
     \<Rightarrow> ((int64 \<times> KeyValue option \<times> bool) res \<times> 'd driver) option" where
  "finish f s outcome =
     (case outcome of
        None \<Rightarrow> None
      | Some (Err e, _, d, _) \<Rightarrow> Some (Err e, s\<lparr>d_db := d\<rparr>)
      | Some (Panic p, _, d, _) \<Rightarrow> Some (Panic p, s\<lparr>d_db := d\<rparr>)
      | Some (Ok res, st, d, _) \<Rightarrow> Some (getResult f st res, kickPoll (s\<lparr>d_db := d\<rparr>)))"

definition Create ::
    "('d, 't) FDB \<Rightarrow> bytes \<Rightarrow> bytes \<Rightarrow> int64 \<Rightarrow> bytes \<Rightarrow> 'd attempt list \<Rightarrow> 'd driver \<Rightarrow> (int64 res \<times> 'd driver) option" where
  "Create f key val lease uuid script s =
     (if length val > maxRecordSize then Some (Err ErrRequestTooLarge, s)
      else map_option (map_prod (map_res fst) id)
             (finish f s (transact f None (Create_body f key val lease) script (d_db s) uuid)))"

definition Update_body ::
    "('d, 't) FDB \<Rightarrow> bytes \<Rightarrow> bytes \<Rightarrow> int64 \<Rightarrow> int64 \<Rightarrow> 'd attempt \<Rightarrow> 't \<Rightarrow> bytes \<Rightarrow> 't closure_result" where
  "Update_body f key val revision lease a t0 lastWriteUUID =
     (case setFirstInBatch f t0 of
        Err e \<Rightarrow> (Err e, lastWriteUUID)
      | Panic p \<Rightarrow> (Panic p, lastWriteUUID)
      | Ok t \<Rightarrow>
     (case getLast f t key of
        Err e \<Rightarrow> (Err e, lastWriteUUID)
      | Panic p \<Rightarrow> (Panic p, lastWriteUUID)
      | Ok None \<Rightarrow> returns t lastWriteUUID (latestRevResult f t None)
      | Ok (Some lr) \<Rightarrow>
          if r_IsDelete (bk_Value lr) then returns t lastWriteUUID (latestRevResult f t None)
          else
            (case VersionstampToInt64 (kr_Rev (bk_Key lr)) of
               Err e \<Rightarrow> (Err e, lastWriteUUID)
             | Panic p \<Rightarrow> (Panic p, lastWriteUUID)
             | Ok lastRev \<Rightarrow>
                 if lastRev \<noteq> revision then
                   returns t lastWriteUUID
                     (res_bind (ByRevision_Get f t (kr_Rev (bk_Key lr))) (\<lambda>record.
                        if lastWriteUUID = r_WriteUUID (bk_Value lr)
                        then Ok (newModificationResultRev (Inr lastRev)
                               (Some (kr_Rev (bk_Key lr), record)) True)
                        else latestRevResult f t (Some (kr_Rev (bk_Key lr), record))))
                 else
                   appendResult f a t lastWriteUUID
                     \<lparr>r_Key = key, r_IsDelete = False, r_IsCreate = False, r_Lease = lease,
                      r_CreateRevision = ByKeyAndRevisionRecord_GetCreateRevision lr,
                      r_PrevRevision = kr_Rev (bk_Key lr), r_ValueSize = int (length val),
                      r_WriteUUID = zeroUUID, r_Value = val, r_LatestForKey = False\<rparr>
                     (r_ValueSize (bk_Value lr))
                     (\<lambda>r. Some (zeroVersionstamp, Some r)))))"

definition Update ::
    "('d, 't) FDB \<Rightarrow> bytes \<Rightarrow> bytes \<Rightarrow> int64 \<Rightarrow> int64 \<Rightarrow> bytes \<Rightarrow> 'd attempt list \<Rightarrow> 'd driver
     \<Rightarrow> ((int64 \<times> KeyValue option \<times> bool) res \<times> 'd driver) option" where
  "Update f key val revision lease uuid script s =
     (if length val > maxRecordSize then Some (Err ErrRequestTooLarge, s)
      else finish f s (transact f None (Update_body f key val revision lease) script (d_db s) uuid))"

definition Delete_body ::
    "('d, 't) FDB \<Rightarrow> bytes \<Rightarrow> int64 \<Rightarrow> 'd attempt \<Rightarrow> 't \<Rightarrow> bytes \<Rightarrow> 't closure_result" where
  "Delete_body f key revision a t0 lastWriteUUID =
     (case setFirstInBatch f t0 of
        Err e \<Rightarrow> (Err e, lastWriteUUID)
      | Panic p \<Rightarrow> (Panic p, lastWriteUUID)
      | Ok t \<Rightarrow>
     (case getLast f t key of
        Err e \<Rightarrow> (Err e, lastWriteUUID)
      | Panic p \<Rightarrow> (Panic p, lastWriteUUID)
      | Ok None \<Rightarrow> returns t lastWriteUUID (latestRevResult f t None)
      | Ok (Some lr) \<Rightarrow>
     (case ByRevision_Get f t (kr_Rev (bk_Key lr)) of
        Err e \<Rightarrow> (Err e, lastWriteUUID)
      | Panic p \<Rightarrow> (Panic p, lastWriteUUID)
      | Ok record \<Rightarrow>
          if r_IsDelete (bk_Value lr) then
            if lastWriteUUID = r_WriteUUID (bk_Value lr)
            then returns t lastWriteUUID
                   (map_res (\<lambda>r. newModificationResultRev (Inr r) (Some (kr_Rev (bk_Key lr), record)) True)
                      (VersionstampToInt64 (kr_Rev (bk_Key lr))))
            else returns t lastWriteUUID (latestRevResult f t None)
          else
            (case (if revision \<noteq> 0 then map_res (\<lambda>lastRev. lastRev \<noteq> revision) (VersionstampToInt64 (kr_Rev (bk_Key lr)))
                   else Ok False) of
               Err e \<Rightarrow> (Err e, lastWriteUUID)
             | Panic p \<Rightarrow> (Panic p, lastWriteUUID)
             | Ok True \<Rightarrow> returns t lastWriteUUID (latestRevResult f t (Some (kr_Rev (bk_Key lr), record)))
             | Ok False \<Rightarrow>
                 (case record of
                    None \<Rightarrow> (Panic (RuntimePanic ''nil pointer dereference''), lastWriteUUID)
                  | Some rec \<Rightarrow>
                      appendResult f a t lastWriteUUID
                        \<lparr>r_Key = key, r_IsDelete = True, r_IsCreate = False, r_Lease = r_Lease rec,
                         r_CreateRevision = ByKeyAndRevisionRecord_GetCreateRevision lr,
                         r_PrevRevision = kr_Rev (bk_Key lr), r_ValueSize = r_ValueSize rec,
                         r_WriteUUID = zeroUUID, r_Value = r_Value rec, r_LatestForKey = False\<rparr>
                        0 (\<lambda>r. Some (zeroVersionstamp, Some r)))))))"

definition Delete ::
    "('d, 't) FDB \<Rightarrow> bytes \<Rightarrow> int64 \<Rightarrow> bytes \<Rightarrow> 'd attempt list \<Rightarrow> 'd driver
     \<Rightarrow> ((int64 \<times> KeyValue option \<times> bool) res \<times> 'd driver) option" where
  "Delete f key revision uuid script s =
     finish f s (transact f None (Delete_body f key revision) script (d_db s) uuid)"

end
