(* ===== verification/FDB_Read.thy ===== *)
theory FDB_Read
  imports FDB_Range FDB_Write
begin

text \<open>
  The read path (\<^verbatim>\<open>src/pkg/drivers/fdb/fdb_read.go\<close>): listing, getting and counting keys at a revision. A
  \<^verbatim>\<open>recordCollector\<close> walks the index in key and revision order and hands the newest visible record of each key
  to an inner collector: the \<^verbatim>\<open>listCollector\<close>, which fetches values, or the \<^verbatim>\<open>countCollector\<close>.
\<close>

section \<open>Counting\<close>

record countCollector =
  cc_totalCount :: int64
  cc_batchCount :: int64

definition countCollector_startBatch :: "countCollector \<Rightarrow> countCollector" where
  "countCollector_startBatch c = c\<lparr>cc_batchCount := 0\<rparr>"

definition countCollector_next ::
    "'t \<Rightarrow> ByKeyAndRevisionRecord \<Rightarrow> countCollector
     \<Rightarrow> (bytes option \<times> bool \<times> 't \<times> ByKeyAndRevisionRecord) res \<times> countCollector" where
  "countCollector_next t record c = (Ok (None, True, t, record), c\<lparr>cc_batchCount := wrap64 (cc_batchCount c + 1)\<rparr>)"

definition countCollector_endBatch :: "'t \<Rightarrow> bool \<Rightarrow> countCollector \<Rightarrow> 't res \<times> countCollector" where
  "countCollector_endBatch t isLast c = (Ok t, c)"

definition countCollector_postBatch :: "countCollector \<Rightarrow> countCollector" where
  "countCollector_postBatch c = c\<lparr>cc_totalCount := wrap64 (cc_totalCount c + cc_batchCount c)\<rparr>"

text \<open>The modes of an inner collector are those \<^verbatim>\<open>recordCollector\<close> reports for it.\<close>

definition countProcessor :: "('t, ByKeyAndRevisionRecord, countCollector) Processor" where
  "countProcessor =
     \<lparr>p_streamingMode = StreamingModeIterator, p_snapshotReads = True,
      p_startBatch = countCollector_startBatch, p_next = countCollector_next,
      p_endBatch = countCollector_endBatch, p_postBatch = countCollector_postBatch\<rparr>"

section \<open>Listing\<close>

record listCollector =
  lc_limit :: int64
  lc_keysOnly :: bool
  lc_records :: "RevRecord list"
  lc_batchRecords :: "RevRecord list"

text \<open>\<^verbatim>\<open>make\<close> panics on a negative capacity.\<close>

definition newListCollector :: "int64 \<Rightarrow> bool \<Rightarrow> listCollector res" where
  "newListCollector limit keysOnly =
     (if limit < 0 then Panic (RuntimePanic ''makeslice: cap out of range'')
      else Ok \<lparr>lc_limit = limit, lc_keysOnly = keysOnly, lc_records = [], lc_batchRecords = []\<rparr>)"

definition listCollector_startBatch :: "listCollector \<Rightarrow> listCollector" where
  "listCollector_startBatch c = c\<lparr>lc_batchRecords := []\<rparr>"

definition listCollector_needMore :: "listCollector \<Rightarrow> bool" where
  "listCollector_needMore c \<longleftrightarrow>
     lc_limit c = 0 \<or> int (length (lc_batchRecords c) + length (lc_records c)) < lc_limit c"

definition listCollector_next ::
    "'t \<Rightarrow> ByKeyAndRevisionRecord \<Rightarrow> listCollector
     \<Rightarrow> (bytes option \<times> bool \<times> 't \<times> ByKeyAndRevisionRecord) res \<times> listCollector" where
  "listCollector_next t record c =
     (let c1 = c\<lparr>lc_batchRecords := lc_batchRecords c @ [\<lparr>rr_Rev = kr_Rev (bk_Key record), rr_Record = bk_Value record\<rparr>]\<rparr>
      in (Ok (None, listCollector_needMore c1, t, record), c1))"

text \<open>
  The merge-join of the batch with the chunks of the current values: \<open>idx\<close> is advanced to the first
  record whose key is not below the chunk's, and the chunk is added to its buffer if it belongs to it.
\<close>

definition skipRecords :: "RevRecord list \<Rightarrow> bytes \<Rightarrow> nat \<Rightarrow> nat" where
  "skipRecords recs key idx = idx + length (takeWhile (\<lambda>r. r_Key (rr_Record r) < key) (drop idx recs))"

fun mergeChunks :: "('d, 't) FDB \<Rightarrow> RevRecord list \<Rightarrow> iter \<Rightarrow> nat \<Rightarrow> bytes list \<Rightarrow> bytes list res" where
  "mergeChunks f recs [] idx bufs = Ok bufs"
| "mergeChunks f recs (Inl e # it) idx bufs = Err e"
| "mergeChunks f recs (Inr kv # it) idx bufs =
     res_bind (ByKeyCurrent_parseKV f kv) (\<lambda>chunk.
       let idx1 = skipRecords recs (dc_key chunk) idx
       in if idx1 = length recs then Ok bufs
          else
            let rec = rr_Record (recs ! idx1)
            in if r_Key rec = dc_key chunk \<and> r_LatestForKey rec then
                 if r_ValueSize rec < 0 then Panic (RuntimePanic ''makeslice: cap out of range'')
                 else mergeChunks f recs it idx1 (bufs[idx1 := bufs ! idx1 @ dc_value chunk])
               else mergeChunks f recs it idx1 bufs)"

text \<open>The records whose values the join found, and the positions of the others.\<close>

definition joinedRecord :: "RevRecord \<Rightarrow> bytes \<Rightarrow> RevRecord" where
  "joinedRecord r buf =
     (if r_ValueSize (rr_Record r) = 0 then r\<lparr>rr_Record := (rr_Record r)\<lparr>r_Value := []\<rparr>\<rparr>
      else if int (length buf) = r_ValueSize (rr_Record r) then r\<lparr>rr_Record := (rr_Record r)\<lparr>r_Value := buf\<rparr>\<rparr>
      else r)"

definition legacyIndices :: "RevRecord list \<Rightarrow> bytes list \<Rightarrow> nat list" where
  "legacyIndices recs bufs =
     filter (\<lambda>i. r_ValueSize (rr_Record (recs ! i)) \<noteq> 0 \<and> int (length (bufs ! i)) \<noteq> r_ValueSize (rr_Record (recs ! i)))
       [0..<length recs]"

definition secondaryFetchPipeline :: nat where
  "secondaryFetchPipeline = 256"

fun getIterators :: "('d, 't) FDB \<Rightarrow> 't \<Rightarrow> RevRecord list \<Rightarrow> nat list \<Rightarrow> (nat \<times> iter) list res" where
  "getIterators f t recs [] = Ok []"
| "getIterators f t recs (i # is) =
     res_bind (ByRevision_GetIterator f t (rr_Rev (recs ! i))) (\<lambda>it.
     res_bind (getIterators f t recs is) (\<lambda>its. Ok ((i, it) # its)))"

fun drainIterators :: "('d, 't) FDB \<Rightarrow> (nat \<times> iter) list \<Rightarrow> RevRecord list \<Rightarrow> unit res \<times> RevRecord list" where
  "drainIterators f [] recs = (Ok (), recs)"
| "drainIterators f ((i, it) # its) recs =
     (case ByRevision_GetFromIterator f it of
        Ok (Some (v, record), _) \<Rightarrow> drainIterators f its (recs[i := \<lparr>rr_Rev = v, rr_Record = record\<rparr>])
      | Ok (None, _) \<Rightarrow> (Err (Errorf ''no records in by rev iterator''), recs)
      | Err e \<Rightarrow> (Err e, recs)
      | Panic p \<Rightarrow> (Panic p, recs))"

function listCollector_fetchLegacy ::
    "('d, 't) FDB \<Rightarrow> 't \<Rightarrow> nat list \<Rightarrow> RevRecord list \<Rightarrow> unit res \<times> RevRecord list" where
  "listCollector_fetchLegacy f t indices recs =
     (if indices = [] then (Ok (), recs)
      else
        case getIterators f t recs (take secondaryFetchPipeline indices) of
          Err e \<Rightarrow> (Err e, recs)
        | Panic p \<Rightarrow> (Panic p, recs)
        | Ok its \<Rightarrow>
            (case drainIterators f its recs of
               (Ok _, recs1) \<Rightarrow> listCollector_fetchLegacy f t (drop secondaryFetchPipeline indices) recs1
             | (r, recs1) \<Rightarrow> (r, recs1)))"
  by pat_completeness auto
termination
  by (relation "measure (\<lambda>(f, t, indices, recs). length indices)") (auto simp: secondaryFetchPipeline_def)

declare listCollector_fetchLegacy.simps [simp del]

definition listCollector_endBatch :: "('d, 't) FDB \<Rightarrow> 't \<Rightarrow> bool \<Rightarrow> listCollector \<Rightarrow> 't res \<times> listCollector" where
  "listCollector_endBatch f t isLast c =
     (let recs = lc_batchRecords c in
      if lc_keysOnly c \<or> recs = [] then (Ok t, c)
      else
        case res_bind (ByKeyCurrent_RangeForKeys f (r_Key (rr_Record (hd recs))) (r_Key (rr_Record (last recs)))) (\<lambda>(b, e).
               mergeChunks f recs
                 (tr_GetRange (f_lib f) True t b e \<lparr>ro_Limit = 0, ro_Mode = StreamingModeWantAll, ro_Reverse = False\<rparr>)
                 0 (replicate (length recs) [])) of
          Err e \<Rightarrow> (Err e, c)
        | Panic p \<Rightarrow> (Panic p, c)
        | Ok bufs \<Rightarrow>
            (case listCollector_fetchLegacy f t (legacyIndices recs bufs) (map2 joinedRecord recs bufs) of
               (r, recs1) \<Rightarrow> (map_res (\<lambda>_. t) r, c\<lparr>lc_batchRecords := recs1\<rparr>)))"

definition listCollector_postBatch :: "listCollector \<Rightarrow> listCollector" where
  "listCollector_postBatch c = c\<lparr>lc_records := lc_records c @ lc_batchRecords c\<rparr>"

definition listProcessor :: "('d, 't) FDB \<Rightarrow> int64 \<Rightarrow> ('t, ByKeyAndRevisionRecord, listCollector) Processor" where
  "listProcessor f limit =
     \<lparr>p_streamingMode = (if limit = 0 then StreamingModeWantAll else StreamingModeIterator), p_snapshotReads = True,
      p_startBatch = listCollector_startBatch, p_next = listCollector_next,
      p_endBatch = listCollector_endBatch f, p_postBatch = listCollector_postBatch\<rparr>"

section \<open>The newest visible record of each key\<close>

text \<open>
  The records are pointers in the source. \<^verbatim>\<open>startBatch\<close> makes \<^verbatim>\<open>batchCurrentRecord\<close> and \<^verbatim>\<open>currentRecord\<close> the same
  object, so \<^verbatim>\<open>next\<close> clearing \<^verbatim>\<open>LatestForKey\<close> of the former clears it in the latter too while \<open>rc_shared\<close> holds, and
  a later attempt sees it. The list collector's writes to \<^verbatim>\<open>Value\<close> of a shared record are not seen
  again: every path that returns the record sets the field first or does not read it.
\<close>

record 's recordCollector =
  rc_maxRevision :: int64
  rc_inner :: 's
  rc_currentRecord :: "ByKeyAndRevisionRecord option"
  rc_batchCurrentRecord :: "ByKeyAndRevisionRecord option"
  rc_shared :: bool
  rc_firstRev :: int64
  rc_rev :: int64
  rc_batchRev :: int64

definition newRecordCollector :: "int64 \<Rightarrow> 's \<Rightarrow> 's recordCollector" where
  "newRecordCollector maxRevision inner =
     \<lparr>rc_maxRevision = maxRevision, rc_inner = inner, rc_currentRecord = None, rc_batchCurrentRecord = None,
      rc_shared = False, rc_firstRev = 0, rc_rev = 0, rc_batchRev = 0\<rparr>"

definition recordCollector_startBatch ::
    "('t, ByKeyAndRevisionRecord, 's) Processor \<Rightarrow> 's recordCollector \<Rightarrow> 's recordCollector" where
  "recordCollector_startBatch inner c =
     c\<lparr>rc_inner := p_startBatch inner (rc_inner c), rc_batchCurrentRecord := rc_currentRecord c,
       rc_shared := True, rc_batchRev := 0\<rparr>"

text \<open>Handing a record to the inner collector, unless it is a deletion; the answer is whether more is needed.\<close>

definition recordCollector_emit ::
    "('t, ByKeyAndRevisionRecord, 's) Processor \<Rightarrow> 't \<Rightarrow> ByKeyAndRevisionRecord \<Rightarrow> 's recordCollector
     \<Rightarrow> (bool \<times> 't) res \<times> 's recordCollector" where
  "recordCollector_emit inner t record c =
     (if r_IsDelete (bk_Value record) then (Ok (True, t), c)
      else
        case p_next inner t record (rc_inner c) of
          (Ok (_, needMore, t1, _), s) \<Rightarrow> (Ok (needMore, t1), c\<lparr>rc_inner := s\<rparr>)
        | (Err e, s) \<Rightarrow> (Err e, c\<lparr>rc_inner := s\<rparr>)
        | (Panic p, s) \<Rightarrow> (Panic p, c\<lparr>rc_inner := s\<rparr>))"

definition setLatestForKey :: "bool \<Rightarrow> ByKeyAndRevisionRecord \<Rightarrow> ByKeyAndRevisionRecord" where
  "setLatestForKey b r = r\<lparr>bk_Value := (bk_Value r)\<lparr>r_LatestForKey := b\<rparr>\<rparr>"

definition recordCollector_visible :: "int64 \<Rightarrow> 's recordCollector \<Rightarrow> bool" where
  "recordCollector_visible recordRev c \<longleftrightarrow>
     (rc_maxRevision c = 0 \<or> recordRev \<le> rc_maxRevision c) \<and> (rc_firstRev c = 0 \<or> recordRev \<le> rc_firstRev c)"

definition recordCollector_next ::
    "('d, 't) FDB \<Rightarrow> ('t, ByKeyAndRevisionRecord, 's) Processor \<Rightarrow> 't \<Rightarrow> iter \<Rightarrow> 's recordCollector
     \<Rightarrow> (bytes option \<times> bool \<times> 't \<times> iter) res \<times> 's recordCollector" where
  "recordCollector_next f inner t it c =
     (case ByKeyAndRevision_GetFromIterator f it of
        Err e \<Rightarrow> (Err e, c)
      | Panic p \<Rightarrow> (Panic p, c)
      | Ok (None, it1) \<Rightarrow> (Ok (None, False, t, it1), c)
      | Ok (Some record, it1) \<Rightarrow>
          (case (case rc_batchCurrentRecord c of
                   Some current \<Rightarrow>
                     if kr_Key (bk_Key current) \<noteq> kr_Key (bk_Key record) then
                       (case recordCollector_emit inner t current c of
                          (Ok x, c1) \<Rightarrow> (Ok x, c1\<lparr>rc_batchCurrentRecord := None, rc_shared := False\<rparr>)
                        | (r, c1) \<Rightarrow> (r, c1))
                     else (Ok (True, t), c)
                 | None \<Rightarrow> (Ok (True, t), c)) of
             (Err e, c1) \<Rightarrow> (Err e, c1)
           | (Panic p, c1) \<Rightarrow> (Panic p, c1)
           | (Ok (needMore, t1), c1) \<Rightarrow>
               (case VersionstampToInt64 (kr_Rev (bk_Key record)) of
                  Err e \<Rightarrow> (Err e, c1)
                | Panic p \<Rightarrow> (Panic p, c1)
                | Ok recordRev \<Rightarrow>
                    (Ok (Some (subspace_Pack (f_lib f) (f_byKeyAndRevision f)
                            [TString (kr_Key (bk_Key record)), TVersionstamp (kr_Rev (bk_Key record))]),
                         needMore, t1, it1),
                     if recordCollector_visible recordRev c1
                     then c1\<lparr>rc_batchCurrentRecord := Some (setLatestForKey True record), rc_shared := False\<rparr>
                     else (case rc_batchCurrentRecord c1 of
                             Some current \<Rightarrow>
                               if kr_Key (bk_Key current) = kr_Key (bk_Key record)
                               then c1\<lparr>rc_batchCurrentRecord := Some (setLatestForKey False current),
                                       rc_currentRecord := (if rc_shared c1 then Some (setLatestForKey False current)
                                                            else rc_currentRecord c1)\<rparr>
                               else c1
                           | None \<Rightarrow> c1)))))"

definition recordCollector_endBatch ::
    "('d, 't) FDB \<Rightarrow> ('t, ByKeyAndRevisionRecord, 's) Processor \<Rightarrow> 't \<Rightarrow> bool \<Rightarrow> 's recordCollector
     \<Rightarrow> 't res \<times> 's recordCollector" where
  "recordCollector_endBatch f inner t isLast c =
     (case (case rc_batchCurrentRecord c of
              Some current \<Rightarrow> if isLast then recordCollector_emit inner t current c else (Ok (True, t), c)
            | None \<Rightarrow> (Ok (True, t), c)) of
        (Err e, c1) \<Rightarrow> (Err e, c1)
      | (Panic p, c1) \<Rightarrow> (Panic p, c1)
      | (Ok (_, t1), c1) \<Rightarrow>
          (case p_endBatch inner t1 isLast (rc_inner c1) of
             (Err e, s) \<Rightarrow> (Err e, c1\<lparr>rc_inner := s\<rparr>)
           | (Panic p, s) \<Rightarrow> (Panic p, c1\<lparr>rc_inner := s\<rparr>)
           | (Ok t2, s) \<Rightarrow>
               let c2 = c1\<lparr>rc_inner := s\<rparr>
               in case res_bind (RevisionSubspace_GetLatestRev f t2) res_of_sum of
                    Err e \<Rightarrow> (Err e, c2)
                  | Panic p \<Rightarrow> (Panic p, c2)
                  | Ok latestRev \<Rightarrow>
                      let c3 = c2\<lparr>rc_batchRev := latestRev\<rparr>
                      in if rc_maxRevision c3 > 0 then
                           (case res_bind (CompactRevision_Get f t2) VersionstampToInt64 of
                              Err e \<Rightarrow> (Err e, c3)
                            | Panic p \<Rightarrow> (Panic p, c3)
                            | Ok compactRev \<Rightarrow>
                                if rc_maxRevision c3 < compactRev then (Err ErrCompacted, c3) else (Ok t2, c3))
                         else (Ok t2, c3)))"

definition recordCollector_postBatch ::
    "('t, ByKeyAndRevisionRecord, 's) Processor \<Rightarrow> 's recordCollector \<Rightarrow> 's recordCollector" where
  "recordCollector_postBatch inner c =
     c\<lparr>rc_inner := p_postBatch inner (rc_inner c),
       rc_firstRev := (if rc_firstRev c = 0 then rc_batchRev c else rc_firstRev c),
       rc_rev := rc_batchRev c, rc_currentRecord := rc_batchCurrentRecord c\<rparr>"

definition recordProcessor ::
    "('d, 't) FDB \<Rightarrow> ('t, ByKeyAndRevisionRecord, 's) Processor \<Rightarrow> ('t, iter, 's recordCollector) Processor" where
  "recordProcessor f inner =
     \<lparr>p_streamingMode = p_streamingMode inner, p_snapshotReads = p_snapshotReads inner,
      p_startBatch = recordCollector_startBatch inner, p_next = recordCollector_next f inner,
      p_endBatch = recordCollector_endBatch f inner, p_postBatch = recordCollector_postBatch inner\<rparr>"

section \<open>The entry points\<close>

text \<open>The range of the index a call reads: the keys under a prefix that ends in a slash, or one key.\<close>

definition listRange :: "('d, 't) FDB \<Rightarrow> bytes \<Rightarrow> bytes \<Rightarrow> (selector \<times> selector) res" where
  "listRange f pre startKey =
     (let L = f_lib f; sub = f_byKeyAndRevision f in
      if suffix (str ''/'') pre then
        let packedStartKey = subspace_Pack L sub [TString startKey]
        in res_bind
             (if pre \<noteq> startKey
              then wrap_err ''failed to create begin for listKeyValue'' (res_of_sum (fdb_Strinc L packedStartKey))
              else Ok packedStartKey) (\<lambda>begin.
           res_bind (wrap_err ''failed to create end for listKeyValue''
               (res_of_sum (fdb_Strinc L (butlast (subspace_Pack L sub [TString pre]))))) (\<lambda>packedPrefixKey.
           Ok (FirstGreaterOrEqual begin, FirstGreaterOrEqual packedPrefixKey)))
      else if startKey \<noteq> pre then Err (Errorf ''prefix is not equal to startKey'')
      else
        let (b, e) = subspace_FDBRangeKeys L (subspace_Sub L sub [TString pre])
        in Ok (FirstGreaterOrEqual b, FirstGreaterOrEqual e))"

definition listWithCollector ::
    "('d, 't) FDB \<Rightarrow> ('t, ByKeyAndRevisionRecord, 's) Processor \<Rightarrow> bytes \<Rightarrow> bytes \<Rightarrow> int64 \<Rightarrow> 'd attempt list list
     \<Rightarrow> 'd \<Rightarrow> 's \<Rightarrow> (int64 res \<times> 'd \<times> 's) option" where
  "listWithCollector f inner pre startKey maxRevision scripts d collector =
     (case listRange f pre startKey of
        Err e \<Rightarrow> Some (Err e, d, collector)
      | Panic p \<Rightarrow> Some (Panic p, d, collector)
      | Ok sel \<Rightarrow>
          (case processRange f (recordProcessor f inner) sel scripts d (newRecordCollector maxRevision collector) of
             None \<Rightarrow> None
           | Some (Err e, _, d1, rc) \<Rightarrow> Some (Err e, d1, rc_inner rc)
           | Some (Panic p, _, d1, rc) \<Rightarrow> Some (Panic p, d1, rc_inner rc)
           | Some (Ok _, _, d1, rc) \<Rightarrow>
               Some (if maxRevision > rc_firstRev rc then Err ErrFutureRev else Ok (rc_firstRev rc), d1, rc_inner rc)))"

fun revRecordsToKVs :: "('d, 't) FDB \<Rightarrow> RevRecord list \<Rightarrow> KeyValue list res" where
  "revRecordsToKVs f [] = Ok []"
| "revRecordsToKVs f (r # rs) =
     res_bind (revRecordToEvent f r) (\<lambda>ev. res_bind (revRecordsToKVs f rs) (\<lambda>kvs. Ok (ev_KV ev # kvs)))"

definition listKeyValue ::
    "('d, 't) FDB \<Rightarrow> bytes \<Rightarrow> bytes \<Rightarrow> int64 \<Rightarrow> int64 \<Rightarrow> bool \<Rightarrow> 'd attempt list list \<Rightarrow> 'd
     \<Rightarrow> ((int64 \<times> KeyValue list) res \<times> 'd) option" where
  "listKeyValue f pre startKey limit maxRevision keysOnly scripts d =
     (case newListCollector limit keysOnly of
        Err e \<Rightarrow> Some (Err e, d)
      | Panic p \<Rightarrow> Some (Panic p, d)
      | Ok c \<Rightarrow>
          map_option (\<lambda>(r, d1, c1).
              (res_bind r (\<lambda>rev. map_res (Pair rev) (revRecordsToKVs f (lc_records c1))), d1))
            (listWithCollector f (listProcessor f limit) pre startKey maxRevision scripts d c))"

definition List ::
    "('d, 't) FDB \<Rightarrow> bytes \<Rightarrow> bytes \<Rightarrow> int64 \<Rightarrow> int64 \<Rightarrow> bool \<Rightarrow> 'd attempt list list \<Rightarrow> 'd driver
     \<Rightarrow> ((int64 \<times> KeyValue list) res \<times> 'd driver) option" where
  "List f pre startKey limit revision keysOnly scripts s =
     map_option (\<lambda>(r, d). (r, s\<lparr>d_db := d\<rparr>)) (listKeyValue f pre startKey limit revision keysOnly scripts (d_db s))"

definition Get ::
    "('d, 't) FDB \<Rightarrow> bytes \<Rightarrow> bytes \<Rightarrow> int64 \<Rightarrow> bool \<Rightarrow> 'd attempt list list \<Rightarrow> 'd driver
     \<Rightarrow> ((int64 \<times> KeyValue option) res \<times> 'd driver) option" where
  "Get f key rangeEnd revision keysOnly scripts s =
     (if rangeEnd \<noteq> [] then Some (Err (Errorf ''invalid 'rangeEnd' for Get''), s)
      else
        map_option (\<lambda>(r, d). (map_res (\<lambda>(rev, kvs). (rev, if kvs = [] then None else Some (hd kvs))) r, s\<lparr>d_db := d\<rparr>))
          (listKeyValue f key key 1 revision keysOnly scripts (d_db s)))"

text \<open>
  \<^verbatim>\<open>Count\<close> runs beside the poll loop: \<open>meanwhile\<close> is what other goroutines do to the driver's fields during the scan.
\<close>

definition Count ::
    "('d, 't) FDB \<Rightarrow> bytes \<Rightarrow> bytes \<Rightarrow> int64 \<Rightarrow> 'd attempt list list \<Rightarrow> ('d driver \<Rightarrow> 'd driver) \<Rightarrow> 'd driver
     \<Rightarrow> ((int64 \<times> int64) res \<times> 'd driver) option" where
  "Count f pre startKey revision scripts meanwhile s =
     (let cacheable = (revision = 0 \<and> pre = startKey \<and> d_pollActive s);
          (cached, seedRev, ok) = countTracker_get (d_counts s) pre
      in if cacheable \<and> ok \<and> d_lastWatchRev s \<ge> seedRev then Some (Ok (d_lastWatchRev s, cached), s)
         else
           (case listWithCollector f countProcessor pre startKey revision scripts (d_db s)
                   \<lparr>cc_totalCount = 0, cc_batchCount = 0\<rparr> of
              None \<Rightarrow> None
            | Some (Err e, d, _) \<Rightarrow> Some (Err e, meanwhile (s\<lparr>d_db := d\<rparr>))
            | Some (Panic p, d, _) \<Rightarrow> Some (Panic p, meanwhile (s\<lparr>d_db := d\<rparr>))
            | Some (Ok scanRev, d, c) \<Rightarrow>
                let s1 = meanwhile (s\<lparr>d_db := d\<rparr>);
                    s2 = (if cacheable then s1\<lparr>d_counts := countTracker_seed pre (cc_totalCount c) scanRev (d_counts s1)\<rparr> else s1)
                in Some (Ok (scanRev, cc_totalCount c), s2)))"

definition CurrentRevision ::
    "('d, 't) FDB \<Rightarrow> 'd attempt list \<Rightarrow> 'd driver \<Rightarrow> (int64 res \<times> 'd driver) option" where
  "CurrentRevision f script s =
     (if d_lastWatchRev s \<noteq> 0 then Some (Ok (d_lastWatchRev s), s)
      else
        map_option (\<lambda>(r, _, d, _). (r, s\<lparr>d_db := d\<rparr>))
          (transact f 0 (\<lambda>a t c. (map_res (\<lambda>r. (r, t)) (res_bind (RevisionSubspace_GetLatestRev f t) res_of_sum), c))
             script (d_db s) ()))"

end
