(* ===== verification/FDB_Watch.thy ===== *)
theory FDB_Watch
  imports FDB_Read
begin

text \<open>
  Reading events after a revision, the poll loop that broadcasts them, and watches
  (\<^verbatim>\<open>src/pkg/drivers/fdb/fdb_watch.go\<close>), and the reader of the whole log (\<^verbatim>\<open>fdb_wal.go\<close>).
\<close>

section \<open>Events after a revision\<close>

record afterCollector =
  ac_limit :: int64
  ac_checkCompacted :: bool
  ac_minRevision :: int64
  ac_takeKey :: "bytes \<Rightarrow> bool"
  ac_batchEvents :: "Event list"
  ac_events :: "Event list"
  ac_compactRevision :: int64
  ac_batchCompactRev :: int64
  ac_latestRev :: int64
  ac_batchLatestRev :: int64

definition newAfterCollector :: "int64 \<Rightarrow> bool \<Rightarrow> int64 \<Rightarrow> (bytes \<Rightarrow> bool) \<Rightarrow> afterCollector res" where
  "newAfterCollector minRevision checkCompacted limit takeKey =
     (if limit < 0 then Panic (RuntimePanic ''makeslice: cap out of range'')
      else Ok \<lparr>ac_limit = limit, ac_checkCompacted = checkCompacted, ac_minRevision = minRevision, ac_takeKey = takeKey,
               ac_batchEvents = [], ac_events = [], ac_compactRevision = 0, ac_batchCompactRev = 0,
               ac_latestRev = 0, ac_batchLatestRev = 0\<rparr>)"

definition afterCollector_startBatch :: "afterCollector \<Rightarrow> afterCollector" where
  "afterCollector_startBatch c = c\<lparr>ac_batchEvents := [], ac_batchLatestRev := 0, ac_batchCompactRev := 0\<rparr>"

definition afterCollector_needMore :: "afterCollector \<Rightarrow> bool" where
  "afterCollector_needMore c \<longleftrightarrow>
     ac_limit c = 0 \<or> int (length (ac_batchEvents c) + length (ac_events c)) < ac_limit c"

definition maxInt64 :: int64 where
  "maxInt64 = 2 ^ 63 - 1"

text \<open>The end of the keys of a revision: after its chunks.\<close>

definition afterKey :: "('d, 't) FDB \<Rightarrow> versionstamp \<Rightarrow> bytes" where
  "afterKey f v = subspace_Pack (f_lib f) (f_byRevision f) [TVersionstamp v, TInt maxInt64]"

text \<open>The event of a record, with the previous value of its key if that is still there.\<close>

definition afterEvent :: "('d, 't) FDB \<Rightarrow> 't \<Rightarrow> versionstamp \<Rightarrow> Record \<Rightarrow> Event res" where
  "afterEvent f t v record =
     res_bind (revRecordToEvent f \<lparr>rr_Rev = v, rr_Record = record\<rparr>) (\<lambda>event.
     if r_PrevRevision record \<noteq> dummyVersionstamp f then
       res_bind (ByRevision_Get f t (r_PrevRevision record)) (\<lambda>prevRecord.
         case prevRecord of
           Some p \<Rightarrow>
             map_res (\<lambda>prev. event\<lparr>ev_PrevKV := Some (ev_KV prev)\<rparr>)
               (revRecordToEvent f \<lparr>rr_Rev = r_PrevRevision record, rr_Record = p\<rparr>)
         | None \<Rightarrow> Ok (event\<lparr>ev_PrevKV := None\<rparr>))
     else Ok event)"

definition afterCollector_next ::
    "('d, 't) FDB \<Rightarrow> 't \<Rightarrow> iter \<Rightarrow> afterCollector \<Rightarrow> (bytes option \<times> bool \<times> 't \<times> iter) res \<times> afterCollector" where
  "afterCollector_next f t it c =
     (case ByRevision_GetFromIterator f it of
        Err e \<Rightarrow> (Err e, c)
      | Panic p \<Rightarrow> (Panic p, c)
      | Ok (None, it1) \<Rightarrow> (Ok (None, False, t, it1), c)
      | Ok (Some (v, record), it1) \<Rightarrow>
          (case (if ac_latestRev c \<noteq> 0 then map_res (\<lambda>r. r > ac_latestRev c) (VersionstampToInt64 v) else Ok False) of
             Err e \<Rightarrow> (Err e, c)
           | Panic p \<Rightarrow> (Panic p, c)
           | Ok True \<Rightarrow> (Ok (Some (afterKey f v), False, t, it1), c)
           | Ok False \<Rightarrow>
               (case (if ac_takeKey c (r_Key record) then map_res (\<lambda>ev. [ev]) (afterEvent f t v record) else Ok []) of
                  Err e \<Rightarrow> (Err e, c)
                | Panic p \<Rightarrow> (Panic p, c)
                | Ok evs \<Rightarrow>
                    let c1 = c\<lparr>ac_batchEvents := ac_batchEvents c @ evs\<rparr>
                    in (Ok (Some (afterKey f v), afterCollector_needMore c1, t, it1), c1))))"

definition afterCollector_endBatch ::
    "('d, 't) FDB \<Rightarrow> 't \<Rightarrow> bool \<Rightarrow> afterCollector \<Rightarrow> 't res \<times> afterCollector" where
  "afterCollector_endBatch f t isLast c =
     (case (if ac_latestRev c = 0
            then map_res (\<lambda>latestRev. c\<lparr>ac_batchLatestRev := latestRev\<rparr>)
                   (res_bind (RevisionSubspace_GetLatestRev f t) res_of_sum)
            else Ok c) of
        Err e \<Rightarrow> (Err e, c)
      | Panic p \<Rightarrow> (Panic p, c)
      | Ok c1 \<Rightarrow>
          if ac_checkCompacted c1 then
            (case CompactRevision_Get f t of
               Err e \<Rightarrow> (Err e, c1)
             | Panic p \<Rightarrow> (Panic p, c1)
             | Ok compactRev \<Rightarrow>
                 if ac_minRevision c1 > 0 then
                   (case VersionstampToInt64 compactRev of
                      Err e \<Rightarrow> (Err e, c1)
                    | Panic p \<Rightarrow> (Panic p, c1)
                    | Ok r \<Rightarrow>
                        if ac_minRevision c1 < r then (Err ErrCompacted, c1\<lparr>ac_batchCompactRev := r\<rparr>) else (Ok t, c1))
                 else (Ok t, c1))
          else (Ok t, c1))"

definition afterCollector_postBatch :: "afterCollector \<Rightarrow> afterCollector" where
  "afterCollector_postBatch c =
     c\<lparr>ac_events := ac_events c @ ac_batchEvents c, ac_latestRev := ac_batchLatestRev c,
       ac_compactRevision := ac_batchCompactRev c\<rparr>"

definition afterProcessor :: "('d, 't) FDB \<Rightarrow> ('t, iter, afterCollector) Processor" where
  "afterProcessor f =
     \<lparr>p_streamingMode = StreamingModeIterator, p_snapshotReads = False,
      p_startBatch = afterCollector_startBatch, p_next = afterCollector_next f,
      p_endBatch = afterCollector_endBatch f, p_postBatch = afterCollector_postBatch\<rparr>"

definition afterRevisionSelector :: "('d, 't) FDB \<Rightarrow> int64 \<Rightarrow> selector \<times> selector" where
  "afterRevisionSelector f minRevision =
     (FirstGreaterThan (afterKey f (int64ToVersionstamp minRevision)),
      FirstGreaterOrEqual (snd (subspace_FDBRangeKeys (f_lib f) (f_byRevision f))))"

record AfterResult =
  ar_currentRevision :: int64
  ar_compactRevision :: int64
  ar_events :: "Event list"

text \<open>\<^verbatim>\<open>afterAll\<close> returns its result beside the error, if any.\<close>

definition afterAll ::
    "('d, 't) FDB \<Rightarrow> int64 \<Rightarrow> (bytes \<Rightarrow> bool) \<Rightarrow> 'd attempt list list \<Rightarrow> 'd
     \<Rightarrow> ((AfterResult \<times> go_error option) res \<times> 'd) option" where
  "afterAll f minRevision takeKey scripts d =
     (case newAfterCollector minRevision True 0 takeKey of
        Err e \<Rightarrow> Some (Err e, d)
      | Panic p \<Rightarrow> Some (Panic p, d)
      | Ok c0 \<Rightarrow>
          map_option (\<lambda>(r, _, d1, c).
              let res = \<lparr>ar_currentRevision = (if ac_events c \<noteq> [] then kv_ModRevision (ev_KV (last (ac_events c)))
                                               else ac_latestRev c),
                         ar_compactRevision = ac_compactRevision c, ar_events = ac_events c\<rparr>
              in (case r of Ok _ \<Rightarrow> Ok (res, None) | Err e \<Rightarrow> Ok (res, Some e) | Panic p \<Rightarrow> Panic p, d1))
            (processRange f (afterProcessor f) (afterRevisionSelector f minRevision) scripts d c0))"

definition afterBatch ::
    "('d, 't) FDB \<Rightarrow> int64 \<Rightarrow> (bytes \<Rightarrow> bool) \<Rightarrow> 'd attempt list \<Rightarrow> 'd
     \<Rightarrow> ((int64 \<times> Event list) res \<times> 'd) option" where
  "afterBatch f minRevision takeKey script d =
     (case newAfterCollector minRevision False (maxBatchSize (f_cfg f)) takeKey of
        Err e \<Rightarrow> Some (Err e, d)
      | Panic p \<Rightarrow> Some (Panic p, d)
      | Ok c0 \<Rightarrow>
          map_option (\<lambda>(r, _, d1, c). (map_res (\<lambda>_. (ac_latestRev c, ac_events c)) r, d1))
            (processBatch f (afterProcessor f) (afterRevisionSelector f minRevision) script d c0))"

section \<open>The poll loop\<close>

text \<open>
  Before the loop, one iteration of it, and after it. An iteration registers the watch of the
  watch key, reads a batch of events after the cursor, and broadcasts it or waits for \<open>wake\<close>; it
  tells what it broadcast. An error leaves the cursor where it was.
\<close>

datatype wakeup = CtxDone | PollKick | Floor | WatchFired

definition poll_start :: "int64 \<Rightarrow> 'd driver \<Rightarrow> 'd driver" where
  "poll_start pollStart s =
     s\<lparr>d_lastWatchRev := pollStart, d_counts := countTracker_reset (d_counts s), d_pollActive := True\<rparr>"

definition poll_stop :: "'d driver \<Rightarrow> 'd driver" where
  "poll_stop s = s\<lparr>d_pollActive := False\<rparr>"

definition poll_iteration ::
    "('d, 't) FDB \<Rightarrow> 'd attempt list \<Rightarrow> 'd attempt list \<Rightarrow> wakeup \<Rightarrow> 'd driver
     \<Rightarrow> (Event list res \<times> 'd driver) option" where
  "poll_iteration f watchScript script wake s =
     (case transact f () (\<lambda>a t c. (Ok ((), t), c)) watchScript (d_db s) () of
        None \<Rightarrow> None
      | Some (Err e, _, d, _) \<Rightarrow> Some (Err e, s\<lparr>d_db := d\<rparr>)
      | Some (Panic p, _, d, _) \<Rightarrow> Some (Panic p, s\<lparr>d_db := d\<rparr>)
      | Some (Ok _, _, d, _) \<Rightarrow>
          (case afterBatch f (d_lastWatchRev s) (\<lambda>_. True) script d of
             None \<Rightarrow> None
           | Some (Err e, d1) \<Rightarrow> Some (Err e, s\<lparr>d_db := d1\<rparr>)
           | Some (Panic p, d1) \<Rightarrow> Some (Panic p, s\<lparr>d_db := d1\<rparr>)
           | Some (Ok (lastRev, events), d1) \<Rightarrow>
               Some (Ok events,
                 if events \<noteq> []
                 then s\<lparr>d_db := d1, d_counts := countTracker_apply events (d_counts s),
                        d_lastWatchRev := kv_ModRevision (ev_KV (last events))\<rparr>
                 else
                   let s1 = s\<lparr>d_db := d1, d_lastWatchRev := lastRev\<rparr>
                   in (case wake of CtxDone \<Rightarrow> poll_stop s1 | PollKick \<Rightarrow> s1\<lparr>d_pollKick := False\<rparr> | _ \<Rightarrow> s1))))"

text \<open>\<^verbatim>\<open>startWatch\<close>: the poll loop starts at the current revision.\<close>

definition startWatch :: "('d, 't) FDB \<Rightarrow> 'd attempt list \<Rightarrow> 'd driver \<Rightarrow> (unit res \<times> 'd driver) option" where
  "startWatch f script s =
     map_option (\<lambda>(r, s1). case r of
         Ok pollStart \<Rightarrow> (Ok (), poll_start pollStart s1) | Err e \<Rightarrow> (Err e, s1) | Panic p \<Rightarrow> (Panic p, s1))
       (CurrentRevision f script s)"

section \<open>Watches\<close>

text \<open>The filter of \<^verbatim>\<open>innerWatch\<close>: the batches it passes on.\<close>

definition innerWatch :: "bytes \<Rightarrow> Event list list \<Rightarrow> Event list list" where
  "innerWatch pre batches =
     filter (\<lambda>b. b \<noteq> []) (map (filter (\<lambda>ev. doesEventHavePrefix (kv_Key (ev_KV ev)) pre)) batches)"

text \<open>The loop of \<^verbatim>\<open>Watch\<close>: batches from \<^verbatim>\<open>innerWatch\<close>, without what the initial read has delivered.\<close>

definition watch_forward :: "int64 \<Rightarrow> Event list list \<Rightarrow> Event list list" where
  "watch_forward lastRevision batches =
     filter (\<lambda>b. b \<noteq> []) (map (dropWhile (\<lambda>ev. kv_ModRevision (ev_KV ev) \<le> lastRevision)) batches)"

record WatchResult =
  wr_Events :: "Event list list"
  wr_Errorc :: "go_error option"
  wr_CompactRevision :: int64
  wr_CurrentRevision :: int64

text \<open>
  \<^verbatim>\<open>Watch\<close>: \<open>batches\<close> is what the broadcaster delivers to it from its subscription, which it makes
  first, to the end of the watch; nothing if the subscription fails, since \<^verbatim>\<open>innerWatch\<close> then returns a nil channel.
\<close>

definition Watch ::
    "('d, 't) FDB \<Rightarrow> bytes \<Rightarrow> int64 \<Rightarrow> 'd attempt list list \<Rightarrow> Event list list \<Rightarrow> 'd driver
     \<Rightarrow> (WatchResult res \<times> 'd driver) option" where
  "Watch f prefix0 minRevision0 scripts batches s =
     (let pre = (if prefix0 = [0] then str ''/'' else prefix0);
          minRevision = (if minRevision0 > 0 then minRevision0 - 1 else minRevision0);
          wr = \<lparr>wr_Events = [], wr_Errorc = None, wr_CompactRevision = 0, wr_CurrentRevision = 0\<rparr>
      in map_option (\<lambda>(r, d).
             (map_res (\<lambda>(res, err).
                case err of
                  Some e \<Rightarrow>
                    if e = ErrCompacted
                    then wr\<lparr>wr_CompactRevision := ar_compactRevision res, wr_CurrentRevision := ar_currentRevision res\<rparr>
                    else wr\<lparr>wr_Errorc := Some ErrGRPCUnhealthy\<rparr>
                | None \<Rightarrow>
                    let events = ar_events res;
                        lastRevision = (if events \<noteq> [] then kv_ModRevision (ev_KV (last events)) else minRevision)
                    in wr\<lparr>wr_Events := (if events \<noteq> [] then [events] else []) @ watch_forward lastRevision (innerWatch pre batches)\<rparr>) r,
              s\<lparr>d_db := d\<rparr>))
           (afterAll f minRevision (\<lambda>key. doesEventHavePrefix key pre) scripts (d_db s)))"

section \<open>The whole log\<close>

record walCollector =
  wc_batchEvents :: "RevRecord list"
  wc_records :: "RevRecord list"

definition walCollector_startBatch :: "walCollector \<Rightarrow> walCollector" where
  "walCollector_startBatch c = c\<lparr>wc_batchEvents := []\<rparr>"

definition walCollector_next ::
    "('d, 't) FDB \<Rightarrow> 't \<Rightarrow> iter \<Rightarrow> walCollector \<Rightarrow> (bytes option \<times> bool \<times> 't \<times> iter) res \<times> walCollector" where
  "walCollector_next f t it c =
     (case ByRevision_GetFromIterator f it of
        Err e \<Rightarrow> (Err e, c)
      | Panic p \<Rightarrow> (Panic p, c)
      | Ok (None, it1) \<Rightarrow> (Ok (None, False, t, it1), c)
      | Ok (Some (v, record), it1) \<Rightarrow>
          (Ok (Some (afterKey f v), True, t, it1),
           c\<lparr>wc_batchEvents := wc_batchEvents c @ [\<lparr>rr_Rev = v, rr_Record = record\<rparr>]\<rparr>))"

definition walCollector_endBatch :: "'t \<Rightarrow> bool \<Rightarrow> walCollector \<Rightarrow> 't res \<times> walCollector" where
  "walCollector_endBatch t isLast c = (Ok t, c)"

definition walCollector_postBatch :: "walCollector \<Rightarrow> walCollector" where
  "walCollector_postBatch c = c\<lparr>wc_records := wc_records c @ wc_batchEvents c\<rparr>"

definition walProcessor :: "('d, 't) FDB \<Rightarrow> ('t, iter, walCollector) Processor" where
  "walProcessor f =
     \<lparr>p_streamingMode = StreamingModeIterator, p_snapshotReads = False,
      p_startBatch = walCollector_startBatch, p_next = walCollector_next f,
      p_endBatch = walCollector_endBatch, p_postBatch = walCollector_postBatch\<rparr>"

definition newWalCollector :: walCollector where
  "newWalCollector = \<lparr>wc_batchEvents = [], wc_records = []\<rparr>"

definition ReadWAL ::
    "('d, 't) FDB \<Rightarrow> 'd attempt list list \<Rightarrow> 'd driver \<Rightarrow> (RevRecord list res \<times> 'd driver) option" where
  "ReadWAL f scripts s =
     (let (b, e) = subspace_FDBRangeKeys (f_lib f) (f_byRevision f)
      in map_option (\<lambda>(r, _, d, c). (map_res (\<lambda>_. wc_records c) r, s\<lparr>d_db := d\<rparr>))
           (processRange f (walProcessor f) (FirstGreaterOrEqual b, FirstGreaterOrEqual e) scripts (d_db s) newWalCollector))"

end
