(* ===== verification/FDB_Compact.thy ===== *)
theory FDB_Compact
  imports FDB_Watch
begin

text \<open>
  Compaction (\<^verbatim>\<open>src/pkg/drivers/fdb/fdb_compact.go\<close>): the entries up to a revision that are not the newest
  of their key, and the deletions, are removed from both indexes, batch by batch.
\<close>

record 't compactProcessor =
  cp_batchCompacted :: versionstamp
  cp_lastTr :: "'t option"

definition newCompactProcessor :: "'t compactProcessor" where
  "newCompactProcessor = \<lparr>cp_batchCompacted = zeroVersionstamp, cp_lastTr = None\<rparr>"

definition compactProcessor_startBatch :: "('d, 't) FDB \<Rightarrow> 't compactProcessor \<Rightarrow> 't compactProcessor" where
  "compactProcessor_startBatch f c = c\<lparr>cp_batchCompacted := dummyVersionstamp f\<rparr>"

definition compactProcessor_next ::
    "('d, 't) FDB \<Rightarrow> 't \<Rightarrow> iter \<Rightarrow> 't compactProcessor
     \<Rightarrow> (bytes option \<times> bool \<times> 't \<times> iter) res \<times> 't compactProcessor" where
  "compactProcessor_next f t it c =
     (case ByRevision_GetFromIterator f it of
        Err e \<Rightarrow> (Err e, c)
      | Panic p \<Rightarrow> (Panic p, c)
      | Ok (None, it1) \<Rightarrow> (Ok (None, False, t, it1), c)
      | Ok (Some (v, record), it1) \<Rightarrow>
          (case res_bind (getLast f t (r_Key record)) (\<lambda>lastRecord.
                  case lastRecord of
                    None \<Rightarrow> Panic (RuntimePanic ''nil pointer dereference'')
                  | Some l \<Rightarrow>
                      if kr_Rev (bk_Key l) \<noteq> v \<or> r_IsDelete record
                      then ByRevision_Delete f (ByKeyAndRevision_Delete f \<lparr>kr_Key = r_Key record, kr_Rev = v\<rparr> t) v
                      else Ok t) of
             Err e \<Rightarrow> (Err e, c)
           | Panic p \<Rightarrow> (Panic p, c)
           | Ok t1 \<Rightarrow> (Ok (Some (afterKey f v), True, t1, it1), c\<lparr>cp_batchCompacted := v\<rparr>)))"

text \<open>\<^verbatim>\<open>lastTr\<close> is kept as the transaction is then; what happens to it afterwards is its commit.\<close>

definition compactProcessor_endBatch ::
    "('d, 't) FDB \<Rightarrow> 't \<Rightarrow> bool \<Rightarrow> 't compactProcessor \<Rightarrow> 't res \<times> 't compactProcessor" where
  "compactProcessor_endBatch f t isLast c =
     (let t1 = (if cp_batchCompacted c \<noteq> dummyVersionstamp f then CompactRevision_Write f (cp_batchCompacted c) t else t)
      in (Ok t1, if isLast then c\<lparr>cp_lastTr := Some t1\<rparr> else c))"

definition compactProcessor_postBatch :: "'t compactProcessor \<Rightarrow> 't compactProcessor" where
  "compactProcessor_postBatch c = c"

definition compactRange :: "('d, 't) FDB \<Rightarrow> ('t, iter, 't compactProcessor) Processor" where
  "compactRange f =
     \<lparr>p_streamingMode = StreamingModeIterator, p_snapshotReads = False,
      p_startBatch = compactProcessor_startBatch f, p_next = compactProcessor_next f,
      p_endBatch = compactProcessor_endBatch f, p_postBatch = compactProcessor_postBatch\<rparr>"

definition Compact ::
    "('d, 't) FDB \<Rightarrow> int64 \<Rightarrow> 'd attempt list list \<Rightarrow> 'd driver \<Rightarrow> (int64 res \<times> 'd driver) option" where
  "Compact f endRev scripts s =
     (if UseSequentialId (f_cfg f) then Some (Ok endRev, s)
      else
        let b = FirstGreaterOrEqual (fst (subspace_FDBRangeKeys (f_lib f) (f_byRevision f)));
            e = FirstGreaterThan (subspace_Pack (f_lib f) (f_byRevision f) [TVersionstamp (int64ToVersionstamp endRev)])
        in map_option (\<lambda>(r, st, d, c).
               (res_bind r (\<lambda>_. case cp_lastTr c of
                    None \<Rightarrow> Panic (RuntimePanic ''nil pointer dereference'')
                  | Some t \<Rightarrow> res_of_sum (tr_GetCommittedVersion (f_lib f) st t)),
                s\<lparr>d_db := d\<rparr>))
             (processRange f (compactRange f) (b, e) scripts (d_db s) newCompactProcessor))"

section \<open>Size\<close>

text \<open>\<^verbatim>\<open>DbSize\<close> of \<^verbatim>\<open>fdb.go\<close>: the cluster's estimate for the directory.\<close>

definition DbSize :: "('d, 't) FDB \<Rightarrow> 'd attempt list \<Rightarrow> 'd driver \<Rightarrow> (int64 res \<times> 'd driver) option" where
  "DbSize f script s =
     map_option (\<lambda>(r, _, d, _). (r, s\<lparr>d_db := d\<rparr>))
       (transact f 0 (\<lambda>a t c.
            (map_res (\<lambda>n. (n, t)) (res_of_sum (tr_GetEstimatedRangeSizeBytes (f_lib f) t
               (subspace_FDBRangeKeys (f_lib f) (f_dir f)))), c)) script (d_db s) ())"

end
