(* ===== verification/FDB_TTL.thy ===== *)
theory FDB_TTL
  imports FDB_Watch
begin

text \<open>
  Expiry of leased keys (\<^verbatim>\<open>src/pkg/drivers/fdb/fdb_ttl.go\<close>). The goroutine that reads events and the one
  that deletes expired keys share the map of leases under a lock, so each locked section is one step on
  the map. The delaying queue is a library: what the code adds to it is returned as a list of keys and
  delays. Times and durations are in nanoseconds.
\<close>

record ttlEventKV =
  tk_key :: bytes
  tk_modRevision :: int64
  tk_expiredAt :: int

type_synonym ttl_store = "bytes \<rightharpoonup> ttlEventKV"
type_synonym ttl_actions = "(bytes \<times> int64) list"

definition retryInterval :: int64 where
  "retryInterval = 250 * 1000000"

definition loadTTLEventKV :: "ttl_store \<Rightarrow> bytes \<Rightarrow> ttlEventKV option" where
  "loadTTLEventKV store key = store key"

definition storeTTLEventKV :: "int \<Rightarrow> KeyValue \<Rightarrow> ttl_store \<Rightarrow> int64 \<times> ttl_store" where
  "storeTTLEventKV now kv store =
     (let expires = wrap64 (kv_Lease kv * 1000000000)
      in (expires, store(kv_Key kv \<mapsto> \<lparr>tk_key = kv_Key kv, tk_modRevision = kv_ModRevision kv, tk_expiredAt = now + expires\<rparr>)))"

text \<open>The body of the loop of \<^verbatim>\<open>ttl\<close> for one event.\<close>

definition ttl_event :: "int \<Rightarrow> Event \<Rightarrow> ttl_store \<Rightarrow> ttl_store \<times> ttl_actions" where
  "ttl_event now event store =
     (if ev_Delete event then (store, [])
      else
        let (expires, store1) = storeTTLEventKV now (ev_KV event) store
        in case loadTTLEventKV store (kv_Key (ev_KV event)) of
             None \<Rightarrow> (store1, [(kv_Key (ev_KV event), expires)])
           | Some eventKV \<Rightarrow>
               if kv_ModRevision (ev_KV event) > tk_modRevision eventKV
               then (store1, [(kv_Key (ev_KV event), expires)]) else (store, []))"

text \<open>
  \<^verbatim>\<open>handleTTLEvents\<close> for a key taken from the queue: forget it, put it back, or delete the entry it
  returns.
\<close>

datatype ttl_handling = NotFound | Requeued ttl_actions | Expired ttlEventKV

definition handleTTLEvents :: "int \<Rightarrow> ttl_store \<Rightarrow> bytes \<Rightarrow> ttl_handling" where
  "handleTTLEvents now store key =
     (case loadTTLEventKV store key of
        None \<Rightarrow> NotFound
      | Some eventKV \<Rightarrow>
          if tk_expiredAt eventKV - now > 0 then Requeued [(key, tk_expiredAt eventKV - now)] else Expired eventKV)"

text \<open>\<^verbatim>\<open>deleteTTLEvent\<close> after the call of \<^verbatim>\<open>Delete\<close>, whose error is \<open>err\<close>.\<close>

definition deleteTTLEvent_finish ::
    "int \<Rightarrow> ttlEventKV \<Rightarrow> go_error option \<Rightarrow> ttl_store \<Rightarrow> (ttl_store \<times> ttl_actions) res" where
  "deleteTTLEvent_finish now preEventKV err store =
     (let expires = tk_expiredAt preEventKV - now in
      case store (tk_key preEventKV) of
        None \<Rightarrow> Panic (RuntimePanic ''nil pointer dereference'')
      | Some curEventKV \<Rightarrow>
          if expires > 0 then Ok (store, [(tk_key curEventKV, expires)])
          else if err \<noteq> None then Ok (store, [(tk_key curEventKV, retryInterval)])
          else Ok (store(tk_key curEventKV := None), []))"

text \<open>
  \<^verbatim>\<open>deleteTTLEvent\<close>: \<open>meanwhile\<close> is what the other goroutine does to the map during the call of \<^verbatim>\<open>Delete\<close>, and \<open>now\<close> the time
  after it.
\<close>

definition deleteTTLEvent ::
    "('d, 't) FDB \<Rightarrow> int \<Rightarrow> ttlEventKV \<Rightarrow> bytes \<Rightarrow> 'd attempt list \<Rightarrow> (ttl_store \<Rightarrow> ttl_store) \<Rightarrow> ttl_store \<Rightarrow> 'd driver
     \<Rightarrow> ((ttl_store \<times> ttl_actions) res \<times> 'd driver) option" where
  "deleteTTLEvent f now preEventKV uuid script meanwhile store s =
     (case Delete f (tk_key preEventKV) (tk_modRevision preEventKV) uuid script s of
        None \<Rightarrow> None
      | Some (Panic p, s1) \<Rightarrow> Some (Panic p, s1)
      | Some (Err e, s1) \<Rightarrow> Some (deleteTTLEvent_finish now preEventKV (Some e) (meanwhile store), s1)
      | Some (Ok _, s1) \<Rightarrow> Some (deleteTTLEvent_finish now preEventKV None (meanwhile store), s1))"

section \<open>The events\<close>

text \<open>
  The pages of \<^verbatim>\<open>ttlEvents\<close>: the events of the leased keys, and whether the function goes on to watch.
  A page is the outcome of its list and the records collected.
\<close>

definition ttlPage ::
    "('d, 't) FDB \<Rightarrow> bytes \<Rightarrow> int64 \<Rightarrow> 'd attempt list list \<Rightarrow> 'd \<Rightarrow> (int64 res \<times> RevRecord list \<times> 'd) option" where
  "ttlPage f startKey maxRevision scripts d =
     map_option (\<lambda>(r, d1, c). (r, lc_records c, d1))
       (listWithCollector f (listProcessor f 1000) (str ''/'') startKey maxRevision scripts d
          \<lparr>lc_limit = 1000, lc_keysOnly = True, lc_records = [], lc_batchRecords = []\<rparr>)"

fun leasedEvents :: "('d, 't) FDB \<Rightarrow> RevRecord list \<Rightarrow> Event list res" where
  "leasedEvents f [] = Ok []"
| "leasedEvents f (r # rs) =
     (if r_Lease (rr_Record r) > 0
      then res_bind (revRecordToEvent f r) (\<lambda>ev. map_res (Cons ev) (leasedEvents f rs))
      else leasedEvents f rs)"

fun ttlPages ::
    "('d, 't) FDB \<Rightarrow> int64 \<Rightarrow> 'd attempt list list list \<Rightarrow> int64 res \<Rightarrow> RevRecord list \<Rightarrow> 'd
     \<Rightarrow> ((Event list \<times> bool) res \<times> 'd) option" where
  "ttlPages f first pages r records d =
     (if records = [] then Some (Ok ([], True), d)
      else
        case r of
          Err e \<Rightarrow> Some (Ok ([], False), d)
        | Panic p \<Rightarrow> Some (Panic p, d)
        | Ok _ \<Rightarrow>
            (case leasedEvents f records of
               Err e \<Rightarrow> Some (Err e, d)
             | Panic p \<Rightarrow> Some (Panic p, d)
             | Ok evs \<Rightarrow>
                 (case pages of
                    [] \<Rightarrow> None
                  | page # pages1 \<Rightarrow>
                      (case ttlPage f (r_Key (rr_Record (last records))) first page d of
                         None \<Rightarrow> None
                       | Some (r1, records1, d1) \<Rightarrow>
                           map_option (\<lambda>(x, d2). (map_res (\<lambda>(evs1, go). (evs @ evs1, go)) x, d2))
                             (ttlPages f first pages1 r1 records1 d1)))))"

declare ttlPages.simps [simp del]

text \<open>The revision of a failed list is zero.\<close>

definition res_value :: "int64 res \<Rightarrow> int64" where
  "res_value r = (case r of Ok x \<Rightarrow> x | _ \<Rightarrow> 0)"

definition ttlEvents ::
    "('d, 't) FDB \<Rightarrow> 'd attempt list list \<Rightarrow> 'd attempt list list list \<Rightarrow> 'd attempt list list \<Rightarrow> Event list list \<Rightarrow> 'd driver
     \<Rightarrow> (Event list res \<times> 'd driver) option" where
  "ttlEvents f first pages watchScripts batches s =
     (case ttlPage f [] 0 first (d_db s) of
        None \<Rightarrow> None
      | Some (Panic p, _, d) \<Rightarrow> Some (Panic p, s\<lparr>d_db := d\<rparr>)
      | Some (r, records, d) \<Rightarrow>
          (case ttlPages f (res_value r) pages r records d of
             None \<Rightarrow> None
           | Some (Err e, d1) \<Rightarrow> Some (Err e, s\<lparr>d_db := d1\<rparr>)
           | Some (Panic p, d1) \<Rightarrow> Some (Panic p, s\<lparr>d_db := d1\<rparr>)
           | Some (Ok (evs, False), d1) \<Rightarrow> Some (Ok evs, s\<lparr>d_db := d1\<rparr>)
           | Some (Ok (evs, True), d1) \<Rightarrow>
               map_option (\<lambda>(w, s1).
                   (map_res (\<lambda>wr. evs @ (if wr_CompactRevision wr \<noteq> 0 then []
                      else filter (\<lambda>ev. kv_Lease (ev_KV ev) > 0) (concat (wr_Events wr)))) w, s1))
                 (Watch f (str ''/'') (res_value r) watchScripts batches (s\<lparr>d_db := d1\<rparr>))))"

end
