(* ===== verification/FDB_Start.thy ===== *)
theory FDB_Start
  imports FDB_Compact FDB_TTL
begin

text \<open>
  Starting the driver (\<^verbatim>\<open>Start\<close> and \<^verbatim>\<open>setTLSConfig\<close> of \<^verbatim>\<open>src/pkg/drivers/fdb/fdb.go\<close>). What the process
  environment and the bindings' global functions answer is a record of parameters.
\<close>

record tls_config =
  tls_CertFile :: bytes
  tls_KeyFile :: bytes
  tls_CAFile :: bytes
  tls_SkipVerify :: bool

datatype tls_option = SetTLSCertPath | SetTLSKeyPath | SetTLSCaPath | SetTLSVerifyPeers

text \<open>\<open>setter\<close>: the error, if any, of a global option setter. The options set so far are returned with the outcome.\<close>

definition setTLSConfig ::
    "(tls_option \<Rightarrow> bytes \<Rightarrow> go_error option) \<Rightarrow> tls_config \<Rightarrow> ((tls_option \<times> bytes) list \<times> go_error option)" where
  "setTLSConfig setter tls =
     foldl (\<lambda>(done, err) (needed, opt, arg).
         if err \<noteq> None \<or> \<not> needed then (done, err)
         else (case setter opt arg of None \<Rightarrow> (done @ [(opt, arg)], None) | Some e \<Rightarrow> (done, Some e)))
       ([], None)
       [(tls_CertFile tls \<noteq> [], SetTLSCertPath, tls_CertFile tls),
        (tls_KeyFile tls \<noteq> [], SetTLSKeyPath, tls_KeyFile tls),
        (tls_CAFile tls \<noteq> [], SetTLSCaPath, tls_CAFile tls),
        (tls_SkipVerify tls, SetTLSVerifyPeers, str ''Check.Valid=0'')]"

record 'd start_env =
  se_logFDBTraces :: "go_error option"
  se_setOption :: "tls_option \<Rightarrow> bytes \<Rightarrow> go_error option"
  se_OpenWithConnectionString :: "bytes \<Rightarrow> go_error + 'd"
  se_OpenDefault :: "go_error + 'd"
  se_SetTransactionTimeout :: "go_error option"
  se_CreateOrOpen :: "'d \<Rightarrow> go_error + (bytes \<times> 'd)"

definition healthKey :: bytes where
  "healthKey = str ''/registry/health''"

definition healthValue :: bytes where
  "healthValue = str ''{\"health\":\"true\"}''"

definition cleanDirectory :: "('d, 't) FDB \<Rightarrow> 'd attempt list \<Rightarrow> 'd \<Rightarrow> (unit res \<times> 'd) option" where
  "cleanDirectory f script d =
     map_option (\<lambda>(r, _, d1, _). (r, d1))
       (transact f () (\<lambda>a t c.
            (let (b, e) = subspace_FDBRangeKeys (f_lib f) (f_dir f) in (Ok ((), tr_ClearRange (f_lib f) b e t), c)))
          script d ())"

text \<open>
  \<^verbatim>\<open>Start\<close> up to the goroutine of \<^verbatim>\<open>ttl\<close>: the driver's static state and its mutable one. A failure to create
  the health key is only logged.
\<close>

definition Start ::
    "('d, 't) fdb_lib \<Rightarrow> config \<Rightarrow> 'd start_env \<Rightarrow> tls_config \<Rightarrow> bytes \<Rightarrow> bytes \<Rightarrow> 'd attempt list \<Rightarrow> 'd attempt list
     \<Rightarrow> ((('d, 't) FDB \<times> 'd driver) res) option" where
  "Start L cfg env tls connectionString uuid cleanScript healthScript =
     (case se_logFDBTraces env of
        Some e \<Rightarrow> Some (Err e)
      | None \<Rightarrow>
     (case snd (setTLSConfig (se_setOption env) tls) of
        Some e \<Rightarrow> Some (Err e)
      | None \<Rightarrow>
     (case (if connectionString \<noteq> [] then se_OpenWithConnectionString env connectionString else se_OpenDefault env) of
        Inl e \<Rightarrow> Some (Err e)
      | Inr d \<Rightarrow>
     (case se_SetTransactionTimeout env of
        Some e \<Rightarrow> Some (Err e)
      | None \<Rightarrow>
     (case se_CreateOrOpen env d of
        Inl e \<Rightarrow> Some (Err e)
      | Inr (dir, d1) \<Rightarrow>
          let f = openSubspaces L cfg dir
          in (case (if CleanDirOnStart cfg then cleanDirectory f cleanScript d1 else Some (Ok (), d1)) of
                None \<Rightarrow> None
              | Some (Err e, _) \<Rightarrow> Some (Err e)
              | Some (Panic p, _) \<Rightarrow> Some (Panic p)
              | Some (Ok _, d2) \<Rightarrow>
                  let s = NewFDB d2
                  in if APITest cfg then Some (Ok (f, s))
                     else
                       (case Create f healthKey healthValue 0 uuid healthScript s of
                          None \<Rightarrow> None
                        | Some (Panic p, _) \<Rightarrow> Some (Panic p)
                        | Some (_, s1) \<Rightarrow> Some (Ok (f, s1)))))))))"

end
