(* ===== verification/FDB_MVCC.thy ===== *)
theory FDB_MVCC
  imports FDB_Write
begin

text \<open>
  The contract of the write path: a multi-version history that each successful write extends by
  one entry. The abstract operations of this theory say which entry and which answer; the lemmas
  show that the transactions of \<^verbatim>\<open>fdb_write.go\<close> implement them on the layout.
\<close>

section \<open>The abstract operations\<close>

definition new_revision :: "bytes \<Rightarrow> versionstamp" where
  "new_revision st = \<lparr>TransactionVersion = st, UserVersion = 0\<rparr>"

text \<open>A stamp the cluster may assign next: a revision above every revision of the history.\<close>

definition fresh_stamp :: "entry list \<Rightarrow> bytes \<Rightarrow> bool" where
  "fresh_stamp h st \<longleftrightarrow> revision_stamp st \<and> (\<forall>e\<in>set h. vs_key (fst e) < vs_key (new_revision st))"

text \<open>The keys of a write fit in what \<^verbatim>\<open>PackWithVersionstamp\<close> accepts.\<close>

definition writable :: "('d, 't) FDB \<Rightarrow> bytes \<Rightarrow> bytes \<Rightarrow> bool" where
  "writable f key val \<longleftrightarrow>
     (let fits = (\<lambda>p t. case subspace_PackWithVersionstamp (f_lib f) p t of Inl _ \<Rightarrow> False | Inr _ \<Rightarrow> True);
          inc = TVersionstamp (IncompleteVersionstamp (f_lib f) 0)
      in fits (f_byRevision f) [inc] \<and> fits (f_byKeyAndRevision f) [TString key, inc] \<and>
         list_all (\<lambda>i. fits (f_byRevision f) [inc, TInt (int (i * chunkSize))]) [0..<nchunks val])"

lemma fits_iff: "(case x of Inl _ \<Rightarrow> False | Inr _ \<Rightarrow> True) \<longleftrightarrow> (\<exists>k. x = Inr k)"
  by (cases x) auto

text \<open>The size \<^verbatim>\<open>append\<close> is told the current value has.\<close>

definition current_size :: "entry list \<Rightarrow> bytes \<Rightarrow> nat" where
  "current_size h key =
     (case last_entry h key of
        None \<Rightarrow> 0 | Some e \<Rightarrow> if r_IsDelete (snd e) then 0 else length (r_Value (snd e)))"

definition current_value :: "entry list \<Rightarrow> bytes \<Rightarrow> bytes" where
  "current_value h key =
     (case last_entry h key of
        None \<Rightarrow> [] | Some e \<Rightarrow> if r_IsDelete (snd e) then [] else r_Value (snd e))"

text \<open>The \<^verbatim>\<open>int64\<close> of a revision.\<close>

definition rev_int :: "versionstamp \<Rightarrow> int64" where
  "rev_int v = int (be_nat (take 8 (TransactionVersion v)))"

definition input_ok :: "bytes \<Rightarrow> bytes \<Rightarrow> int64 \<Rightarrow> bool" where
  "input_ok key val lease \<longleftrightarrow>
     0 \<notin> set key \<and> length val \<le> maxRecordSize \<and> - (2 ^ 63) \<le> lease \<and> lease < 2 ^ 63"

text \<open>The records the three writes append to a history, if they append one.\<close>

definition mvcc_create ::
    "('d, 't) FDB \<Rightarrow> bytes \<Rightarrow> bytes \<Rightarrow> int64 \<Rightarrow> bytes \<Rightarrow> entry list \<Rightarrow> Record option" where
  "mvcc_create f key val lease uuid h =
     (let r = \<lparr>r_Key = key, r_IsDelete = False, r_IsCreate = True, r_Lease = lease,
               r_CreateRevision = dummyVersionstamp f, r_PrevRevision = dummyVersionstamp f,
               r_ValueSize = int (length val), r_WriteUUID = uuid, r_Value = val, r_LatestForKey = False\<rparr>
      in case last_entry h key of
           None \<Rightarrow> Some r
         | Some e \<Rightarrow> if r_IsDelete (snd e) then Some (r\<lparr>r_PrevRevision := fst e\<rparr>) else None)"

definition create_revision :: "entry \<Rightarrow> versionstamp" where
  "create_revision e = (if r_IsCreate (snd e) then fst e else r_CreateRevision (snd e))"

definition mvcc_update ::
    "bytes \<Rightarrow> bytes \<Rightarrow> int64 \<Rightarrow> int64 \<Rightarrow> bytes \<Rightarrow> entry list \<Rightarrow> Record option" where
  "mvcc_update key val revision lease uuid h =
     (case last_entry h key of
        None \<Rightarrow> None
      | Some e \<Rightarrow>
          if r_IsDelete (snd e) \<or> rev_int (fst e) \<noteq> revision then None
          else Some \<lparr>r_Key = key, r_IsDelete = False, r_IsCreate = False, r_Lease = lease,
                     r_CreateRevision = create_revision e, r_PrevRevision = fst e,
                     r_ValueSize = int (length val), r_WriteUUID = uuid, r_Value = val, r_LatestForKey = False\<rparr>)"

definition mvcc_delete :: "bytes \<Rightarrow> int64 \<Rightarrow> bytes \<Rightarrow> entry list \<Rightarrow> Record option" where
  "mvcc_delete key revision uuid h =
     (case last_entry h key of
        None \<Rightarrow> None
      | Some e \<Rightarrow>
          if r_IsDelete (snd e) \<or> revision \<noteq> 0 \<and> rev_int (fst e) \<noteq> revision then None
          else Some ((snd e)\<lparr>r_IsDelete := True, r_IsCreate := False, r_CreateRevision := create_revision e,
                     r_PrevRevision := fst e, r_WriteUUID := uuid, r_LatestForKey := False\<rparr>))"

text \<open>What kine is told of an entry.\<close>

definition entry_kv :: "('d, 't) FDB \<Rightarrow> entry \<Rightarrow> KeyValue" where
  "entry_kv f e =
     \<lparr>kv_Key = r_Key (snd e), kv_CreateRevision = rev_int (create_revision e), kv_ModRevision = rev_int (fst e),
      kv_Lease = r_Lease (snd e),
      kv_Value = (if APITest (f_cfg f) \<and> r_IsDelete (snd e) then [] else r_Value (snd e))\<rparr>"

definition entry_event :: "('d, 't) FDB \<Rightarrow> entry \<Rightarrow> Event" where
  "entry_event f e =
     \<lparr>ev_Create = r_IsCreate (snd e), ev_Delete = r_IsDelete (snd e), ev_KV = entry_kv f e,
      ev_PrevKV = (if r_PrevRevision (snd e) = dummyVersionstamp f then None
                   else Some (zeroKeyValue\<lparr>kv_ModRevision := rev_int (r_PrevRevision (snd e))\<rparr>))\<rparr>"

lemma revision_int64:
  assumes "is_revision v"
  shows "v = int64ToVersionstamp (rev_int v)" "0 \<le> rev_int v" "rev_int v < 2 ^ 63"
proof -
  have "v = \<lparr>TransactionVersion = TransactionVersion v, UserVersion = 0\<rparr>"
    using assms by (simp add: is_revision_def)
  also have "\<dots> = int64ToVersionstamp (rev_int v)"
    unfolding rev_int_def using assms by (intro revision_stamp_roundtrip) (simp add: is_revision_def)
  finally show "v = int64ToVersionstamp (rev_int v)" .
  show "0 \<le> rev_int v" "rev_int v < 2 ^ 63"
    using assms by (simp_all add: is_revision_def revision_stamp_def rev_int_def)
qed

lemma VersionstampToInt64_revision: "is_revision v \<Longrightarrow> VersionstampToInt64 v = Ok (rev_int v)"
  using revision_int64 [of v] VersionstampToInt64_int64ToVersionstamp [of "rev_int v"] by simp

lemma rev_int_less_iff:
  assumes "is_revision v" "is_revision w"
  shows "vs_key v < vs_key w \<longleftrightarrow> rev_int v < rev_int w"
  using int64ToVersionstamp_less_iff [of "rev_int v" "rev_int w"] revision_int64 [OF assms(1)] revision_int64 [OF assms(2)]
  by metis

lemma is_revision_elem_ok: "is_revision v \<Longrightarrow> elem_ok (TVersionstamp v)"
proof -
  have "drop 8 (replicate 10 255) \<noteq> ([0, 0] :: bytes)" by code_simp
  then show "is_revision v \<Longrightarrow> elem_ok (TVersionstamp v)"
    by (auto simp: is_revision_def revision_stamp_def vs_wf_def vs_incomplete_def simp del: drop_replicate)
qed

lemma is_revision_new: "fresh_stamp h st \<Longrightarrow> is_revision (new_revision st)"
  by (simp add: fresh_stamp_def new_revision_def is_revision_def)

lemma length_current_value: "length (current_value h key) = current_size h key"
  by (simp add: current_value_def current_size_def split: option.split)

context fdb_driver
begin

section \<open>The effect of append\<close>

lemma watch_not_prefix:
  assumes "p = f_byRevision f \<or> p = f_byKeyAndRevision f \<or> p = f_byKeyCurrent f" "prefix p k"
  shows "k \<noteq> f_watch f"
proof
  assume k: "k = f_watch f"
  have "prefix (f_watch f) k" by (simp add: k)
  moreover have "\<not> prefix (dir @ tuple_Pack L [TString (str ''watch'')]) k"
    if "s \<in> {str ''byRevision'', str ''byKeyAndRevision'', str ''byKeyCurrent''}"
      "prefix (dir @ tuple_Pack L [TString s]) k" for s
    by (rule subspace_disjoint [OF _ _ _ that(2)]) (use that(1) in \<open>auto simp: str_def\<close>)
  ultimately show False using assms by auto
qed

lemma subspaces_disjoint:
  "prefix (f_byRevision f) k \<Longrightarrow> \<not> prefix (f_byKeyAndRevision f) k"
  "prefix (f_byRevision f) k \<Longrightarrow> \<not> prefix (f_byKeyCurrent f) k"
  "prefix (f_byKeyAndRevision f) k \<Longrightarrow> \<not> prefix (f_byRevision f) k"
  "prefix (f_byKeyAndRevision f) k \<Longrightarrow> \<not> prefix (f_byKeyCurrent f) k"
  "prefix (f_byKeyCurrent f) k \<Longrightarrow> \<not> prefix (f_byRevision f) k"
  "prefix (f_byKeyCurrent f) k \<Longrightarrow> \<not> prefix (f_byKeyAndRevision f) k"
  unfolding driver_simps by (erule subspace_disjoint [rotated 3]; simp add: str_def)+

lemma Watch_Write_effect:
  "k \<noteq> f_watch f \<Longrightarrow> tr_view L (Watch_Write f t) k = tr_view L t k"
  "tr_pending L (Watch_Write f t) = tr_pending L t" "tr_alive L (Watch_Write f t) = tr_alive L t"
  using add_view [of "f_watch f" "[1]" t] by (auto simp: Watch_Write_def add_frame simp del: driver_simps(6))

text \<open>The current value step of \<^verbatim>\<open>append\<close>.\<close>

lemma append_current_effect:
  assumes rep: "represents f (tr_view L t) h" and "length (r_Value r) < 2 ^ 62"
    and prev: "\<not> r_IsDelete r \<longrightarrow> prev = int (current_size h (r_Key r))"
  shows "\<exists>t'. (if r_IsDelete r then ByKeyCurrent_Clear f (r_Key r) t
      else ByKeyCurrent_Replace f (r_Key r) (r_Value r) prev t) = Ok t' \<and>
    tr_view L t' = (\<lambda>k. if prefix (f_byKeyCurrent f @ tuple_Pack L [TString (r_Key r)]) k
      then if r_IsDelete r then None else map_of (current_kvs L (f_byKeyCurrent f) (r_Key r, r_Value r)) k
      else tr_view L t k) \<and>
    tr_pending L t' = tr_pending L t \<and> tr_alive L t' = tr_alive L t"
proof (cases "r_IsDelete r")
  case True
  with ByKeyCurrent_Clear_effect [of "r_Key r" t] show ?thesis by (simp del: driver_simps(5) cong: if_cong)
next
  case False
  let ?old = "current_value h (r_Key r)"
  have "tr_view L t k = map_of (chunk_kvs L (f_byKeyCurrent f) [TString (r_Key r)] ?old) k"
    if "prefix (f_byKeyCurrent f @ tuple_Pack L [TString (r_Key r)]) k" for k
    using represents_current [OF rep that]
    by (auto simp: current_value_def current_kvs_def chunk_kvs_def split: option.split simp del: driver_simps(5))
  moreover have "length ?old < 2 ^ 62"
    using rep last_entry_Some by (fastforce simp: represents_def entry_ok_def current_value_def split: option.split)
  ultimately show ?thesis
    using ByKeyCurrent_Replace_effect [of "r_Key r" t ?old "r_Value r"] assms(2) False prev
    by (simp add: length_current_value current_kvs_def del: driver_simps(5) cong: if_cong)
qed

text \<open>What \<^verbatim>\<open>append\<close> leaves once the transaction commits with stamp \<open>st\<close>.\<close>

lemma append_committed:
  fixes uuid rec0 st
  defines "e \<equiv> (new_revision st, rec0\<lparr>r_WriteUUID := uuid\<rparr>)"
  assumes mode: "\<not> UseSequentialId cfg" and st: "length st = 10"
    and rep: "represents f (tr_view L t) h" and clean: "tr_pending L t = []"
    and wfe: "entry_wf e" and small: "length (r_Value rec0) < 2 ^ 62"
    and prev: "\<not> r_IsDelete rec0 \<longrightarrow> prev = int (current_size h (r_Key rec0))"
    and ok: "FDB_append f uuid rec0 prev t = Ok (kf, t')"
  shows "kf = TrVersionstamp"
    and "\<exists>m. committed L st t' = upd_all [index_kv L (f_byKeyAndRevision f) e] (upd_all (rev_kvs L (f_byRevision f) e) m) \<and>
      (\<forall>k. prefix (f_byRevision f) k \<or> prefix (f_byKeyAndRevision f) k \<or> prefix (f_byKeyCurrent f) k \<longrightarrow>
        m k = (if prefix (f_byKeyCurrent f @ tuple_Pack L [TString (r_Key rec0)]) k then if r_IsDelete rec0 then None
          else map_of (current_kvs L (f_byKeyCurrent f) (r_Key rec0, r_Value rec0)) k else tr_view L t k))"
proof -
  let ?kvs = "rev_kvs L (f_byRevision f) e" and ?ix = "index_kv L (f_byKeyAndRevision f) e"
  define r where "r = rec0\<lparr>r_WriteUUID := uuid\<rparr>"
  have e: "e = (new_revision st, r)" by (simp add: e_def r_def)
  have fld: "r_Key r = r_Key rec0" "r_Value r = r_Value rec0" "r_IsDelete r = r_IsDelete rec0"
    by (simp_all add: r_def)
  from ok mode obtain t2 t3 t4 where
    kf: "kf = TrVersionstamp" and t': "t' = Watch_Write f t4" and
    t2: "ByRevision_Write f (IncompleteVersionstamp L 0) r t = Ok t2" and
    t3: "ByKeyAndRevision_Write f \<lparr>kr_Key = r_Key r, kr_Rev = IncompleteVersionstamp L 0\<rparr> r t2 = Ok t3" and
    t4: "(if r_IsDelete r then ByKeyCurrent_Clear f (r_Key r) t3
      else ByKeyCurrent_Replace f (r_Key r) (r_Value r) prev t3) = Ok t4"
    by (auto simp: FDB_append_def RevisionSubspace_IncrementAndGet_def go_simps Let_def r_def [symmetric])
  show "kf = TrVersionstamp" by (rule kf)
  note e2 = ByRevision_Write_effect [OF mode st t2, folded new_revision_def e]
  note e3 = ByKeyAndRevision_Write_effect [OF mode st t3, folded new_revision_def e]
  have "tr_view L t3 = tr_view L t" using e2 e3 by simp
  with append_current_effect [of t3 h r prev] rep small prev t4 fld have
    view4: "tr_view L t4 = (\<lambda>k. if prefix (f_byKeyCurrent f @ tuple_Pack L [TString (r_Key r)]) k
        then if r_IsDelete r then None
        else map_of (current_kvs L (f_byKeyCurrent f) (r_Key r, r_Value r)) k else tr_view L t k)"
      and pend4: "tr_pending L t4 = tr_pending L t3"
    by auto
  have stamped: "stamped L st t' = (tl ?kvs @ [hd ?kvs]) @ [?ix]"
    using e2(1) e3(1) pend4 clean by (simp add: t' stamped_def Watch_Write_effect Let_def del: driver_simps(3,4))
  have rot: "upd_all (tl ?kvs @ [hd ?kvs]) m = upd_all ?kvs m" for m
    using upd_all_rotate [of "hd ?kvs" "tl ?kvs" m] sorted_keys_distinct [OF rev_kvs_sorted [OF wfe]]
    by (simp add: rev_kvs_def del: driver_simps(3))
  have "committed L st t' = upd_all [?ix] (upd_all ?kvs (tr_view L t'))"
    by (simp only: committed_eq stamped upd_all_append [of "tl ?kvs @ [hd ?kvs]" "[?ix]"] rot)
  moreover have "tr_view L t' k = tr_view L t4 k"
    if "prefix (f_byRevision f) k \<or> prefix (f_byKeyAndRevision f) k \<or> prefix (f_byKeyCurrent f) k" for k
    using that watch_not_prefix Watch_Write_effect(1) t' by metis
  ultimately show "\<exists>m. committed L st t' = upd_all [?ix] (upd_all ?kvs m) \<and>
      (\<forall>k. prefix (f_byRevision f) k \<or> prefix (f_byKeyAndRevision f) k \<or> prefix (f_byKeyCurrent f) k \<longrightarrow>
        m k = (if prefix (f_byKeyCurrent f @ tuple_Pack L [TString (r_Key rec0)]) k then if r_IsDelete rec0 then None
          else map_of (current_kvs L (f_byKeyCurrent f) (r_Key rec0, r_Value rec0)) k else tr_view L t k))"
    unfolding view4 fld by (intro exI conjI) auto
qed

lemma upd_all_cong_at: "m k = m' k \<Longrightarrow> upd_all kvs m k = upd_all kvs m' k"
  by (cases "k \<in> fst ` set kvs") (metis upd_all_in, simp add: upd_all_notin)

lemma append_effect:
  fixes uuid rec0 st
  defines "e \<equiv> (new_revision st, rec0\<lparr>r_WriteUUID := uuid\<rparr>)"
  assumes mode: "\<not> UseSequentialId cfg" and st: "length st = 10"
    and rep: "represents f (tr_view L t) h" and clean: "tr_pending L t = []"
    and wf: "hist_wf (h @ [e])"
    and small: "entry_ok L e"
    and prev: "\<not> r_IsDelete rec0 \<longrightarrow> prev = int (current_size h (r_Key rec0))"
    and ok: "FDB_append f uuid rec0 prev t = Ok (kf, t')"
  shows "kf = TrVersionstamp" and "represents f (committed L st t') (h @ [e])"
proof -
  let ?kvs = "rev_kvs L (f_byRevision f) e" and ?ix = "index_kv L (f_byKeyAndRevision f) e"
  have wfe: "entry_wf e" using wf by (simp add: hist_wf_def)
  have len: "length (r_Value rec0) < 2 ^ 62" using small by (simp add: entry_ok_def e_def)
  note com = append_committed [OF mode st rep clean wfe [unfolded e_def] len prev ok, folded e_def]
  show "kf = TrVersionstamp" by (rule com(1))
  have fld: "r_Key (snd e) = r_Key rec0" "r_Value (snd e) = r_Value rec0" "r_IsDelete (snd e) = r_IsDelete rec0"
    by (simp_all add: e_def)
  from com(2) obtain m where com: "committed L st t' = upd_all [?ix] (upd_all ?kvs m)"
    and m: "\<forall>k. prefix (f_byRevision f) k \<or> prefix (f_byKeyAndRevision f) k \<or> prefix (f_byKeyCurrent f) k \<longrightarrow>
        m k = (if prefix (f_byKeyCurrent f @ tuple_Pack L [TString (r_Key rec0)]) k then if r_IsDelete rec0 then None
          else map_of (current_kvs L (f_byKeyCurrent f) (r_Key rec0, r_Value rec0)) k else tr_view L t k)"
    by (elim exE conjE)
  have k1: "prefix (f_byRevision f) k" if "k \<in> fst ` set ?kvs" for k
    using that subspace_keys(1) [OF wfe] by blast
  have k2: "prefix (f_byKeyAndRevision f) (fst ?ix)" by (rule subspace_keys)
  have q: "\<not> prefix (f_byKeyCurrent f @ s) k" if "\<not> prefix (f_byKeyCurrent f) k" for k s
    using that by (meson append_prefixD)
  show "represents f (committed L st t') (h @ [e])"
  proof (rule represents_append [OF rep wf small])
    fix k
    show "committed L st t' k = upd_all ?kvs (tr_view L t) k" if k: "prefix (f_byRevision f) k"
    proof -
      have "k \<noteq> fst ?ix" using subspaces_disjoint(1) [OF k] k2 by metis
      moreover have "m k = tr_view L t k"
        using m [rule_format, of k] k q [OF subspaces_disjoint(2) [OF k]] by (simp del: driver_simps)
      ultimately show ?thesis 
        using upd_all_cong_at [of m k "tr_view L t" ?kvs] by (simp add: com del: driver_simps)
    qed
    show "committed L st t' k = upd_all [?ix] (tr_view L t) k" if k: "prefix (f_byKeyAndRevision f) k"
    proof -
      have "k \<notin> fst ` set ?kvs" using subspaces_disjoint(3) [OF k] k1 by metis
      moreover have "m k = tr_view L t k"
        using m [rule_format, of k] k q [OF subspaces_disjoint(4) [OF k]] by (simp del: driver_simps)
      ultimately show ?thesis by (simp add: com upd_all_notin del: driver_simps)
    qed
    show "committed L st t' k = (if prefix (f_byKeyCurrent f @ tuple_Pack L [TString (r_Key (snd e))]) k
        then if r_IsDelete (snd e) then None
          else map_of (current_kvs L (f_byKeyCurrent f) (r_Key (snd e), r_Value (snd e))) k
        else tr_view L t k)" if k: "prefix (f_byKeyCurrent f) k"
    proof -
      have "k \<notin> fst ` set ?kvs" "k \<noteq> fst ?ix"
        using subspaces_disjoint(5,6) [OF k] k1 k2 by metis+
      then show ?thesis using m [rule_format, of k] k by (simp add: com upd_all_notin fld del: driver_simps)
    qed
  qed
qed

text \<open>When the keys fit, \<^verbatim>\<open>append\<close> succeeds.\<close>

lemma nchunks_step: "j * chunkSize < length val \<Longrightarrow> j < nchunks val"
proof -
  assume "j * chunkSize < length val"
  then have "(j + 1) * chunkSize \<le> length val + chunkSize - 1" by simp
  then have "j + 1 \<le> (length val + chunkSize - 1) div chunkSize"
    using chunkSize_pos by (simp only: less_eq_div_iff_mult_less_eq)
  then show ?thesis by (simp add: nchunks_def)
qed

lemma writeBlob_from_ok:
  assumes "\<not> UseSequentialId cfg"
    and "\<And>i. i < nchunks val \<Longrightarrow> \<exists>k. subspace_PackWithVersionstamp L (f_byRevision f)
      [TVersionstamp v, TInt (int (i * chunkSize))] = Inr k"
  shows "\<exists>t'. ByRevision_writeBlob_from f v val (j * chunkSize) t = Ok t'"
proof (induction "length val - j * chunkSize" arbitrary: j t rule: less_induct)
  case less
  show ?case
  proof (cases "j * chunkSize < length val")
    case False
    then show ?thesis by (simp add: ByRevision_writeBlob_from.simps)
  next
    case True
    from assms(2) [OF nchunks_step [OF True]] obtain k where
      k: "subspace_PackWithVersionstamp L (f_byRevision f) [TVersionstamp v, TInt (int (j * chunkSize))] = Inr k" ..
    have "length val - (j + 1) * chunkSize < length val - j * chunkSize" using True chunkSize_pos by simp
    from less.hyps [OF this] show ?thesis
      using True k assms(1) by (subst ByRevision_writeBlob_from.simps)
        (simp add: GetWriteOps_def Let_def add.commute del: driver_simps(3) of_nat_mult)
  qed
qed

lemma append_ok:
  assumes mode: "\<not> UseSequentialId cfg" and rep: "represents f (tr_view L t) h"
    and "writable f (r_Key rec0) (r_Value rec0)" and small: "length (r_Value rec0) < 2 ^ 62"
    and prev: "\<not> r_IsDelete rec0 \<longrightarrow> prev = int (current_size h (r_Key rec0))"
  shows "\<exists>kf t'. FDB_append f uuid rec0 prev t = Ok (kf, t')"
proof -
  let ?r = "rec0\<lparr>r_WriteUUID := uuid\<rparr>" and ?v = "IncompleteVersionstamp L 0"
  from assms(3) obtain k1 k2 where
    k1: "subspace_PackWithVersionstamp L (f_byRevision f) [TVersionstamp ?v] = Inr k1" and
    k2: "subspace_PackWithVersionstamp L (f_byKeyAndRevision f) [TString (r_Key rec0), TVersionstamp ?v] = Inr k2" and
    k3: "\<And>i. i < nchunks (r_Value rec0) \<Longrightarrow> \<exists>k. subspace_PackWithVersionstamp L (f_byRevision f)
      [TVersionstamp ?v, TInt (int (i * chunkSize))] = Inr k"
    by (auto simp: writable_def Let_def list_all_iff fits_iff simp del: driver_simps(3,4) of_nat_mult)
  from writeBlob_from_ok [OF mode k3, where j = 0 and t = t] obtain t1 where
    t1: "ByRevision_writeBlob_from f ?v (r_Value rec0) 0 t = Ok t1" by auto
  let ?t2 = "tr_SetVersionstampedKey L k1 (tuple_Pack L (ByRevision_recordToTuple ?r)) t1"
  let ?t3 = "tr_SetVersionstampedKey L k2 (tuple_Pack L (ByKeyAndRevision_recordToTuple ?r)) ?t2"
  have w2: "ByRevision_Write f ?v ?r t = Ok ?t2"
    using t1 k1 mode by (simp add: ByRevision_Write_def ByRevision_writeBlob_def GetWriteOps_def del: driver_simps(3))
  have w3: "ByKeyAndRevision_Write f \<lparr>kr_Key = r_Key rec0, kr_Rev = ?v\<rparr> ?r ?t2 = Ok ?t3"
    using k2 mode by (simp add: ByKeyAndRevision_Write_def GetWriteOps_def del: driver_simps(4))
  have len: "length (replicate 10 (0::byte)) = 10" by simp
  have "tr_view L ?t3 = tr_view L t"
    using ByRevision_Write_effect(2) [OF mode len w2] by (simp add: frame_simps)
  then obtain t4 where "(if r_IsDelete ?r then ByKeyCurrent_Clear f (r_Key ?r) ?t3
      else ByKeyCurrent_Replace f (r_Key ?r) (r_Value ?r) prev ?t3) = Ok t4"
    using append_current_effect [of ?t3 h ?r prev] rep small prev by auto
  with w2 w3 mode show ?thesis
    by (simp add: FDB_append_def RevisionSubspace_IncrementAndGet_def Let_def)
qed

section \<open>Reading the newest entry of a key\<close>

lemma last_limited: "limited \<lparr>ro_Limit = 1, ro_Mode = md, ro_Reverse = True\<rparr> xs = (if xs = [] then [] else [last xs])"
  by (cases xs rule: rev_cases) (simp_all add: limited_def)

lemma index_range:
  assumes "represents f m h" "finite (dom m)"
  shows "limited \<lparr>ro_Limit = 1, ro_Mode = md, ro_Reverse = True\<rparr>
      (sel_range m (FirstGreaterOrEqual ((f_byKeyAndRevision f @ tuple_Pack L [TString key]) @ [0]))
        (FirstGreaterOrEqual ((f_byKeyAndRevision f @ tuple_Pack L [TString key]) @ [255])))
    = (case last_entry h key of None \<Rightarrow> [] | Some e \<Rightarrow> [index_kv L (f_byKeyAndRevision f) e])"
proof -
  let ?es = "filter (\<lambda>e. r_Key (snd e) = key) h"
  have "sel_range m (FirstGreaterOrEqual ((f_byKeyAndRevision f @ tuple_Pack L [TString key]) @ [0]))
        (FirstGreaterOrEqual ((f_byKeyAndRevision f @ tuple_Pack L [TString key]) @ [255]))
      = map (index_kv L (f_byKeyAndRevision f)) ?es"
    using index_range_list [OF _ assms(2), of h "f_byKeyAndRevision f" key] assms(1)
    by (simp add: represents_def sel_range_def del: driver_simps(4) append_assoc)
  then show ?thesis
    by (simp add: last_limited last_entry_def last_map Let_def del: driver_simps(4) One_nat_def append_assoc)
qed

lemma represents_last_wf:
  assumes "represents f m h" "last_entry h key = Some e"
  shows "entry_wf e" "r_Key (snd e) = key" "e \<in> set h"
  using assms last_entry_Some [OF assms(2)] by (auto simp: represents_def hist_wf_def)

text \<open>On a live transaction \<^verbatim>\<open>getLast\<close> returns the newest entry; on any transaction it returns it or an error.\<close>

lemma getLast_alive:
  assumes "represents f (tr_view L t) h" "tr_pending L t = []" "tr_alive L t"
  shows "getLast f t key = Ok (map_option index_record (last_entry h key))"
  using assms(1) represents_last_wf [OF assms(1)]
  by (auto simp: getLast_def range_keys_eq sub_eq range_alive [OF assms(2,3)] index_range [OF assms(1) finite_view]
      it_Advance_def ByKeyAndRevision_GetFromIterator_index_kv Let_def split: option.split
      simp del: driver_simps(4) One_nat_def append_assoc)

lemma truncated_single:
  assumes "it = map Inr [x] \<or> (\<exists>n err. it = map Inr (take n [x]) @ [Inl err])"
  shows "(\<exists>r. it = Inr x # r) \<or> (\<exists>err. it = [Inl err])"
proof -
  have "take n [x] = [] \<or> take n [x] = [x]" for n by (cases n) auto
  with assms show ?thesis by (metis append_Cons append_Nil list.simps(8,9))
qed

lemma getLast_sound:
  assumes "represents f (tr_view L t) h" "tr_pending L t = []"
  shows "getLast f t key = Ok (map_option index_record (last_entry h key)) \<or> (\<exists>e. getLast f t key = Err e)"
proof -
  let ?xs = "case last_entry h key of None \<Rightarrow> [] | Some e \<Rightarrow> [index_kv L (f_byKeyAndRevision f) e]"
  let ?b = "FirstGreaterOrEqual ((f_byKeyAndRevision f @ tuple_Pack L [TString key]) @ [0])"
  let ?e = "FirstGreaterOrEqual ((f_byKeyAndRevision f @ tuple_Pack L [TString key]) @ [255])"
  let ?o = "\<lparr>ro_Limit = 1, ro_Mode = StreamingModeExact, ro_Reverse = True\<rparr>"
  let ?it = "tr_GetRange L False t ?b ?e ?o"
  have it: "?it = map Inr ?xs \<or> (\<exists>n err. ?it = map Inr (take n ?xs) @ [Inl err])"
    using range_sound [OF assms(2), of ?o ?b ?e False] index_range [OF assms(1) finite_view]
    by (simp add: Let_def del: driver_simps(4) One_nat_def append_assoc)
  have last: "getLast f t key = (if ?it = [] then Ok None else map_res fst (ByKeyAndRevision_GetFromIterator f ?it))"
    by (simp add: getLast_def range_keys_eq sub_eq it_Advance_def Let_def del: driver_simps(4) One_nat_def append_assoc)
  have err: "map_res fst (ByKeyAndRevision_GetFromIterator f (Inl e # it)) = Err e" for e it
    by (simp add: ByKeyAndRevision_GetFromIterator_def it_Advance_def)
  show ?thesis
  proof (cases "last_entry h key")
    case None
    with it have "?it = [] \<or> (\<exists>e. ?it = [Inl e])" by auto
    with None last err show ?thesis by auto
  next
    case (Some e)
    with it have "?it = map Inr [index_kv L (f_byKeyAndRevision f) e] \<or>
        (\<exists>n err. ?it = map Inr (take n [index_kv L (f_byKeyAndRevision f) e]) @ [Inl err])"
      by (simp only: option.case)
    from truncated_single [OF this] consider r where "?it = Inr (index_kv L (f_byKeyAndRevision f) e) # r"
      | err where "?it = [Inl err]" by blast
    then show ?thesis
      using Some last err ByKeyAndRevision_GetFromIterator_index_kv [OF represents_last_wf(1) [OF assms(1) Some]]
      by cases (auto simp del: driver_simps(4))
  qed
qed

section \<open>The bodies of the writes\<close>

lemma dummy_eq:
  "createDummyVersionstamp L = \<lparr>TransactionVersion = [0, 0, 0, 0, 0, 0, 0, 0, 255, 255], UserVersion = 123\<rparr>"
proof -
  have "replicate 8 0 @ drop 8 (replicate 10 255) = ([0, 0, 0, 0, 0, 0, 0, 0, 255, 255] :: bytes)"
    by code_simp
  then show ?thesis by (simp add: createDummyVersionstamp_def incomplete_eq)
qed

lemma dummy_ok: "elem_ok (TVersionstamp (createDummyVersionstamp L))"
  unfolding dummy_eq by code_simp

lemma VersionstampToInt64_dummy: "VersionstampToInt64 (createDummyVersionstamp L) = Ok 0"
  by (simp add: dummy_eq VersionstampToInt64_def versionstampBytesToInt64_def be_uint16_def be_uint64_def be_nat_def)

lemma rev_or_dummy_to_int64:
  "is_revision v \<or> v = createDummyVersionstamp L \<Longrightarrow> VersionstampToInt64 v = Ok (rev_int v)"
  using VersionstampToInt64_revision VersionstampToInt64_dummy by (auto simp: dummy_eq rev_int_def be_nat_def)

text \<open>Stored entries convert to events.\<close>

lemma revRecordToEvent_entry:
  assumes "entry_ok L e"
  shows "revRecordToEvent f \<lparr>rr_Rev = fst e, rr_Record = by_revision_record (snd e)\<rparr> = Ok (entry_event f e)"
  using assms
  by (auto simp: revRecordToEvent_def RevRecord_GetCreateRevision_def by_revision_record_def entry_event_def entry_kv_def
      create_revision_def entry_ok_def rev_or_dummy_to_int64 Let_def)

lemma hist_wf_fresh:
  assumes "represents f m h" "fresh_stamp h st" "rec_wf r"
  shows "hist_wf (h @ [(new_revision st, r)])"
  using assms is_revision_elem_ok [OF is_revision_new [OF assms(2)]]
  by (auto simp: hist_wf_snoc represents_def fresh_stamp_def entry_wf_def)

lemma rev_or_dummy_elem_ok:
  "is_revision v \<or> v = createDummyVersionstamp L \<Longrightarrow> elem_ok (TVersionstamp v)"
  using is_revision_elem_ok dummy_ok by blast

lemma last_entry_facts:
  assumes "represents f m h" "last_entry h key = Some e"
  shows "is_revision (fst e)" "r_Key (snd e) = key" "rec_wf (snd e)" "entry_ok L e"
    "is_revision (create_revision e) \<or> create_revision e = createDummyVersionstamp L"
    "elem_ok (TVersionstamp (fst e))" "elem_ok (TVersionstamp (create_revision e))"
proof -
  show "is_revision (fst e)" "r_Key (snd e) = key" "rec_wf (snd e)" "entry_ok L e"
    and c: "is_revision (create_revision e) \<or> create_revision e = createDummyVersionstamp L"
    using represents_last_wf [OF assms] assms(1)
    by (auto simp: represents_def entry_ok_def entry_wf_def create_revision_def)
  show "elem_ok (TVersionstamp (create_revision e))" using rev_or_dummy_elem_ok [OF c] .
  show "elem_ok (TVersionstamp (fst e))" using represents_last_wf(1) [OF assms] by (simp add: entry_wf_def)
qed

lemma mvcc_records_ok:
  assumes "represents f m h" "length uuid = 16" "fresh_stamp h st"
  shows "mvcc_create f key val lease uuid h = Some r \<Longrightarrow> input_ok key val lease \<Longrightarrow>
      rec_wf r \<and> entry_ok L (new_revision st, r) \<and> r_Key r = key"
    and "mvcc_update key val revision lease uuid h = Some r \<Longrightarrow> input_ok key val lease \<Longrightarrow>
      rec_wf r \<and> entry_ok L (new_revision st, r) \<and> r_Key r = key"
    and "mvcc_delete key revision uuid h = Some r \<Longrightarrow>
      rec_wf r \<and> entry_ok L (new_revision st, r) \<and> r_Key r = key"
proof -
  note facts = last_entry_facts [OF assms(1)]
  note defs = rec_wf_def entry_ok_def input_ok_def maxRecordSize_def is_revision_new [OF assms(3)]
  show "rec_wf r \<and> entry_ok L (new_revision st, r) \<and> r_Key r = key"
    if "mvcc_create f key val lease uuid h = Some r" "input_ok key val lease"
  proof (cases "last_entry h key")
    case None
    with that assms(2) dummy_ok show ?thesis by (auto simp: mvcc_create_def Let_def defs simp del: elem_ok.simps)
  next
    case (Some e)
    with that have "r = \<lparr>r_Key = key, r_IsDelete = False, r_IsCreate = True, r_Lease = lease,
        r_CreateRevision = createDummyVersionstamp L, r_PrevRevision = fst e,
        r_ValueSize = int (length val), r_WriteUUID = uuid, r_Value = val, r_LatestForKey = False\<rparr>"
      by (simp add: mvcc_create_def Let_def split: if_splits)
    with that(2) facts [OF Some] assms(2) dummy_ok show ?thesis by (simp add: defs del: elem_ok.simps)
  qed
  show "rec_wf r \<and> entry_ok L (new_revision st, r) \<and> r_Key r = key"
    if r: "mvcc_update key val revision lease uuid h = Some r" "input_ok key val lease"
  proof -
    from r(1) obtain e where e: "last_entry h key = Some e" by (auto simp: mvcc_update_def split: option.splits)
    with r have "r = \<lparr>r_Key = key, r_IsDelete = False, r_IsCreate = False, r_Lease = lease,
        r_CreateRevision = create_revision e, r_PrevRevision = fst e,
        r_ValueSize = int (length val), r_WriteUUID = uuid, r_Value = val, r_LatestForKey = False\<rparr>"
      by (simp add: mvcc_update_def split: if_splits)
    with facts [OF e] r(2) assms(2) show ?thesis by (simp add: defs del: elem_ok.simps)
  qed
  show "rec_wf r \<and> entry_ok L (new_revision st, r) \<and> r_Key r = key"
    if r: "mvcc_delete key revision uuid h = Some r"
  proof -
    from r(1) obtain e where e: "last_entry h key = Some e" by (auto simp: mvcc_delete_def split: option.splits)
    with r have "r = (snd e)\<lparr>r_IsDelete := True, r_IsCreate := False, r_CreateRevision := create_revision e,
        r_PrevRevision := fst e, r_WriteUUID := uuid, r_LatestForKey := False\<rparr>"
      by (simp add: mvcc_delete_def split: if_splits)
    with facts [OF e] assms(2) show ?thesis by (simp add: defs del: elem_ok.simps)
  qed
qed

end

end
