(* ===== verification/FDB_Retry.thy ===== *)
theory FDB_Retry
  imports FDB_MVCC
begin

text \<open>
  The writes under retries. \<^verbatim>\<open>Create\<close>, \<^verbatim>\<open>Update\<close> and \<^verbatim>\<open>Delete\<close> share a contract, the locale
  \<open>mvcc_writer\<close>: an attempt answers from the history, fails, or appends one record for its key and
  remembers the record's UUID; and a second record for the same call is never due. From it follows,
  once, that a call leaves at most one entry however its attempts fail, including commits
  whose outcome is unknown.
\<close>

section \<open>Attempts\<close>

text \<open>All revisions of a history are at most that of a stamp.\<close>

definition below :: "bytes \<Rightarrow> entry list \<Rightarrow> bool" where
  "below lo h \<longleftrightarrow> (\<forall>e\<in>set h. vs_key (fst e) \<le> vs_key (new_revision lo))"

text \<open>
  A script in which the other clients write what they like, but not \<open>key\<close>, and the cluster assigns
  increasing stamps.
\<close>

fun quiet_script :: "('d, 't) FDB \<Rightarrow> bytes \<Rightarrow> bytes \<Rightarrow> 'd attempt list \<Rightarrow> bool" where
  "quiet_script f key lo [] \<longleftrightarrow> True"
| "quiet_script f key lo (a # as) \<longleftrightarrow>
     length (at_uuid a) = 16 \<and> revision_stamp (at_stamp a) \<and>
     vs_key (new_revision lo) < vs_key (new_revision (at_stamp a)) \<and>
     (\<forall>d h. represents f (db_view (f_lib f) d) h \<and> below lo h \<longrightarrow>
        (\<exists>h'. represents f (db_view (f_lib f) (at_before a d)) (h @ h') \<and>
           (\<forall>e\<in>set h'. r_Key (snd e) \<noteq> key) \<and> fresh_stamp (h @ h') (at_stamp a))) \<and>
     quiet_script f key (at_stamp a) as"

text \<open>A step that changes nothing a read can see, or fails with an error.\<close>

definition keeps :: "('d, 't) fdb_lib \<Rightarrow> 't \<Rightarrow> 't res \<Rightarrow> bool" where
  "keeps L t r \<longleftrightarrow>
     (\<exists>t'. r = Ok t' \<and> tr_view L t' = tr_view L t \<and> tr_pending L t' = tr_pending L t \<and>
        tr_alive L t' = tr_alive L t \<and> tr_version L t' = tr_version L t) \<or>
     (\<exists>e. r = Err e)"

lemma keeps_Ok: "keeps L t (Ok t)"
  by (simp add: keeps_def)

lemma keeps_wrap: "keeps L t r \<Longrightarrow> keeps L t (wrap_err msg r)"
  by (auto simp: keeps_def wrap_err_def)

lemma keeps_bind: "keeps L t r \<Longrightarrow> (\<And>t'. keeps L t' (k t')) \<Longrightarrow> keeps L t (res_bind r k)"
  unfolding keeps_def by (elim disjE exE conjE) (fastforce, simp)

context fdb_driver
begin

lemma keeps_option: "keeps L t (res_of_sum (tr_SetOption L c t))"
  by (cases "tr_SetOption L c t") (auto simp: keeps_def dest: option_view option_version)

lemma transact_options_keeps: "keeps L t (transact_options f t)"
  unfolding transact_options_def driver_simps
  by (auto intro!: keeps_bind keeps_wrap keeps_option keeps_Ok)

lemma transact_options_alive:
  assumes "tr_alive L t"
  shows "\<exists>t'. transact_options f t = Ok t' \<and> tr_view L t' = tr_view L t \<and>
     tr_pending L t' = tr_pending L t \<and> tr_alive L t'"
proof -
  have step: "\<exists>t'. tr_SetOption L c t = Inr t' \<and> tr_view L t' = tr_view L t \<and>
      tr_pending L t' = tr_pending L t \<and> tr_alive L t'" if "tr_alive L t" for c t
    using option_alive [OF that, of c] option_view that by blast
  from step [OF assms] obtain t1 where t1: "tr_SetOption L 500 t = Inr t1" "tr_view L t1 = tr_view L t"
    "tr_pending L t1 = tr_pending L t" "tr_alive L t1" by blast
  from step [OF t1(4)] obtain t2 where t2: "tr_SetOption L 501 t1 = Inr t2" "tr_view L t2 = tr_view L t1"
    "tr_pending L t2 = tr_pending L t1" "tr_alive L t2" by blast
  from step [OF t2(4)] obtain t3 where t3: "tr_SetOption L 712 t2 = Inr t3" "tr_view L t3 = tr_view L t2"
    "tr_pending L t3 = tr_pending L t2" "tr_alive L t3" by blast
  from t1 t2 t3 show ?thesis by (simp add: transact_options_def wrap_err_def)
qed

end

section \<open>The contract of a write\<close>

abbreviation of_key :: "bytes \<Rightarrow> entry list \<Rightarrow> entry list" where
  "of_key key h \<equiv> filter (\<lambda>e. r_Key (snd e) = key) h"

text \<open>
  Where a call stands after some attempts: nothing of it is in the history of its key yet, or one
  record is, by the attempt whose UUID is remembered, and none is due any more.
\<close>

definition landed :: "bytes \<Rightarrow> (bytes \<Rightarrow> entry list \<Rightarrow> Record option) \<Rightarrow> entry list \<Rightarrow> entry list \<Rightarrow> bytes \<Rightarrow> versionstamp \<Rightarrow> Record \<Rightarrow> bool" where
  "landed key spec h0 h u v r \<longleftrightarrow>
     (\<exists>h1 h2. h = h1 @ (v, r) # h2 \<and> of_key key h1 = of_key key h0 \<and> of_key key h2 = [] \<and>
        spec u h1 = Some r) \<and> (\<forall>u'. spec u' h = None)"

definition progress :: "bytes \<Rightarrow> (bytes \<Rightarrow> entry list \<Rightarrow> Record option) \<Rightarrow> entry list \<Rightarrow> entry list \<Rightarrow> bytes \<Rightarrow> bool" where
  "progress key spec h0 h u \<longleftrightarrow> of_key key h = of_key key h0 \<or> (\<exists>v r. landed key spec h0 h u v r)"

text \<open>
  What the whole call leaves: nothing and an answer or an error, or one record and its revision or
  an error. \<open>U\<close> holds the UUIDs the call can have compared or written.
\<close>

definition call_outcome ::
    "('d, 't) FDB \<Rightarrow> bytes \<Rightarrow> bytes set \<Rightarrow> (bytes \<Rightarrow> entry list \<Rightarrow> Record option)
     \<Rightarrow> (bytes \<Rightarrow> entry list \<Rightarrow> writeResult \<Rightarrow> bool) \<Rightarrow> (entry \<Rightarrow> KeyValue option) \<Rightarrow> entry list \<Rightarrow> bytes \<Rightarrow> writeResult option res \<Rightarrow> (bytes \<rightharpoonup> bytes) \<Rightarrow> bool" where
  "call_outcome f key U spec result reply h0 st r m \<longleftrightarrow> (\<exists>h. represents f m h \<and>
     (of_key key h = of_key key h0 \<and>
        ((\<exists>e. r = Err e) \<or> (\<exists>w. \<exists>u\<in>U. r = Ok (Some w) \<and> result u h w)) \<or>
      (\<exists>v s. \<exists>u\<in>U. spec u h0 = Some s \<and> of_key key h = of_key key h0 @ [(v, s)] \<and>
        ((\<exists>e. r = Err e) \<or> (\<exists>w. r = Ok w \<and> getResult f st w = Ok (rev_int v, reply (v, s), True))))))"

locale mvcc_writer = fdb_driver L cfg dir f
    for L :: "('d, 't) fdb_lib" and cfg :: config and dir :: bytes and f :: "('d, 't) FDB" +
  fixes pre :: bool
    and key :: bytes
    and body :: "'d attempt \<Rightarrow> 't \<Rightarrow> bytes \<Rightarrow> 't closure_result"
    and spec :: "bytes \<Rightarrow> entry list \<Rightarrow> Record option"
    and result :: "bytes \<Rightarrow> entry list \<Rightarrow> writeResult \<Rightarrow> bool"
    and reply :: "entry \<Rightarrow> KeyValue option"
  assumes body_sound: "pre \<Longrightarrow> represents f (tr_view L t) h \<Longrightarrow> tr_pending L t = [] \<Longrightarrow>
      length (at_uuid a) = 16 \<Longrightarrow> fresh_stamp h (at_stamp a) \<Longrightarrow>
      (\<exists>e. body a t u = (Err e, u)) \<or>
      (\<exists>w t'. body a t u = (Ok (Some w, t'), u) \<and> tr_view L t' = tr_view L t \<and> tr_pending L t' = [] \<and> result u h w) \<or>
      (\<exists>r w t'. body a t u = (Ok (Some w, t'), at_uuid a) \<and> spec (at_uuid a) h = Some r \<and>
         represents f (committed L (at_stamp a) t') (h @ [(new_revision (at_stamp a), r)]) \<and>
         getResult f (at_stamp a) (Some w) = Ok (rev_int (new_revision (at_stamp a)), reply (new_revision (at_stamp a), r), True))"
    and spec_record: "spec uuid h = Some r \<Longrightarrow> r_Key r = key \<and> r_WriteUUID r = uuid"
    and spec_local: "of_key key h = of_key key h' \<Longrightarrow> spec uuid h = spec uuid h'"
    and spec_once: "represents f m h \<Longrightarrow> fresh_stamp h st \<Longrightarrow> spec uuid h = Some r \<Longrightarrow>
      spec uuid' (h @ [(new_revision st, r)]) = None"
    and own_result: "result u h w \<Longrightarrow> represents f m (h1 @ (v, r) # h2) \<Longrightarrow> h = h1 @ (v, r) # h2 \<Longrightarrow>
      spec u h1 = Some r \<Longrightarrow> spec u h = None \<Longrightarrow> of_key key h2 = [] \<Longrightarrow>
      getResult f st (Some w) = Ok (rev_int v, reply (v, r), True)"
begin

text \<open>One pass through \<^verbatim>\<open>wrapped\<close>: the three ways it can leave the database.\<close>

lemma commit_get_cases:
  "commit_get f a d t = (None, tr_Commit L (at_stamp a) t) \<or>
   (\<exists>e. commit_get f a d t = (Some e, d)) \<or> (\<exists>e. commit_get f a d t = (Some e, tr_Commit L (at_stamp a) t))"
  by (cases "at_commit a") (auto simp: commit_get_def)

lemma log_conflicts_Err: "\<exists>e'. log_conflicts f a (Err e) = Err e'"
  by (auto simp: log_conflicts_def split: option.split)

lemma commit_view_committed: "db_view L (tr_Commit L st t) = committed L st t"
  by (simp add: commit_view committed_def)

lemma commit_outcome_cases:
  assumes "transact_options f (tr_Reset L (at_before a d) t) = Ok t2" "body a t2 u = (Ok (ret, t3), c')"
    and "transact_wrapped f None body a (d, t, u) = (r, d', t', u')"
  obtains (ok) "r = Ok ret" "d' = tr_Commit L (at_stamp a) t3" "u' = c'"
  | (err) e where "r = Err e" "d' = at_before a d \<or> d' = tr_Commit L (at_stamp a) t3" "u' = c'"
proof -
  have "(r, d', t', u') = (case commit_get f a (at_before a d) t3 of
      (None, d2) \<Rightarrow> (Ok ret, d2, t3, c') | (Some e, d2) \<Rightarrow> (log_conflicts f a (Err e), d2, t3, c'))"
    using assms by (simp add: transact_wrapped_def Let_def)
  then consider "r = Ok ret" "d' = tr_Commit L (at_stamp a) t3" "u' = c'"
    | e where "r = log_conflicts f a (Err e)" "d' = at_before a d \<or> d' = tr_Commit L (at_stamp a) t3" "u' = c'"
    using commit_get_cases [of a "at_before a d" t3] by (elim disjE exE) auto
  then show ?thesis
  proof cases
    case 1
    then show ?thesis by (rule ok)
  next
    case (2 e)
    with log_conflicts_Err [of a e] show ?thesis using err by metis
  qed
qed

lemma attempt_cases:
  assumes "pre" and rep: "represents f (db_view L (at_before a d)) h"
    and "length (at_uuid a) = 16" "fresh_stamp h (at_stamp a)"
    and w: "transact_wrapped f None body a (d, t, u) = (r, d', t', u')"
  obtains (failed) e where "represents f (db_view L d') h" "r = Err e" "u' = u \<or> u' = at_uuid a \<and> spec (at_uuid a) h \<noteq> None"
  | (answered) w where "represents f (db_view L d') h" "u' = u" "r = Ok (Some w)" "result u h w"
  | (written) rec where "spec (at_uuid a) h = Some rec" "u' = at_uuid a"
      "represents f (db_view L d') (h @ [(new_revision (at_stamp a), rec)])"
      "(\<exists>e. r = Err e) \<or>
        (\<exists>w. r = Ok w \<and> getResult f (at_stamp a) w
          = Ok (rev_int (new_revision (at_stamp a)), reply (new_revision (at_stamp a), rec), True))"
proof -
  let ?d = "at_before a d"
  let ?t = "tr_Reset L ?d t"
  consider t2 where "transact_options f ?t = Ok t2" "tr_view L t2 = db_view L ?d" "tr_pending L t2 = []"
    | e where "transact_options f ?t = Err e"
    using transact_options_keeps [of ?t] by (auto simp: keeps_def reset_view)
  then show ?thesis
  proof cases
    case 2
    with w rep show ?thesis by (intro failed) (auto simp: transact_wrapped_def Let_def)
  next
    case 1
    have rep2: "represents f (tr_view L t2) h" using rep 1(2) by simp
    from body_sound [OF assms(1) rep2 1(3) assms(3,4), of u] show ?thesis
    proof (elim disjE exE conjE)
      fix e assume b: "body a t2 u = (Err e, u)"
      obtain e' where "log_conflicts f a (Err e :: writeResult option res) = Err e'" using log_conflicts_Err by blast
      with w 1 b have "r = Err e'" "d' = ?d" "u' = u" by (auto simp: transact_wrapped_def Let_def)
      with rep show ?thesis by (intro failed) auto
    next
      fix wr t3 assume b: "body a t2 u = (Ok (Some wr, t3), u)" "tr_view L t3 = tr_view L t2" "tr_pending L t3 = []" "result u h wr"
      have "db_view L (tr_Commit L (at_stamp a) t3) = db_view L ?d"
        using b 1(2) by (simp add: commit_view stamp_all_def)
      then have same: "represents f (db_view L (tr_Commit L (at_stamp a) t3)) h" using rep by simp
      show ?thesis
      proof (cases rule: commit_outcome_cases [OF 1(1) b(1) w, case_names ok err])
        case ok
        with b same show ?thesis by (intro answered) auto
      next
        case (err e')
        with b rep same show ?thesis by (intro failed) auto
      qed
    next
      fix rec wr t3
      assume b: "body a t2 u = (Ok (Some wr, t3), at_uuid a)" "spec (at_uuid a) h = Some rec"
        "represents f (committed L (at_stamp a) t3) (h @ [(new_revision (at_stamp a), rec)])"
        "getResult f (at_stamp a) (Some wr)
          = Ok (rev_int (new_revision (at_stamp a)), reply (new_revision (at_stamp a), rec), True)"
      show ?thesis
      proof (cases rule: commit_outcome_cases [OF 1(1) b(1) w, case_names ok err])
        case ok
        with b show ?thesis by (intro written) (auto simp: commit_view_committed)
      next
        case (err e')
        with b rep show ?thesis
          by (cases "d' = ?d") (auto simp: commit_view_committed intro: failed [of e'] written [of rec])
      qed
    qed
  qed
qed

lemma landed_of_key:
  assumes "landed key spec h0 h u v r"
  shows "of_key key h = of_key key h0 @ [(v, r)]" "spec u h0 = Some r"
proof -
  from assms(1) obtain h1 h2 where h: "h = h1 @ (v, r) # h2" "of_key key h1 = of_key key h0"
    "of_key key h2 = []" "spec u h1 = Some r" by (auto simp: landed_def)
  from spec_local [OF h(2)] h(4) show "spec u h0 = Some r" by simp
  from h spec_record [OF h(4)] show "of_key key h = of_key key h0 @ [(v, r)]" by simp
qed

lemma progress_others:
  assumes "progress key spec h0 h u" "\<forall>e\<in>set h'. r_Key (snd e) \<noteq> key"
  shows "progress key spec h0 (h @ h') u"
proof -
  have h': "of_key key h' = []" using assms(2) by (simp add: filter_empty_conv)
  have "landed key spec h0 (h @ h') u v r" if l: "landed key spec h0 h u v r" for v r
  proof -
    from l obtain h1 h2 where "h = h1 @ (v, r) # h2" "of_key key h1 = of_key key h0"
      "of_key key h2 = []" "spec u h1 = Some r" "\<forall>u'. spec u' h = None" by (auto simp: landed_def)
    moreover have "spec u' (h @ h') = spec u' h" for u' using h' by (intro spec_local) simp
    ultimately show ?thesis unfolding landed_def using h' by (intro conjI exI [of _ h1] exI [of _ "h2 @ h'"]) auto
  qed
  with assms(1) h' show ?thesis by (auto simp: progress_def)
qed

lemma progress_outcome_Err:
  "progress key spec h0 h u \<Longrightarrow> u \<in> U \<Longrightarrow> represents f m h \<Longrightarrow> call_outcome f key U spec result reply h0 st (Err e) m"
  unfolding progress_def call_outcome_def using landed_of_key by blast

text \<open>One attempt, from a state of the call to a state or to its outcome.\<close>

lemma attempt_step:
  assumes "pre" "progress key spec h0 h u" "represents f (db_view L (at_before a d)) h"
    and "length (at_uuid a) = 16" "fresh_stamp h (at_stamp a)" "u \<in> U" "at_uuid a \<in> U"
    and w: "transact_wrapped f None body a (d, t, u) = (r, d', t', u')"
  shows "u' \<in> U" and "\<exists>h'. represents f (db_view L d') h' \<and> progress key spec h0 h' u' \<and> below (at_stamp a) h'"
    and "call_outcome f key U spec result reply h0 (at_stamp a) r (db_view L d')"
proof -
  have "u' \<in> U \<and> (\<exists>h'. represents f (db_view L d') h' \<and> progress key spec h0 h' u' \<and> below (at_stamp a) h') \<and>
      call_outcome f key U spec result reply h0 (at_stamp a) r (db_view L d')"
  proof (cases rule: attempt_cases [OF assms(1,3,4,5) w, case_names failed answered written])
    case (failed e)
    have "progress key spec h0 h u'" using failed(3) assms(2) by (auto simp: progress_def landed_def)
    moreover have "u' \<in> U" using failed(3) assms(6,7) by auto
    ultimately show ?thesis using failed assms(5) progress_outcome_Err [of h0 h u' U]
      by (auto simp: below_def fresh_stamp_def intro!: exI [of _ h] order_less_imp_le)
  next
    case (answered w)
    have "call_outcome f key U spec result reply h0 (at_stamp a) r (db_view L d')"
    proof (cases "of_key key h = of_key key h0")
      case True
      with answered assms(6) show ?thesis by (auto simp: call_outcome_def)
    next
      case False
      with assms(2) obtain v s where l: "landed key spec h0 h u v s" by (auto simp: progress_def)
      then obtain h1 h2 where h: "h = h1 @ (v, s) # h2" "of_key key h2 = []" "spec u h1 = Some s" "spec u h = None"
        by (auto simp: landed_def)
      from own_result [OF answered(4) _ h(1,3,4,2)] answered(1) h(1) have
        "getResult f (at_stamp a) (Some w) = Ok (rev_int v, reply (v, s), True)" by blast
      with landed_of_key [OF l] answered assms(6) show ?thesis unfolding call_outcome_def by blast
    qed
    with answered assms(2,5,6) show ?thesis
      by (auto simp: below_def fresh_stamp_def intro!: exI [of _ h] order_less_imp_le)
  next
    case (written rec)
    let ?h = "h @ [(new_revision (at_stamp a), rec)]"
    have pend: "of_key key h = of_key key h0" using assms(2) written(1) by (auto simp: progress_def landed_def)
    have once: "spec u'' ?h = None" for u''
      using spec_once [OF assms(3,5) written(1)] .
    have l: "landed key spec h0 ?h u' (new_revision (at_stamp a)) rec"
      unfolding landed_def using pend written once by (intro conjI exI [of _ h] exI [of _ "[]"]) auto
    have "below (at_stamp a) ?h" using assms(5) by (auto simp: below_def fresh_stamp_def intro: order_less_imp_le)
    moreover have "call_outcome f key U spec result reply h0 (at_stamp a) r (db_view L d')"
      unfolding call_outcome_def using written assms(7) landed_of_key [OF l] by (intro exI [of _ ?h]) blast
    ultimately show ?thesis using written assms(7) l by (auto simp: progress_def)
  qed
  then show "u' \<in> U" and "\<exists>h'. represents f (db_view L d') h' \<and> progress key spec h0 h' u' \<and> below (at_stamp a) h'"
    and "call_outcome f key U spec result reply h0 (at_stamp a) r (db_view L d')" by blast+
qed

lemma retry_outcome:
  assumes "pre"
  shows "quiet_script f key lo script \<Longrightarrow> below lo h \<Longrightarrow> represents f (db_view L d) h \<Longrightarrow>
    progress key spec h0 h u \<Longrightarrow> u \<in> U \<Longrightarrow> at_uuid ` set script \<subseteq> U \<Longrightarrow>
    retryable force (transact_wrapped f None body) i script (d, t, u) = Some (r, a, d', t', u') \<Longrightarrow>
    call_outcome f key U spec result reply h0 (at_stamp a) r (db_view L d')"
proof (induction script arbitrary: lo h d t u i)
  case Nil
  then show ?case by simp
next
  case (Cons b script)
  have "\<forall>d h. represents f (db_view L d) h \<and> below lo h \<longrightarrow>
      (\<exists>h'. represents f (db_view L (at_before b d)) (h @ h') \<and>
         (\<forall>e\<in>set h'. r_Key (snd e) \<noteq> key) \<and> fresh_stamp (h @ h') (at_stamp b))"
    using Cons.prems(1) by simp
  with Cons.prems(2,3) obtain h' where h': "represents f (db_view L (at_before b d)) (h @ h')"
    "\<forall>e\<in>set h'. r_Key (snd e) \<noteq> key" "fresh_stamp (h @ h') (at_stamp b)" by blast
  have len: "length (at_uuid b) = 16" and quiet: "quiet_script f key (at_stamp b) script"
    using Cons.prems(1) by simp_all
  obtain r1 d1 t1 u1 where w: "transact_wrapped f None body b (d, t, u) = (r1, d1, t1, u1)"
    by (metis prod_cases4)
  note step = attempt_step [OF assms progress_others [OF Cons.prems(4) h'(2)] h'(1) len h'(3) Cons.prems(5) _ w, simplified]
  have uuid: "at_uuid b \<in> U" "at_uuid ` set script \<subseteq> U" using Cons.prems(6) by auto
  from step(2) [OF uuid(1)] obtain h1 where h1: "represents f (db_view L d1) h1" "progress key spec h0 h1 u1"
    "below (at_stamp b) h1" by blast
  have again: ?case if "retryable force (transact_wrapped f None body) (Suc i) script (d1, t1, u1) = Some (r, a, d', t', u')"
    using Cons.IH [OF quiet h1(3,1,2) step(1) [OF uuid(1)] uuid(2) that] .
  show ?case
  proof (cases "\<exists>e. (if force i then Err (FdbError 1021) else r1) = Err e \<and> (\<forall>p. r1 \<noteq> Panic p)")
    case True
    then obtain e where e: "(if force i then Err (FdbError 1021) else r1) = Err e" "\<And>p. r1 \<noteq> Panic p" by blast
    let ?o = "case as_fdb_error e of Some ep \<Rightarrow> at_OnError b ep | None \<Rightarrow> Some e"
    have "Some (r, a, d', t', u') = (case ?o of Some e' \<Rightarrow> Some (Err e', b, d1, t1, u1)
        | None \<Rightarrow> retryable force (transact_wrapped f None body) (Suc i) script (d1, t1, u1))"
      using Cons.prems(7) e by (cases r1) (auto simp: w split: if_splits)
    then show ?thesis
      using again progress_outcome_Err [OF h1(2) step(1) [OF uuid(1)] h1(1)] by (cases ?o) auto
  next
    case False
    then have "r = r1" "a = b" "d' = d1"
      using Cons.prems(7) by (cases r1; simp add: w split: if_splits)+
    with step(3) [OF uuid(1)] show ?thesis by simp
  qed
qed

theorem transact_outcome:
  assumes "pre" "quiet_script f key lo script" "below lo h" "represents f (db_view L d) h"
    and "transact f None body script d u = Some (r, st, d', u')"
    and "u \<in> U" "at_uuid ` set script \<subseteq> U"
  shows "call_outcome f key U spec result reply h st r (db_view L d')"
proof -
  have start: "progress key spec h h u" by (simp add: progress_def)
  show ?thesis
  proof (cases "db_CreateTransaction L d")
    case (Inl e)
    with assms(5) progress_outcome_Err [OF start assms(6,4)] show ?thesis by (auto simp: transact_def)
  next
    case (Inr t)
    with assms(5) obtain a t' where
      "retryable (forceRetryTransaction cfg) (transact_wrapped f None body) 0 script (d, t, u) = Some (r, a, d', t', u')"
      "st = at_stamp a" by (auto simp: transact_def)
    with retry_outcome [OF assms(1-4) start assms(6,7)] show ?thesis by simp
  qed
qed

end

end
