(* ===== verification/FDB_Writers.thy ===== *)
theory FDB_Writers
  imports FDB_Retry
begin

text \<open>
  \<^verbatim>\<open>Create\<close>, \<^verbatim>\<open>Update\<close> and \<^verbatim>\<open>Delete\<close> satisfy the contract \<open>mvcc_writer\<close>, on any transaction: one that
  answers every read, and one whose reads fail at any point.
\<close>

section \<open>Answers\<close>

text \<open>What each operation answers from the history when it appends nothing.\<close>

definition create_result :: "bytes \<Rightarrow> bytes \<Rightarrow> entry list \<Rightarrow> writeResult \<Rightarrow> bool" where
  "create_result key u h w \<longleftrightarrow>
     (\<exists>e. last_entry h key = Some e \<and> r_IsCreate (snd e) \<and> r_WriteUUID (snd e) = u \<and>
        w = newModificationResultRev (Inr (rev_int (fst e))) None True)"

definition record_ref :: "entry \<Rightarrow> revRecordRef option" where
  "record_ref e = Some (fst e, Some (by_revision_record (snd e)))"

definition update_result :: "bytes \<Rightarrow> int64 \<Rightarrow> bytes \<Rightarrow> entry list \<Rightarrow> writeResult \<Rightarrow> bool" where
  "update_result key revision u h w \<longleftrightarrow>
     (case last_entry h key of
        None \<Rightarrow> \<exists>rv. w = newModificationResultRev rv None False
      | Some e \<Rightarrow>
          if r_IsDelete (snd e) then \<exists>rv. w = newModificationResultRev rv None False
          else rev_int (fst e) \<noteq> revision \<and>
            (if r_WriteUUID (snd e) = u then w = newModificationResultRev (Inr (rev_int (fst e))) (record_ref e) True
             else \<exists>rv. w = newModificationResultRev rv (record_ref e) False))"

definition delete_result :: "bytes \<Rightarrow> int64 \<Rightarrow> bytes \<Rightarrow> entry list \<Rightarrow> writeResult \<Rightarrow> bool" where
  "delete_result key revision u h w \<longleftrightarrow>
     (case last_entry h key of
        None \<Rightarrow> \<exists>rv. w = newModificationResultRev rv None False
      | Some e \<Rightarrow>
          if r_IsDelete (snd e) then
            if r_WriteUUID (snd e) = u then w = newModificationResultRev (Inr (rev_int (fst e))) (record_ref e) True
            else \<exists>rv. w = newModificationResultRev rv None False
          else revision \<noteq> 0 \<and> rev_int (fst e) \<noteq> revision \<and>
            (\<exists>rv. w = newModificationResultRev rv (record_ref e) False))"

context fdb_driver
begin

section \<open>Reading a record on any transaction\<close>

lemma getBlob_truncated:
  assumes "\<forall>c\<in>set cs. snd c \<noteq> []" "offset + length (concat (map snd cs)) < length buf"
  shows "ByRevision_getBlob (map Inr cs @ Inl e # it) buf offset = Err e"
  using assms
proof (induction cs arbitrary: buf offset)
  case Nil
  then show ?case by simp
next
  case (Cons c cs)
  have "length (go_copy_at buf offset (snd c)) = length buf"
    using Cons.prems by (simp add: go_copy_at_def)
  with Cons show ?case by simp
qed

lemma take_chunks_shorter:
  assumes "n < length cs" "\<forall>c\<in>set cs. snd c \<noteq> []"
  shows "length (concat (map snd (take n cs))) < length (concat (map snd cs))"
proof -
  have "concat (map snd cs) = concat (map snd (take n cs)) @ concat (map snd (drop n cs))"
    by (metis append_take_drop_id concat_append map_append)
  moreover have "concat (map snd (drop n cs)) \<noteq> []"
    using assms by (auto simp: drop_eq_Nil dest: in_set_dropD) (metis hd_in_set in_set_dropD drop_eq_Nil not_le)
  ultimately show ?thesis by simp
qed

lemma ByRevision_GetFromIterator_truncated:
  assumes "entry_wf e"
  shows "ByRevision_GetFromIterator f (map Inr (take n (rev_kvs L (f_byRevision f) e)) @ [Inl err])
      = Ok (Some (fst e, by_revision_record (snd e)), [Inl err]) \<or>
    ByRevision_GetFromIterator f (map Inr (take n (rev_kvs L (f_byRevision f) e)) @ [Inl err]) = Err err"
proof -
  obtain v r where e: "e = (v, r)" by (cases e)
  let ?cs = "chunk_kvs L (f_byRevision f) [TVersionstamp v] (r_Value r)"
  have ne: "\<forall>c\<in>set ?cs. snd c \<noteq> []" using chunk_kvs_nonempty by blast
  have size: "r_ValueSize r = int (length (r_Value r))" using assms by (simp add: e entry_wf_def rec_wf_def)
  consider "n = 0" | "length (rev_kvs L (f_byRevision f) e) \<le> n" | m where "n = Suc m" "m < length ?cs"
    by (cases n; cases "length ?cs \<le> n - 1") (auto simp: e rev_kvs_def simp del: driver_simps(3))
  then show ?thesis
  proof cases
    case 1
    then show ?thesis by (simp add: ByRevision_GetFromIterator_def it_Advance_def)
  next
    case 2
    with ByRevision_GetFromIterator_rev_kvs [OF assms, of "[Inl err]"] show ?thesis by simp
  next
    case 3
    have "ByRevision_getBlob (map Inr (take m ?cs) @ [Inl err]) (replicate (length (r_Value r)) 0) 0 = Err err"
      using ne take_chunks_shorter [OF 3(2) ne]
      by (intro getBlob_truncated) (auto simp: chunk_kvs_values dest: in_set_takeD)
    with 3 ByRevision_ParseKV_header [OF assms [unfolded e]] size show ?thesis
      by (simp add: e ByRevision_GetFromIterator_def rev_kvs_def it_Advance_def del: driver_simps(3))
  qed
qed

lemma ByRevision_fetch:
  assumes rep: "represents f (tr_view L t) h" and clean: "tr_pending L t = []" and "(v, r) \<in> set h"
  shows "\<exists>it. ByRevision_GetIterator f t v = Ok it \<and>
    ((\<exists>it'. ByRevision_GetFromIterator f it = Ok (Some (v, by_revision_record r), it')) \<or>
     (\<exists>err. ByRevision_GetFromIterator f it = Err err))"
proof -
  let ?p = "f_byRevision f"
  let ?kvs = "rev_kvs L ?p (v, r)"
  let ?o = "\<lparr>ro_Limit = 0, ro_Mode = StreamingModeWantAll, ro_Reverse = False\<rparr>"
  have h: "hist_wf h" "agree_on ?p (tr_view L t) (concat (map (rev_kvs L ?p) h))"
    using rep by (simp_all add: represents_def del: driver_simps(3))
  have wf: "entry_wf (v, r)" using h(1) assms(3) by (auto simp: hist_wf_def)
  then have v: "elem_ok (TVersionstamp v)" by (simp add: entry_wf_def)
  obtain e where e: "fdb_PrefixRange L (?p @ tuple_Pack L [TVersionstamp v]) = Inr (?p @ tuple_Pack L [TVersionstamp v], e)"
      "\<And>k. (?p @ tuple_Pack L [TVersionstamp v] \<le> k \<and> k < e) \<longleftrightarrow> prefix (?p @ tuple_Pack L [TVersionstamp v]) k"
    by (rule prefix_range_subspace [of "[TVersionstamp v]" ?p "str ''byRevision''"]) (use v in auto)
  let ?it = "tr_GetRange L False t (FirstGreaterOrEqual (?p @ tuple_Pack L [TVersionstamp v])) (FirstGreaterOrEqual e) ?o"
  have "limited ?o (sel_range (tr_view L t) (FirstGreaterOrEqual (?p @ tuple_Pack L [TVersionstamp v])) (FirstGreaterOrEqual e)) = ?kvs"
    using rev_range_list [OF h(1) v finite_view h(2)] filter_rev_eq [of h v r] h(1) assms(3)
    by (simp add: sel_range_def e(2) limited_def hist_wf_def del: driver_simps(3))
  with range_sound [OF clean, of ?o "FirstGreaterOrEqual (?p @ tuple_Pack L [TVersionstamp v])" "FirstGreaterOrEqual e" False]
  have it: "?it = map Inr ?kvs \<or> (\<exists>n err. ?it = map Inr (take n ?kvs) @ [Inl err])" by (simp add: Let_def del: driver_simps(3))
  have get: "ByRevision_GetIterator f t v = Ok ?it"
    by (simp add: ByRevision_GetIterator_def spack_eq e(1) del: driver_simps(3))
  from it show ?thesis
  proof (elim disjE exE)
    assume "?it = map Inr ?kvs"
    with get ByRevision_GetFromIterator_rev_kvs [OF wf, of "[]"] show ?thesis by simp
  next
    fix n err assume "?it = map Inr (take n ?kvs) @ [Inl err]"
    with get ByRevision_GetFromIterator_truncated [OF wf, of n err] show ?thesis by (simp del: driver_simps(3)) blast
  qed
qed

lemma ByRevision_Get_sound:
  assumes "represents f (tr_view L t) h" "tr_pending L t = []" "(v, r) \<in> set h"
  shows "ByRevision_Get f t v = Ok (Some (by_revision_record r)) \<or> (\<exists>e. ByRevision_Get f t v = Err e)"
  using ByRevision_fetch [OF assms] by (auto simp: ByRevision_Get_def)

section \<open>The end of a write\<close>

lemma writeBlob_from_no_panic:
  "\<not> UseSequentialId cfg \<Longrightarrow> ByRevision_writeBlob_from f v val off t \<noteq> Panic p"
proof (induction "length val - off" arbitrary: off t rule: less_induct)
  case less
  have "ByRevision_writeBlob_from f v val (off + chunkSize) t' \<noteq> Panic p" if "off < length val" for t'
    using less.hyps [of "off + chunkSize"] less.prems that chunkSize_pos by simp
  then show ?case
    using less.prems by (subst ByRevision_writeBlob_from.simps)
      (auto simp: GetWriteOps_def Let_def res_of_sum_def split: sum.split simp del: driver_simps(3))
qed

lemma append_no_panic:
  assumes "\<not> UseSequentialId cfg"
  shows "FDB_append f uuid rec0 prev t \<noteq> Panic p"
proof -
  have clear: "ByKeyCurrent_Clear f k t' \<noteq> Panic p" for k t'
    by (auto simp: ByKeyCurrent_Clear_def res_bind_def res_of_sum_def split: sum.split)
  have repl: "ByKeyCurrent_Replace f k x pv t' \<noteq> Panic p" for k x pv t'
    using clear by (auto simp: ByKeyCurrent_Replace_def res_bind_def res_of_sum_def Let_def split: sum.split res.split)
  have rev: "ByRevision_Write f v r t' \<noteq> Panic p" for v r t'
    using assms writeBlob_from_no_panic [OF assms]
    by (auto simp: ByRevision_Write_def ByRevision_writeBlob_def GetWriteOps_def res_bind_def res_of_sum_def
        split: sum.split res.split)
  have ix: "ByKeyAndRevision_Write f k r t' \<noteq> Panic p" for k r t'
    using assms by (auto simp: ByKeyAndRevision_Write_def GetWriteOps_def res_bind_def res_of_sum_def split: sum.split)
  show ?thesis
    using assms clear repl rev ix
    by (auto simp: FDB_append_def RevisionSubspace_IncrementAndGet_def Let_def res_bind_def split: res.split)
qed

lemma appendResult_sound:
  assumes mode: "\<not> UseSequentialId cfg" and rep: "represents f (tr_view L t) h" and clean: "tr_pending L t = []"
    and fresh: "fresh_stamp h (at_stamp a)" and r: "r = rec0\<lparr>r_WriteUUID := at_uuid a\<rparr>"
    and ok: "rec_wf r" "entry_ok L (new_revision (at_stamp a), r)"
    and prev: "\<not> r_IsDelete rec0 \<longrightarrow> prev = int (current_size h (r_Key rec0))"
  shows "(\<exists>e. appendResult f a t u rec0 prev rr = (Err e, u)) \<or>
    (\<exists>t'. appendResult f a t u rec0 prev rr
        = (Ok (Some (newModificationResultKey TrVersionstamp (rr r) True), t'), at_uuid a) \<and>
      represents f (committed L (at_stamp a) t') (h @ [(new_revision (at_stamp a), r)]))"
proof (cases "FDB_append f (at_uuid a) rec0 prev t")
  case (Ok x)
  obtain kf t' where x: "x = (kf, t')" by (cases x)
  have len: "length (at_stamp a) = 10" using fresh by (simp add: fresh_stamp_def revision_stamp_def)
  have wf: "hist_wf (h @ [(new_revision (at_stamp a), r)])" by (rule hist_wf_fresh [OF rep fresh ok(1)])
  from append_effect [OF mode len rep clean wf [unfolded r] ok(2) [unfolded r] prev Ok [unfolded x]]
  have "kf = TrVersionstamp" "represents f (committed L (at_stamp a) t') (h @ [(new_revision (at_stamp a), r)])"
    by (simp_all add: r)
  with Ok x show ?thesis by (simp add: appendResult_def r)
next
  case (Err e)
  then show ?thesis by (simp add: appendResult_def)
next
  case (Panic p)
  with append_no_panic [OF mode] show ?thesis by metis
qed

lemma stamp_to_int64: "is_revision v \<Longrightarrow> versionstampBytesToInt64 (TransactionVersion v) = Ok (rev_int v)"
  using VersionstampToInt64_revision [of v] by (auto simp: VersionstampToInt64_def Let_def split: if_splits)

lemma VersionstampToInt64_zero: "VersionstampToInt64 zeroVersionstamp = Ok 0"
proof -
  have z: "zeroVersionstamp = \<lparr>TransactionVersion = [0, 0, 0, 0, 0, 0, 0, 0, 0, 0], UserVersion = 0\<rparr>"
    by (simp add: zeroVersionstamp_def numeral_eq_Suc)
  show ?thesis
    unfolding z
    by (simp add: VersionstampToInt64_def versionstampBytesToInt64_def be_uint16_def be_uint64_def be_nat_def Let_def)
qed

lemma getResult_written_none:
  assumes "is_revision (new_revision st)"
  shows "getResult f st (Some (newModificationResultKey TrVersionstamp None True)) = Ok (rev_int (new_revision st), None, True)"
  using stamp_to_int64 [OF assms]
  by (simp add: getResult_def newModificationResultKey_def FutureKey_Get_def new_revision_def)

lemma getResult_written:
  assumes "entry_ok L (new_revision st, r)" "\<not> r_IsCreate r"
  shows "getResult f st (Some (newModificationResultKey TrVersionstamp (Some (zeroVersionstamp, Some r)) True))
    = Ok (rev_int (new_revision st), Some (entry_kv f (new_revision st, r)), True)"
  using assms stamp_to_int64 [of "new_revision st"]
  by (auto simp: getResult_def newModificationResultKey_def FutureKey_Get_def revRecordToEvent_def
      RevRecord_GetCreateRevision_def VersionstampToInt64_zero rev_or_dummy_to_int64 entry_ok_def entry_kv_def
      create_revision_def new_revision_def Let_def)

lemma getResult_own:
  "getResult f st (Some (newModificationResultRev (Inr (rev_int v)) None True)) = Ok (rev_int v, None, True)"
  "entry_ok L e \<Longrightarrow> getResult f st (Some (newModificationResultRev (Inr (rev_int v)) (record_ref e) True))
    = Ok (rev_int v, Some (entry_kv f e), True)"
  by (auto simp: getResult_def newModificationResultRev_def record_ref_def revRecordToEvent_entry entry_event_def)

section \<open>The contract\<close>

lemma index_record_simps [simp]:
  "kr_Rev (bk_Key (index_record e)) = fst e"
  "r_IsCreate (bk_Value (index_record e)) = r_IsCreate (snd e)"
  "r_IsDelete (bk_Value (index_record e)) = r_IsDelete (snd e)"
  "r_WriteUUID (bk_Value (index_record e)) = r_WriteUUID (snd e)"
  "r_ValueSize (bk_Value (index_record e)) = r_ValueSize (snd e)"
  "ByKeyAndRevisionRecord_GetCreateRevision (index_record e) = create_revision e"
  by (simp_all add: index_record_def ByKeyAndRevisionRecord_GetCreateRevision_def create_revision_def)

text \<open>The two reads every write starts with.\<close>

lemma write_start:
  assumes "represents f (tr_view L t0) h" "tr_pending L t0 = []"
  obtains (ready) t where "setFirstInBatch f t0 = Ok t" "getLast f t key = Ok (map_option index_record (last_entry h key))"
      "tr_view L t = tr_view L t0" "tr_pending L t = []"
  | (unset) e where "setFirstInBatch f t0 = Err e"
  | (unread) t e where "setFirstInBatch f t0 = Ok t" "getLast f t key = Err e"
proof -
  consider t where "setFirstInBatch f t0 = Ok t" "tr_view L t = tr_view L t0" "tr_pending L t = []"
    | e where "setFirstInBatch f t0 = Err e"
    using keeps_option [of t0 710] assms(2) by (auto simp: keeps_def setFirstInBatch_def)
  then show ?thesis
  proof cases
    case (1 t)
    with getLast_sound [of t h key] assms ready unread show ?thesis by metis
  qed (rule unset)
qed

lemma Create_body_sound:
  assumes "input_ok key val lease" and mode: "\<not> UseSequentialId cfg"
    and rep: "represents f (tr_view L t0) h" and clean: "tr_pending L t0 = []"
    and uuid: "length (at_uuid a) = 16" and fresh: "fresh_stamp h (at_stamp a)"
  shows "(\<exists>e. Create_body f key val lease a t0 u = (Err e, u)) \<or>
      (\<exists>w t'. Create_body f key val lease a t0 u = (Ok (Some w, t'), u) \<and>
         tr_view L t' = tr_view L t0 \<and> tr_pending L t' = [] \<and> create_result key u h w) \<or>
      (\<exists>r w t'. Create_body f key val lease a t0 u = (Ok (Some w, t'), at_uuid a) \<and>
         mvcc_create f key val lease (at_uuid a) h = Some r \<and>
         represents f (committed L (at_stamp a) t') (h @ [(new_revision (at_stamp a), r)]) \<and>
         getResult f (at_stamp a) (Some w) = Ok (rev_int (new_revision (at_stamp a)), None, True))"
proof (cases rule: write_start [OF rep clean, where key = key, case_names ready unset unread])
  case (ready t)
  have rep': "represents f (tr_view L t) h" using rep ready(3) by simp
  let ?cr = "\<lambda>p. \<lparr>r_Key = key, r_IsDelete = False, r_IsCreate = True, r_Lease = lease,
        r_CreateRevision = createDummyVersionstamp L, r_PrevRevision = p,
        r_ValueSize = int (length val), r_WriteUUID = zeroUUID, r_Value = val, r_LatestForKey = False\<rparr>"
  have writes: ?thesis if r: "mvcc_create f key val lease (at_uuid a) h = Some ((?cr p)\<lparr>r_WriteUUID := at_uuid a\<rparr>)"
      and b: "Create_body f key val lease a t0 u = appendResult f a t u (?cr p) 0 (\<lambda>_. None)" for p
  proof -
    have size: "current_size h key = 0"
      using r by (auto simp: mvcc_create_def current_size_def Let_def split: option.splits if_splits)
    note ok = mvcc_records_ok(1) [OF rep uuid fresh r assms(1)]
    have "(\<exists>e. appendResult f a t u (?cr p) 0 (\<lambda>_. None) = (Err e, u)) \<or>
      (\<exists>t'. appendResult f a t u (?cr p) 0 (\<lambda>_. None)
          = (Ok (Some (newModificationResultKey TrVersionstamp None True), t'), at_uuid a) \<and>
        represents f (committed L (at_stamp a) t') (h @ [(new_revision (at_stamp a), (?cr p)\<lparr>r_WriteUUID := at_uuid a\<rparr>)]))"
      by (rule appendResult_sound [OF mode rep' ready(4) fresh refl]) (use ok size in simp_all)
    with r b getResult_written_none [OF is_revision_new [OF fresh]] show ?thesis by auto
  qed
  show ?thesis
  proof (cases "last_entry h key")
    case None
    with ready show ?thesis
      by (intro writes [of "createDummyVersionstamp L"]) (simp_all add: mvcc_create_def Create_body_def Let_def)
  next
    case (Some e)
    note facts = last_entry_facts [OF rep Some]
    consider (own) "r_IsCreate (snd e)" "u = r_WriteUUID (snd e)"
      | (exists) "\<not> (r_IsCreate (snd e) \<and> u = r_WriteUUID (snd e))" "\<not> r_IsDelete (snd e)"
      | (deleted) "\<not> (r_IsCreate (snd e) \<and> u = r_WriteUUID (snd e))" "r_IsDelete (snd e)" by blast
    then show ?thesis
    proof cases
      case own
      with Some ready VersionstampToInt64_revision [OF facts(1)] show ?thesis
        by (auto simp: Create_body_def returns_def create_result_def)
    next
      case exists
      with Some ready show ?thesis by (auto simp: Create_body_def)
    next
      case deleted
      with Some ready show ?thesis
        by (intro writes [of "fst e"]) (auto simp: mvcc_create_def Create_body_def Let_def)
    qed
  qed
qed (simp_all add: Create_body_def)

lemma latestRev_no_panic:
  assumes "\<not> UseSequentialId cfg"
  shows "\<exists>rv. latestRevResult f t rr = Ok (newModificationResultRev rv rr False)"
  using assms by (auto simp: latestRevResult_def RevisionSubspace_GetLatestRev_def)

lemma Update_body_sound:
  assumes "input_ok key val lease" and mode: "\<not> UseSequentialId cfg"
    and rep: "represents f (tr_view L t0) h" and clean: "tr_pending L t0 = []"
    and uuid: "length (at_uuid a) = 16" and fresh: "fresh_stamp h (at_stamp a)"
  shows "(\<exists>e. Update_body f key val revision lease a t0 u = (Err e, u)) \<or>
      (\<exists>w t'. Update_body f key val revision lease a t0 u = (Ok (Some w, t'), u) \<and>
         tr_view L t' = tr_view L t0 \<and> tr_pending L t' = [] \<and> update_result key revision u h w) \<or>
      (\<exists>r w t'. Update_body f key val revision lease a t0 u = (Ok (Some w, t'), at_uuid a) \<and>
         mvcc_update key val revision lease (at_uuid a) h = Some r \<and>
         represents f (committed L (at_stamp a) t') (h @ [(new_revision (at_stamp a), r)]) \<and>
         getResult f (at_stamp a) (Some w)
           = Ok (rev_int (new_revision (at_stamp a)), Some (entry_kv f (new_revision (at_stamp a), r)), True))"
proof (cases rule: write_start [OF rep clean, where key = key, case_names ready unset unread])
  case (ready t)
  have rep': "represents f (tr_view L t) h" using rep ready(3) by simp
  obtain rv where rv: "latestRevResult f t None = Ok (newModificationResultRev rv None False)"
    using latestRev_no_panic [OF mode] by blast
  show ?thesis
  proof (cases "last_entry h key")
    case None
    with ready rv show ?thesis by (auto simp: Update_body_def returns_def update_result_def)
  next
    case (Some e)
    note facts = last_entry_facts [OF rep Some]
    note int = VersionstampToInt64_revision [OF facts(1)]
    have "(fst e, snd e) \<in> set h" using last_entry_Some(1) [OF Some] by simp
    note get = ByRevision_Get_sound [OF rep' ready(4) this]
    consider (deleted) "r_IsDelete (snd e)" | (conflict) "\<not> r_IsDelete (snd e)" "rev_int (fst e) \<noteq> revision"
      | (match) "\<not> r_IsDelete (snd e)" "rev_int (fst e) = revision" by blast
    then show ?thesis
    proof cases
      case deleted
      with Some ready rv show ?thesis by (auto simp: Update_body_def returns_def update_result_def)
    next
      case conflict
      obtain rv' where "latestRevResult f t (record_ref e) = Ok (newModificationResultRev rv' (record_ref e) False)"
        using latestRev_no_panic [OF mode] by blast
      with get conflict Some ready int show ?thesis
        by (cases "r_WriteUUID (snd e) = u")
          (auto simp: Update_body_def returns_def update_result_def record_ref_def)
    next
      case match
      let ?r = "\<lparr>r_Key = key, r_IsDelete = False, r_IsCreate = False, r_Lease = lease,
          r_CreateRevision = create_revision e, r_PrevRevision = fst e, r_ValueSize = int (length val),
          r_WriteUUID = at_uuid a, r_Value = val, r_LatestForKey = False\<rparr>"
      have r: "mvcc_update key val revision lease (at_uuid a) h = Some ?r"
        using match Some by (simp add: mvcc_update_def)
      note ok = mvcc_records_ok(2) [OF rep uuid fresh r assms(1)]
      have b: "Update_body f key val revision lease a t0 u
          = appendResult f a t u (?r\<lparr>r_WriteUUID := zeroUUID\<rparr>) (r_ValueSize (snd e)) (\<lambda>r. Some (zeroVersionstamp, Some r))"
        using match Some ready int by (simp add: Update_body_def)
      have size: "r_ValueSize (snd e) = int (current_size h key)"
        using match Some facts(3) by (simp add: current_size_def rec_wf_def)
      have "(\<exists>e'. Update_body f key val revision lease a t0 u = (Err e', u)) \<or>
        (\<exists>t'. Update_body f key val revision lease a t0 u
            = (Ok (Some (newModificationResultKey TrVersionstamp (Some (zeroVersionstamp, Some ?r)) True), t'), at_uuid a) \<and>
          represents f (committed L (at_stamp a) t') (h @ [(new_revision (at_stamp a), ?r)]))"
        unfolding b by (rule appendResult_sound [OF mode rep' ready(4) fresh]) (use ok size in simp_all)
      with r ok getResult_written [of "at_stamp a" ?r]
      show ?thesis by auto
    qed
  qed
qed (simp_all add: Update_body_def)

lemma Delete_body_sound:
  assumes mode: "\<not> UseSequentialId cfg"
    and rep: "represents f (tr_view L t0) h" and clean: "tr_pending L t0 = []"
    and uuid: "length (at_uuid a) = 16" and fresh: "fresh_stamp h (at_stamp a)"
  shows "(\<exists>e. Delete_body f key revision a t0 u = (Err e, u)) \<or>
      (\<exists>w t'. Delete_body f key revision a t0 u = (Ok (Some w, t'), u) \<and>
         tr_view L t' = tr_view L t0 \<and> tr_pending L t' = [] \<and> delete_result key revision u h w) \<or>
      (\<exists>r w t'. Delete_body f key revision a t0 u = (Ok (Some w, t'), at_uuid a) \<and>
         mvcc_delete key revision (at_uuid a) h = Some r \<and>
         represents f (committed L (at_stamp a) t') (h @ [(new_revision (at_stamp a), r)]) \<and>
         getResult f (at_stamp a) (Some w)
           = Ok (rev_int (new_revision (at_stamp a)), Some (entry_kv f (new_revision (at_stamp a), r)), True))"
proof (cases rule: write_start [OF rep clean, where key = key, case_names ready unset unread])
  case (ready t)
  have rep': "represents f (tr_view L t) h" using rep ready(3) by simp
  obtain rv where rv: "latestRevResult f t None = Ok (newModificationResultRev rv None False)"
    using latestRev_no_panic [OF mode] by blast
  show ?thesis
  proof (cases "last_entry h key")
    case None
    with ready rv show ?thesis by (auto simp: Delete_body_def returns_def delete_result_def)
  next
    case (Some e)
    note facts = last_entry_facts [OF rep Some]
    note int = VersionstampToInt64_revision [OF facts(1)]
    have "(fst e, snd e) \<in> set h" using last_entry_Some(1) [OF Some] by simp
    from ByRevision_Get_sound [OF rep' ready(4) this] show ?thesis
    proof (elim disjE exE)
      fix err assume "ByRevision_Get f t (fst e) = Err err"
      with Some ready show ?thesis by (simp add: Delete_body_def)
    next
      assume get: "ByRevision_Get f t (fst e) = Ok (Some (by_revision_record (snd e)))"
      obtain rv' where rv': "latestRevResult f t (record_ref e) = Ok (newModificationResultRev rv' (record_ref e) False)"
        using latestRev_no_panic [OF mode] by blast
      consider (deleted) "r_IsDelete (snd e)"
        | (conflict) "\<not> r_IsDelete (snd e)" "revision \<noteq> 0" "rev_int (fst e) \<noteq> revision"
        | (match) "\<not> r_IsDelete (snd e)" "revision = 0 \<or> rev_int (fst e) = revision" by blast
      then show ?thesis
      proof cases
        case deleted
        with get Some ready rv int show ?thesis
          by (cases "r_WriteUUID (snd e) = u") (auto simp: Delete_body_def returns_def delete_result_def record_ref_def)
      next
        case conflict
        with get Some ready rv' int show ?thesis
          by (auto simp: Delete_body_def returns_def delete_result_def record_ref_def)
      next
        case match
        let ?r = "(snd e)\<lparr>r_IsDelete := True, r_IsCreate := False, r_CreateRevision := create_revision e,
            r_PrevRevision := fst e, r_WriteUUID := at_uuid a, r_LatestForKey := False\<rparr>"
        have r: "mvcc_delete key revision (at_uuid a) h = Some ?r" using match Some by (auto simp: mvcc_delete_def)
        note ok = mvcc_records_ok(3) [OF rep uuid fresh r]
        have rec: "\<lparr>r_Key = key, r_IsDelete = True, r_IsCreate = False, r_Lease = r_Lease (snd e),
            r_CreateRevision = create_revision e, r_PrevRevision = fst e, r_ValueSize = r_ValueSize (snd e),
            r_WriteUUID = zeroUUID, r_Value = r_Value (snd e), r_LatestForKey = False\<rparr> = ?r\<lparr>r_WriteUUID := zeroUUID\<rparr>"
          by (rule Record.equality) (simp_all add: facts(2))
        have b: "Delete_body f key revision a t0 u
            = appendResult f a t u (?r\<lparr>r_WriteUUID := zeroUUID\<rparr>) 0 (\<lambda>r. Some (zeroVersionstamp, Some r))"
          unfolding rec [symmetric] using match Some ready get int by (auto simp: Delete_body_def by_revision_record_def)
        have "(\<exists>e'. Delete_body f key revision a t0 u = (Err e', u)) \<or>
          (\<exists>t'. Delete_body f key revision a t0 u
              = (Ok (Some (newModificationResultKey TrVersionstamp (Some (zeroVersionstamp, Some ?r)) True), t'), at_uuid a) \<and>
            represents f (committed L (at_stamp a) t') (h @ [(new_revision (at_stamp a), ?r)]))"
          unfolding b by (rule appendResult_sound [OF mode rep' ready(4) fresh]) (use ok in simp_all)
        with r ok getResult_written [of "at_stamp a" ?r]
        show ?thesis by auto
      qed
    qed
  qed
qed (simp_all add: Delete_body_def)

lemma last_entry_local: "of_key key h = of_key key h' \<Longrightarrow> last_entry h key = last_entry h' key"
  by (simp add: last_entry_def)

lemma last_entry_landed: "r_Key r = key \<Longrightarrow> of_key key h2 = [] \<Longrightarrow> last_entry (h1 @ (v, r) # h2) key = Some (v, r)"
  by (simp add: last_entry_def)

lemma mvcc_record:
  "mvcc_create f key val lease uuid h = Some r \<Longrightarrow> r_Key r = key \<and> r_WriteUUID r = uuid \<and> r_IsCreate r \<and> \<not> r_IsDelete r"
  "mvcc_update key val revision lease uuid h = Some r \<Longrightarrow> r_Key r = key \<and> r_WriteUUID r = uuid \<and> \<not> r_IsDelete r"
  "mvcc_delete key revision uuid h = Some r \<Longrightarrow> r_Key r = key \<and> r_WriteUUID r = uuid \<and> r_IsDelete r"
  using last_entry_Some
  by (auto simp: mvcc_create_def mvcc_update_def mvcc_delete_def Let_def split: option.splits if_splits)

lemma mvcc_update_once:
  assumes rep: "represents f m h" and fresh: "fresh_stamp h st"
    and r: "mvcc_update key val revision lease uuid h = Some r"
  shows "mvcc_update key val revision lease uuid' (h @ [(new_revision st, r)]) = None"
proof -
  from r obtain e where e: "last_entry h key = Some e" "rev_int (fst e) = revision"
    by (auto simp: mvcc_update_def split: option.splits if_splits)
  have "vs_key (fst e) < vs_key (new_revision st)"
    using fresh last_entry_Some(1) [OF e(1)] by (simp add: fresh_stamp_def)
  then have "rev_int (new_revision st) \<noteq> revision"
    using rev_int_less_iff [OF last_entry_facts(1) [OF rep e(1)] is_revision_new [OF fresh]] e(2) by simp
  with mvcc_record(2) [OF r] show ?thesis by (simp add: mvcc_update_def last_entry_snoc)
qed

end

sublocale fdb_driver \<subseteq> create: mvcc_writer L cfg dir f
    "input_ok key val lease \<and> \<not> UseSequentialId cfg" key "Create_body f key val lease"
    "mvcc_create f key val lease" "create_result key" "\<lambda>_. None" for key val lease
proof (unfold_locales, goal_cases)
  case (1 t h a u)
  then show ?case using Create_body_sound [of key val lease t h a u] by blast
next
  case (2 uuid h r)
  with mvcc_record(1) show ?case by blast
next
  case (3 h h' uuid)
  then show ?case by (simp add: mvcc_create_def last_entry_local [of key h h'])
next
  case (4 m h st uuid r uuid')
  with mvcc_record(1) [OF 4(3)] show ?case by (simp add: mvcc_create_def last_entry_snoc Let_def)
next
  case (5 u h w m h1 v r h2 st)
  have "last_entry h key = Some (v, r)" "entry_ok L (v, r)"
    using 5 mvcc_record(1) [OF 5(4)] by (auto simp: last_entry_landed represents_def)
  with 5(1) getResult_own(1) [of st v] show ?case by (auto simp: create_result_def)
qed

sublocale fdb_driver \<subseteq> update: mvcc_writer L cfg dir f
    "input_ok key val lease \<and> \<not> UseSequentialId cfg" key "Update_body f key val revision lease"
    "mvcc_update key val revision lease" "update_result key revision" "\<lambda>e. Some (entry_kv f e)" for key val revision lease
proof (unfold_locales, goal_cases)
  case (1 t h a u)
  then show ?case using Update_body_sound [of key val lease t h a revision u] by blast
next
  case (2 uuid h r)
  with mvcc_record(2) show ?case by blast
next
  case (3 h h' uuid)
  then show ?case by (simp add: mvcc_update_def last_entry_local [of key h h'])
next
  case (4 m h st uuid r uuid')
  then show ?case by (rule mvcc_update_once)
next
  case (5 u h w m h1 v r h2 st)
  have "last_entry h key = Some (v, r)" "entry_ok L (v, r)"
    using 5 mvcc_record(2) [OF 5(4)] by (auto simp: last_entry_landed represents_def)
  with 5(1) mvcc_record(2) [OF 5(4)] getResult_own(2) [of "(v, r)" st v] show ?case
    by (auto simp: update_result_def)
qed

sublocale fdb_driver \<subseteq> delete: mvcc_writer L cfg dir f
    "\<not> UseSequentialId cfg" key "Delete_body f key revision"
    "mvcc_delete key revision" "delete_result key revision" "\<lambda>e. Some (entry_kv f e)" for key revision
proof (unfold_locales, goal_cases)
  case (1 t h a u)
  then show ?case using Delete_body_sound [of t h a key revision u] by blast
next
  case (2 uuid h r)
  with mvcc_record(3) show ?case by blast
next
  case (3 h h' uuid)
  then show ?case by (simp add: mvcc_delete_def last_entry_local [of key h h'])
next
  case (4 m h st uuid r uuid')
  with mvcc_record(3) [OF 4(3)] show ?case by (simp add: mvcc_delete_def last_entry_snoc)
next
  case (5 u h w m h1 v r h2 st)
  have "last_entry h key = Some (v, r)" "entry_ok L (v, r)"
    using 5 mvcc_record(3) [OF 5(4)] by (auto simp: last_entry_landed represents_def)
  with 5(1) mvcc_record(3) [OF 5(4)] getResult_own(2) [of "(v, r)" st v] show ?case
    by (auto simp: delete_result_def)
qed

end
