(* ===== verification/FDB_Calls.thy ===== *)
theory FDB_Calls
  imports FDB_Writers
begin

text \<open>
  The write calls as kine sees them: what \<^verbatim>\<open>Create\<close>, \<^verbatim>\<open>Update\<close> and \<^verbatim>\<open>Delete\<close> return, and what they leave in
  the database, after all attempts.
\<close>

text \<open>The UUIDs a call compares or writes; they are random, so a history does not hold them before.\<close>

definition call_uuids :: "bytes \<Rightarrow> 'd attempt list \<Rightarrow> bytes set" where
  "call_uuids uuid script = insert uuid (at_uuid ` set script)"

definition unused :: "bytes set \<Rightarrow> entry list \<Rightarrow> bool" where
  "unused U h \<longleftrightarrow> (\<forall>e\<in>set h. r_WriteUUID (snd e) \<notin> U)"

text \<open>The state a call starts from: a database that holds the history \<open>h\<close>, and other clients that leave \<open>key\<close> alone.\<close>

definition starts :: "('d, 't) FDB \<Rightarrow> bytes \<Rightarrow> bytes \<Rightarrow> bytes \<Rightarrow> 'd attempt list \<Rightarrow> 'd driver \<Rightarrow> entry list \<Rightarrow> bool" where
  "starts f key lo uuid script s h \<longleftrightarrow>
     represents f (db_view (f_lib f) (d_db s)) h \<and> below lo h \<and> quiet_script f key lo script \<and>
     unused (call_uuids uuid script) h"

text \<open>
  What a call leaves: \<open>appended\<close> one entry, its record being due by \<open>spec\<close> for one of the call's
  UUIDs, or the entries of the key as they were; and \<open>answer\<close>, of the entry appended, or an error.
\<close>

definition call_result ::
    "('d, 't) FDB \<Rightarrow> bytes \<Rightarrow> bytes set \<Rightarrow> (bytes \<Rightarrow> entry list \<Rightarrow> Record option) \<Rightarrow> (entry option \<Rightarrow> 'a \<Rightarrow> bool)
     \<Rightarrow> entry list \<Rightarrow> 'a res \<Rightarrow> 'd driver \<Rightarrow> bool" where
  "call_result f key U spec answer h res s' \<longleftrightarrow>
     (\<exists>h'. represents f (db_view (f_lib f) (d_db s')) h' \<and>
        (\<exists>appended. of_key key h' = of_key key h @ (case appended of None \<Rightarrow> [] | Some e \<Rightarrow> [e]) \<and>
           (case appended of None \<Rightarrow> True | Some e \<Rightarrow> \<exists>u\<in>U. spec u h = Some (snd e)) \<and>
           ((\<exists>e. res = Err e) \<or> (\<exists>x. res = Ok x \<and> answer appended x))))"

text \<open>The newest entry of a key that is not deleted.\<close>

definition live_entry :: "entry list \<Rightarrow> bytes \<Rightarrow> entry option" where
  "live_entry h key =
     (case last_entry h key of None \<Rightarrow> None | Some e \<Rightarrow> if r_IsDelete (snd e) then None else Some e)"

text \<open>
  Answers. \<^verbatim>\<open>Create\<close> answers with the revision it wrote and with nothing else. The other two answer
  with the entry they wrote and success, or, when none was due, with what the key holds and no success.
\<close>

definition create_answer :: "entry option \<Rightarrow> int64 \<Rightarrow> bool" where
  "create_answer appended i \<longleftrightarrow> (case appended of None \<Rightarrow> False | Some e \<Rightarrow> i = rev_int (fst e))"

definition txn_answer ::
    "('d, 't) FDB \<Rightarrow> bytes \<Rightarrow> (bytes \<Rightarrow> entry list \<Rightarrow> Record option) \<Rightarrow> entry list \<Rightarrow> entry option
     \<Rightarrow> int64 \<times> KeyValue option \<times> bool \<Rightarrow> bool" where
  "txn_answer f key spec h appended x \<longleftrightarrow>
     (case appended of
        None \<Rightarrow> (\<forall>u. spec u h = None) \<and> snd x = (map_option (entry_kv f) (live_entry h key), False)
      | Some e \<Rightarrow> x = (rev_int (fst e), Some (entry_kv f e), True))"

context fdb_driver
begin

lemma last_entry_unused:
  assumes "of_key key h' = of_key key h" "unused U h" "last_entry h' key = Some e"
  shows "r_WriteUUID (snd e) \<notin> U"
proof -
  have "last_entry h key = Some e" using assms(1,3) by (simp add: last_entry_def)
  with last_entry_Some(1) assms(2) show ?thesis by (auto simp: unused_def)
qed

lemma finish_result:
  assumes "call_outcome f key U spec result reply h st r (db_view L d)"
    and "finish f s (Some (r, st, d, u)) = Some (res, s')"
    and "\<And>h' w u. represents f (db_view L d) h' \<Longrightarrow> of_key key h' = of_key key h \<Longrightarrow> u \<in> U \<Longrightarrow> result u h' w \<Longrightarrow>
      (\<exists>e. getResult f st (Some w) = Err e) \<or> (\<exists>x. getResult f st (Some w) = Ok x \<and> answer None x)"
    and "\<And>e. answer (Some e) (rev_int (fst e), reply e, True)"
  shows "call_result f key U spec answer h res s'"
proof -
  have s': "d_db s' = d" using assms(2) by (cases r) (auto simp: finish_def kickPoll_def)
  from assms(1) obtain h' where h': "represents f (db_view L d) h'"
    and "of_key key h' = of_key key h \<and>
        ((\<exists>e. r = Err e) \<or> (\<exists>w. \<exists>u\<in>U. r = Ok (Some w) \<and> result u h' w)) \<or>
      (\<exists>v s. \<exists>u\<in>U. spec u h = Some s \<and> of_key key h' = of_key key h @ [(v, s)] \<and>
        ((\<exists>e. r = Err e) \<or> (\<exists>w. r = Ok w \<and> getResult f st w = Ok (rev_int v, reply (v, s), True))))"
    unfolding call_outcome_def by blast
  then consider (same) "of_key key h' = of_key key h" "(\<exists>e. r = Err e) \<or> (\<exists>w. \<exists>u\<in>U. r = Ok (Some w) \<and> result u h' w)"
    | (new) v s where "\<exists>u\<in>U. spec u h = Some s" "of_key key h' = of_key key h @ [(v, s)]"
        "(\<exists>e. r = Err e) \<or> (\<exists>w. r = Ok w \<and> getResult f st w = Ok (rev_int v, reply (v, s), True))" by blast
  then show ?thesis
  proof cases
    case same
    have "(\<exists>e. res = Err e) \<or> (\<exists>x. res = Ok x \<and> answer None x)"
      using same(2)
    proof (elim disjE exE bexE conjE)
      fix e assume "r = Err e"
      with assms(2) show ?thesis by (auto simp: finish_def)
    next
      fix w u assume w: "u \<in> U" "r = Ok (Some w)" "result u h' w"
      then have "res = getResult f st (Some w)" using assms(2) by (simp add: finish_def)
      with assms(3) [OF h' same(1) w(1,3)] show ?thesis by metis
    qed
    with same(1) h' s' show ?thesis
      unfolding call_result_def by (intro exI [of _ h'] conjI exI [of _ None]) simp_all
  next
    case (new v rec)
    have "(\<exists>e. res = Err e) \<or> (\<exists>x. res = Ok x \<and> answer (Some (v, rec)) x)"
      using new(3) assms(2) assms(4) [of "(v, rec)"] by (auto simp: finish_def)
    with new h' s' show ?thesis
      unfolding call_result_def by (intro exI [of _ h'] conjI exI [of _ "Some (v, rec)"]) simp_all
  qed
qed

lemma call_result_mono:
  assumes "call_result f key U spec answer h res s'" "\<And>a x. answer a x \<Longrightarrow> answer' a (g x)"
  shows "call_result f key U spec answer' h (map_res g res) s'"
  using assms unfolding call_result_def by (fastforce split: option.splits)

text \<open>The answer of a call that fails the comparison: the newest entry of the key, and no success.\<close>

lemma getResult_refused:
  assumes "rr = None \<or> rr = record_ref e \<and> entry_ok L e"
  shows "(\<exists>err. getResult f st (Some (newModificationResultRev rv rr False)) = Err err) \<or>
    (\<exists>i. getResult f st (Some (newModificationResultRev rv rr False))
       = Ok (i, map_option (\<lambda>_. entry_kv f e) rr, False))"
  using assms
  by (cases rv) (auto simp: getResult_def newModificationResultRev_def record_ref_def revRecordToEvent_entry entry_event_def)

lemma transact_result:
  assumes "\<And>U h' st w u. call_uuids uuid script = U \<Longrightarrow> of_key key h' = of_key key h \<Longrightarrow> u \<in> U \<Longrightarrow> 
      (\<forall>e. last_entry h' key = Some e \<longrightarrow> r_WriteUUID (snd e) \<noteq> u \<and> entry_ok L e) \<Longrightarrow> result u h' w \<Longrightarrow>
      (\<exists>e. getResult f st (Some w) = Err e) \<or> (\<exists>x. getResult f st (Some w) = Ok x \<and> answer None x)"
    and "\<And>e. answer (Some e) (rev_int (fst e), reply e, True)"
    and "starts f key lo uuid script s h"
    and "\<And>U r st d u. transact f None body script (d_db s) uuid = Some (r, st, d, u) \<Longrightarrow> uuid \<in> U \<Longrightarrow>
      at_uuid ` set script \<subseteq> U \<Longrightarrow> call_outcome f key U spec result reply h st r (db_view L d)"
    and "finish f s (transact f None body script (d_db s) uuid) = Some (res, s')"
  shows "call_result f key (call_uuids uuid script) spec answer h res s'"
proof -
  from assms(5) obtain r st d u where t: "transact f None body script (d_db s) uuid = Some (r, st, d, u)"
    by (cases "transact f None body script (d_db s) uuid") (auto simp: finish_def)
  let ?U = "call_uuids uuid script"
  have "call_outcome f key ?U spec result reply h st r (db_view L d)"
    by (rule assms(4) [OF t]) (auto simp: call_uuids_def)
  then show ?thesis
  proof (rule finish_result [OF _ assms(5) [unfolded t]])
    fix h' w u assume h': "represents f (db_view L d) h'" "of_key key h' = of_key key h" "u \<in> ?U" "result u h' w"
    have "r_WriteUUID (snd e) \<noteq> u \<and> entry_ok L e" if "last_entry h' key = Some e" for e
      using last_entry_unused [OF h'(2) _ that] last_entry_facts(4) [OF h'(1) that] h'(3) assms(3)
      by (auto simp: starts_def)
    with assms(1) [OF refl h'(2,3) _ h'(4)] show
      "(\<exists>e. getResult f st (Some w) = Err e) \<or> (\<exists>x. getResult f st (Some w) = Ok x \<and> answer None x)" by blast
  qed (rule assms(2))
qed

lemma Create_result:
  assumes "\<not> UseSequentialId cfg" "input_ok key val lease" "starts f key lo uuid script s h"
    and "Create f key val lease uuid script s = Some (res, s')"
  shows "call_result f key (call_uuids uuid script) (mvcc_create f key val lease) create_answer h res s'"
proof -
  from assms(2,4) obtain r where r: "res = map_res fst r"
    "finish f s (transact f None (Create_body f key val lease) script (d_db s) uuid) = Some (r, s')"
    by (auto simp: Create_def input_ok_def)
  let ?answer = "\<lambda>a x. create_answer a (fst x)"
  have "call_result f key (call_uuids uuid script) (mvcc_create f key val lease) ?answer h r s'"
  proof (rule transact_result [OF _ _ assms(3) _ r(2)])
    show "call_outcome f key U (mvcc_create f key val lease) (create_result key) (\<lambda>_. None) h st r (db_view L d)"
      if "transact f None (Create_body f key val lease) script (d_db s) uuid = Some (r, st, d, u)"
        "uuid \<in> U" "at_uuid ` set script \<subseteq> U" for U r st d u
      using create.transact_outcome [OF _ _ _ _ that] assms unfolding starts_def driver_simps by blast
  qed (auto simp: create_result_def create_answer_def)
  from call_result_mono [OF this, of create_answer fst] r(1) show ?thesis by simp
qed

lemma Update_result:
  assumes "\<not> UseSequentialId cfg" "input_ok key val lease" "starts f key lo uuid script s h"
    and "Update f key val revision lease uuid script s = Some (res, s')"
  shows "call_result f key (call_uuids uuid script) (mvcc_update key val revision lease)
    (txn_answer f key (mvcc_update key val revision lease) h) h res s'"
proof (rule transact_result [OF _ _ assms(3)])
  show "finish f s (transact f None (Update_body f key val revision lease) script (d_db s) uuid) = Some (res, s')"
    using assms(2,4) by (simp add: Update_def input_ok_def)
  show "call_outcome f key U (mvcc_update key val revision lease) (update_result key revision)
      (\<lambda>e. Some (entry_kv f e)) h st r (db_view L d)"
    if "transact f None (Update_body f key val revision lease) script (d_db s) uuid = Some (r, st, d, u)"
      "uuid \<in> U" "at_uuid ` set script \<subseteq> U" for U r st d u
    using update.transact_outcome [OF _ _ _ _ that] assms unfolding starts_def driver_simps by blast
next
  fix U h' st w u
  assume h: "of_key key h' = of_key key h" and w: "update_result key revision u h' w"
    and e: "\<forall>e. last_entry h' key = Some e \<longrightarrow> r_WriteUUID (snd e) \<noteq> u \<and> entry_ok L e"
  have l: "last_entry h key = last_entry h' key" using last_entry_local [OF h] by simp
  show "(\<exists>e. getResult f st (Some w) = Err e) \<or>
    (\<exists>x. getResult f st (Some w) = Ok x \<and> txn_answer f key (mvcc_update key val revision lease) h None x)"
  proof (cases "live_entry h key")
    case None
    then obtain rv where "w = newModificationResultRev rv None False"
      using w l by (auto simp: update_result_def live_entry_def split: option.splits if_splits)
    moreover have "mvcc_update key val revision lease u' h = None" for u'
      using None by (auto simp: mvcc_update_def live_entry_def split: option.splits if_splits)
    ultimately show ?thesis
      using None getResult_refused [of None _ st rv] by (auto simp: txn_answer_def)
  next
    case (Some x)
    then have x: "last_entry h key = Some x" "\<not> r_IsDelete (snd x)"
      by (auto simp: live_entry_def split: option.splits if_splits)
    then have x': "last_entry h' key = Some x" "r_WriteUUID (snd x) \<noteq> u" "entry_ok L x" using l e by auto
    with w x(2) obtain rv where "w = newModificationResultRev rv (record_ref x) False" "rev_int (fst x) \<noteq> revision"
      by (auto simp: update_result_def)
    with x x'(3) Some getResult_refused [of "record_ref x" x st rv] show ?thesis
      by (auto simp: txn_answer_def mvcc_update_def record_ref_def)
  qed
qed (simp add: txn_answer_def)

lemma Delete_result:
  assumes "\<not> UseSequentialId cfg" "starts f key lo uuid script s h"
    and "Delete f key revision uuid script s = Some (res, s')"
  shows "call_result f key (call_uuids uuid script) (mvcc_delete key revision)
    (txn_answer f key (mvcc_delete key revision) h) h res s'"
proof (rule transact_result [OF _ _ assms(2)])
  show "finish f s (transact f None (Delete_body f key revision) script (d_db s) uuid) = Some (res, s')"
    using assms(3) by (simp add: Delete_def)
  show "call_outcome f key U (mvcc_delete key revision) (delete_result key revision)
      (\<lambda>e. Some (entry_kv f e)) h st r (db_view L d)"
    if "transact f None (Delete_body f key revision) script (d_db s) uuid = Some (r, st, d, u)"
      "uuid \<in> U" "at_uuid ` set script \<subseteq> U" for U r st d u
    using delete.transact_outcome [OF _ _ _ _ that] assms unfolding starts_def driver_simps by blast
next
  fix U h' st w u
  assume h: "of_key key h' = of_key key h" and w: "delete_result key revision u h' w"
    and e: "\<forall>e. last_entry h' key = Some e \<longrightarrow> r_WriteUUID (snd e) \<noteq> u \<and> entry_ok L e"
  have l: "last_entry h key = last_entry h' key" using last_entry_local [OF h] by simp
  show "(\<exists>e. getResult f st (Some w) = Err e) \<or>
    (\<exists>x. getResult f st (Some w) = Ok x \<and> txn_answer f key (mvcc_delete key revision) h None x)"
  proof (cases "live_entry h key")
    case None
    then obtain rv where "w = newModificationResultRev rv None False"
      using w l e by (auto simp: delete_result_def live_entry_def split: option.splits if_splits)
    moreover have "mvcc_delete key revision u' h = None" for u'
      using None by (auto simp: mvcc_delete_def live_entry_def split: option.splits if_splits)
    ultimately show ?thesis
      using None getResult_refused [of None _ st rv] by (auto simp: txn_answer_def)
  next
    case (Some x)
    then have x: "last_entry h key = Some x" "\<not> r_IsDelete (snd x)"
      by (auto simp: live_entry_def split: option.splits if_splits)
    then have x': "last_entry h' key = Some x" "r_WriteUUID (snd x) \<noteq> u" "entry_ok L x" using l e by auto
    with w x(2) obtain rv where "w = newModificationResultRev rv (record_ref x) False" "revision \<noteq> 0" "rev_int (fst x) \<noteq> revision"
      by (auto simp: delete_result_def)
    with x x'(3) Some getResult_refused [of "record_ref x" x st rv] show ?thesis
      by (auto simp: txn_answer_def mvcc_delete_def record_ref_def)
  qed
qed (simp add: txn_answer_def)

end

end
