(* ===== verification/FDB_Batches.thy ===== *)
theory FDB_Batches
  imports FDB_Start FDB_Calls
begin

text \<open>
  Reasoning about transactions and batches: an invariant of the database and of what the closure captures
  that every attempt keeps, whatever becomes of its commit, holds when the call returns; a batch
  reader's invariant is carried from batch to batch.
\<close>

section \<open>Transactions\<close>

text \<open>A transaction that reads the database \<open>d\<close> and has written nothing.\<close>

definition reads :: "('d, 't) fdb_lib \<Rightarrow> 't \<Rightarrow> 'd \<Rightarrow> bool" where
  "reads L t d \<longleftrightarrow> tr_view L t = db_view L d \<and> tr_pending L t = [] \<and> tr_version L t = db_version L d"

text \<open>
  The other clients keep \<open>Inv\<close>; so does the closure, if it fails, if it commits and if its commit
  is lost; if it commits it establishes \<open>Post\<close>.
\<close>

definition attempt_ok ::
    "('d, 't) fdb_lib \<Rightarrow> ('d \<Rightarrow> 'c \<Rightarrow> bool) \<Rightarrow> ('a \<Rightarrow> bytes \<Rightarrow> 'd \<Rightarrow> 'c \<Rightarrow> bool)
     \<Rightarrow> ('d attempt \<Rightarrow> 't \<Rightarrow> 'c \<Rightarrow> ('a \<times> 't) res \<times> 'c) \<Rightarrow> 'd attempt \<Rightarrow> bool" where
  "attempt_ok L Inv Post body a \<longleftrightarrow>
     (\<forall>d c. Inv d c \<longrightarrow> Inv (at_before a d) c) \<and>
     (\<forall>d c t r c'. Inv d c \<and> reads L t d \<and> body a t c = (r, c') \<longrightarrow>
        Inv d c' \<and>
        ((\<exists>e. r = Err e) \<or>
         (\<exists>x t'. r = Ok (x, t') \<and> Inv (tr_Commit L (at_stamp a) t') c' \<and>
            Post x (at_stamp a) (tr_Commit L (at_stamp a) t') c')))"

context fdb_driver
begin

lemma log_conflicts_of_Err: "\<exists>e'. log_conflicts f a (Err e) = Err e'"
  by (auto simp: log_conflicts_def split: option.split)

lemma wrapped_keeps:
  assumes ok: "attempt_ok L Inv Post body a" and "Inv d c"
    and w: "transact_wrapped f zero body a (d, t, c) = (r, d', t', c')"
  shows "Inv d' c' \<and> ((\<exists>e. r = Err e) \<or> (\<exists>x. r = Ok x \<and> Post x (at_stamp a) d' c'))"
proof -
  let ?d = "at_before a d"
  let ?t = "tr_Reset L ?d t"
  have inv: "Inv ?d c" using ok assms(2) by (simp add: attempt_ok_def)
  consider t2 where "transact_options f ?t = Ok t2" "reads L t2 ?d" | e where "transact_options f ?t = Err e"
    using transact_options_keeps [of ?t] by (auto simp: keeps_def reads_def reset_view reset_version)
  then show ?thesis
  proof cases
    case 2
    with w inv show ?thesis by (auto simp: transact_wrapped_def Let_def)
  next
    case (1 t2)
    obtain br c2 where b: "body a t2 c = (br, c2)" by (cases "body a t2 c")
    from ok inv 1(2) b have step: "Inv ?d c2" "(\<exists>e. br = Err e) \<or>
         (\<exists>x t'. br = Ok (x, t') \<and> Inv (tr_Commit L (at_stamp a) t') c2 \<and>
            Post x (at_stamp a) (tr_Commit L (at_stamp a) t') c2)"
      unfolding attempt_ok_def by blast+
    from step(2) show ?thesis
    proof (elim disjE exE conjE)
      fix e assume "br = Err e"
      with b 1(1) w step(1) log_conflicts_of_Err [of a e] show ?thesis
        by (auto simp: transact_wrapped_def Let_def)
    next
      fix x t3 assume x: "br = Ok (x, t3)" "Inv (tr_Commit L (at_stamp a) t3) c2"
        "Post x (at_stamp a) (tr_Commit L (at_stamp a) t3) c2"
      with b 1(1) w step(1) log_conflicts_of_Err [of a] show ?thesis
        by (cases "at_commit a") (auto simp: transact_wrapped_def Let_def commit_get_def dest: sym)
    qed
  qed
qed

lemma retryable_keeps:
  assumes "\<forall>a\<in>set script. attempt_ok L Inv Post body a" "Inv d c"
    and "retryable force (transact_wrapped f zero body) i script (d, t, c) = Some (r, a, d', t', c')"
  shows "Inv d' c' \<and> ((\<exists>e. r = Err e) \<or> (\<exists>x. r = Ok x \<and> Post x (at_stamp a) d' c'))"
  using assms
proof (induction script arbitrary: i d t c)
  case Nil
  then show ?case by simp
next
  case (Cons b script)
  obtain r1 d1 t1 c1 where w: "transact_wrapped f zero body b (d, t, c) = (r1, d1, t1, c1)"
    by (metis prod_cases4)
  from Cons.prems have "attempt_ok L Inv Post body b" by simp
  from wrapped_keeps [OF this Cons.prems(2) w] have step: "Inv d1 c1"
    "(\<exists>e. r1 = Err e) \<or> (\<exists>x. r1 = Ok x \<and> Post x (at_stamp b) d1 c1)" by blast+
  have again: ?case if "retryable force (transact_wrapped f zero body) (Suc i) script (d1, t1, c1) = Some (r, a, d', t', c')"
    using Cons.IH [OF _ step(1) that] Cons.prems(1) by simp
  have np: "r1 \<noteq> Panic p" for p using step(2) by auto
  show ?case
  proof (cases "(if force i then Err (FdbError 1021) else r1)")
    case (Err e)
    let ?o = "case as_fdb_error e of Some ep \<Rightarrow> at_OnError b ep | None \<Rightarrow> Some e"
    have "Some (r, a, d', t', c') = (case ?o of Some e' \<Rightarrow> Some (Err e', b, d1, t1, c1)
        | None \<Rightarrow> retryable force (transact_wrapped f zero body) (Suc i) script (d1, t1, c1))"
      using Cons.prems(3) Err np by (cases r1) (auto simp: w split: if_splits)
    then show ?thesis using again step(1) by (cases ?o) auto
  next
    case (Ok x)
    with Cons.prems(3) np have "r = r1" "a = b" "d' = d1" "c' = c1"
      by (cases r1; simp add: w split: if_splits)+
    with step show ?thesis by simp
  next
    case (Panic p)
    with np show ?thesis by (auto split: if_splits)
  qed
qed

theorem transact_keeps:
  assumes "\<forall>a\<in>set script. attempt_ok L Inv Post body a" "Inv d c"
    and "transact f zero body script d c = Some (r, st, d', c')"
  shows "Inv d' c' \<and> ((\<exists>e. r = Err e) \<or> (\<exists>x. r = Ok x \<and> Post x st d' c'))"
proof (cases "db_CreateTransaction L d")
  case (Inl e)
  with assms(2,3) show ?thesis by (auto simp: transact_def)
next
  case (Inr t)
  with assms(3) obtain a t' where
    "retryable (forceRetryTransaction cfg) (transact_wrapped f zero body) 0 script (d, t, c) = Some (r, a, d', t', c')"
    "st = at_stamp a" by (auto simp: transact_def)
  with retryable_keeps [OF assms(1,2)] show ?thesis by blast
qed

section \<open>Batches\<close>

lemma processBatch_keeps:
  assumes "\<forall>a\<in>set script. attempt_ok L Inv Post (processBatch_body f p sel) a" "Inv d s"
    and "processBatch f p sel script d s = Some (r, st, d', s')"
  obtains (err) e s1 where "r = Err e" "s' = p_postBatch p s1" "Inv d' s1"
  | (ok) x s1 where "r = Ok x" "s' = p_postBatch p s1" "Post x st d' s1"
proof -
  from assms(3) obtain r0 st0 d0 s0 where t:
    "transact f \<lparr>br_lastReadKey = None, br_collectorNeedsMore = False\<rparr> (processBatch_body f p sel) script d s
      = Some (r0, st0, d0, s0)" by (auto simp: processBatch_def split: option.splits)
  from transact_keeps [OF assms(1,2) t] assms(3) t err ok show ?thesis
    by (cases r0) (auto simp: processBatch_def)
qed

lemma processRange_keeps:
  assumes "\<And>sel script a. script \<in> set scripts \<Longrightarrow> a \<in> set script \<Longrightarrow> snd sel = stop \<Longrightarrow>
      attempt_ok L (Inv sel) (Post sel) (processBatch_body f p sel) a"
    and "\<And>sel res st d s k. Post sel res st d s \<Longrightarrow> br_collectorNeedsMore res \<Longrightarrow> snd sel = stop \<Longrightarrow>
      \<exists>k. br_lastReadKey res = Some k \<and> Inv (FirstGreaterThan k, stop) d (p_postBatch p s)"
    and "Inv sel d s" "snd sel = stop"
    and "processRange f p sel scripts d s = Some (r, st, d', s')"
  shows "(\<exists>e sel1 s1. r = Err e \<and> s' = p_postBatch p s1 \<and> Inv sel1 d' s1) \<or>
    (\<exists>sel1 res s1. r = Ok () \<and> s' = p_postBatch p s1 \<and> snd sel1 = stop \<and> Post sel1 res st d' s1 \<and> \<not> br_collectorNeedsMore res)"
  using assms(1,3-)
proof (induction scripts arbitrary: sel d s)
  case Nil
  then show ?case by simp
next
  case (Cons script scripts)
  from Cons.prems(4) obtain r0 st0 d0 s0 where b: "processBatch f p sel script d s = Some (r0, st0, d0, s0)"
    by (auto split: option.splits)
  have ok: "\<forall>a\<in>set script. attempt_ok L (Inv sel) (Post sel) (processBatch_body f p sel) a"
    using Cons.prems(1) [of script _ sel] Cons.prems(3) by simp
  from ok Cons.prems(2) b show ?case
  proof (cases rule: processBatch_keeps [case_names err ok])
    case (err e s1)
    with Cons.prems(4) b show ?thesis by (intro disjI1 exI [of _ e] exI [of _ sel] exI [of _ s1]) auto
  next
    case (ok x s1)
    show ?thesis
    proof (cases "br_collectorNeedsMore x")
      case False
      with ok Cons.prems(3,4) b show ?thesis by (intro disjI2 exI [of _ sel] exI [of _ x] exI [of _ s1]) auto
    next
      case True
      from assms(2) [OF ok(3) True Cons.prems(3)] obtain k where
        k: "br_lastReadKey x = Some k" "Inv (FirstGreaterThan k, stop) d0 (p_postBatch p s1)" by blast
      have "processRange f p (FirstGreaterThan k, stop) scripts d0 (p_postBatch p s1) = Some (r, st, d', s')"
        using Cons.prems(3,4) b ok True k by simp
      then show ?thesis by (rule Cons.IH [OF _ k(2), rotated 2]) (auto intro: Cons.prems(1))
    qed
  qed
qed

text \<open>A transaction that has only read commits nothing.\<close>

lemma commit_read_only:
  assumes "reads L t d"
  shows "db_view L (tr_Commit L st t) = db_view L d" "db_version L d \<le> db_version L (tr_Commit L st t)"
  using assms commit_version(1) [of t st] by (auto simp: reads_def commit_view stamp_all_def)

end

end
