(* ===== verification/FDB_Scan.thy ===== *)
theory FDB_Scan
  imports FDB_Batches "HOL-Library.Multiset"
begin

text \<open>
  The walk of the index: what \<^verbatim>\<open>recordCollector\<close> hands on, as a function of the entries it sees, and why
  splitting it into batches, with other clients writing in between, does not change the outcome.
\<close>

section \<open>Unfolding the loop of a batch\<close>

lemma processBatch_loop_step:
  assumes "p_next p t it s = (Ok (Some k, m, t1, it1), s1)" "length it1 < length it"
  shows "processBatch_loop p slow i t it s =
    (if slow i \<or> \<not> m then (Ok (\<lparr>br_lastReadKey = Some k, br_collectorNeedsMore = m\<rparr>, t1), s1)
     else processBatch_loop p slow (Suc i) t1 it1 s1)"
  using assms by (subst processBatch_loop.simps) (simp add: Let_def)

lemma processBatch_loop_stop:
  assumes "p_next p t it s = (Ok (None, m, t1, it1), s1)"
  shows "processBatch_loop p slow i t it s = (Ok (\<lparr>br_lastReadKey = None, br_collectorNeedsMore = False\<rparr>, t1), s1)"
  using assms by (subst processBatch_loop.simps) (simp add: Let_def)

lemma processBatch_loop_error:
  assumes "p_next p t it s = (Err e, s1)"
  shows "processBatch_loop p slow i t it s = (Err e, s1)"
  using assms by (subst processBatch_loop.simps) simp

lemma recordProcessor_simps [simp]:
  "p_startBatch (recordProcessor f inner) = recordCollector_startBatch inner"
  "p_next (recordProcessor f inner) = recordCollector_next f inner"
  "p_endBatch (recordProcessor f inner) = recordCollector_endBatch f inner"
  "p_postBatch (recordProcessor f inner) = recordCollector_postBatch inner"
  by (simp_all add: recordProcessor_def)

section \<open>The newest entry of each key\<close>

definition entry_key :: "entry \<Rightarrow> bytes" where
  "entry_key e = r_Key (snd e)"

text \<open>The last entry of each run of equal keys, without the deletions.\<close>

fun newest :: "entry list \<Rightarrow> entry list" where
  "newest [] = []"
| "newest (e # es) =
     (if es \<noteq> [] \<and> entry_key (hd es) = entry_key e then newest es
      else if r_IsDelete (snd e) then newest es else e # newest es)"

text \<open>
  The walk itself: a candidate, with whether it is the newest of its key as far as seen, and the
  candidates handed on. \<open>vis\<close> are the entries of the requested revision.
\<close>

type_synonym candidate = "(entry \<times> bool) option"

definition pending :: "candidate \<Rightarrow> (entry \<times> bool) list" where
  "pending cur = (case cur of None \<Rightarrow> [] | Some (c, b) \<Rightarrow> if r_IsDelete (snd c) then [] else [(c, b)])"

definition leave :: "candidate \<Rightarrow> entry \<Rightarrow> bool" where
  "leave cur e \<longleftrightarrow> (case cur of None \<Rightarrow> False | Some (c, b) \<Rightarrow> entry_key c \<noteq> entry_key e)"

definition candidate :: "(entry \<Rightarrow> bool) \<Rightarrow> candidate \<Rightarrow> entry \<Rightarrow> candidate" where
  "candidate vis cur e =
     (if vis e then Some (e, True)
      else if leave cur e then None else map_option (\<lambda>(c, b). (c, False)) cur)"

fun walk :: "(entry \<Rightarrow> bool) \<Rightarrow> candidate \<Rightarrow> entry list \<Rightarrow> candidate \<times> (entry \<times> bool) list" where
  "walk vis cur [] = (cur, [])"
| "walk vis cur (e # es) =
     (let (cur', out) = walk vis (candidate vis cur e) es
      in (cur', (if leave cur e then pending cur else []) @ out))"

fun candidate_entry :: "candidate \<Rightarrow> entry list" where
  "candidate_entry None = []"
| "candidate_entry (Some (c, b)) = [c]"

lemma newest_leave:
  "es = [] \<or> entry_key (hd es) \<noteq> entry_key e \<Longrightarrow>
    newest (e # es) = (if r_IsDelete (snd e) then [] else [e]) @ newest es"
  by auto

lemma pending_entries: "map fst (pending cur) = newest (candidate_entry cur)"
  by (cases cur) (auto simp: pending_def)

lemma walk_append:
  "walk vis cur (es @ es') =
     (let (cur1, out1) = walk vis cur es; (cur2, out2) = walk vis cur1 es' in (cur2, out1 @ out2))"
  by (induction es arbitrary: cur) (auto simp: Let_def split: prod.splits)

text \<open>
  Handing on at once what a later, invisible entry has shown to be complete changes nothing: what has been
  handed on and what the rest will give is the list of the newest visible entries.
\<close>

lemma walk_newest:
  assumes "sorted (map entry_key (es @ rest))"
    and "\<forall>c\<in>set (candidate_entry cur). \<forall>e\<in>set (es @ rest). entry_key c \<le> entry_key e"
    and "walk vis cur es = (cur', out)"
  shows "map fst out @ newest (candidate_entry cur' @ filter vis rest) = newest (candidate_entry cur @ filter vis (es @ rest))"
  using assms
proof (induction es arbitrary: cur out)
  case Nil
  then show ?case by simp
next
  case (Cons e es)
  let ?cur = "candidate vis cur e"
  obtain out1 where w: "walk vis ?cur es = (cur', out1)" "out = (if leave cur e then pending cur else []) @ out1"
    using Cons.prems(3) by (auto simp: Let_def split: prod.splits)
  have ge: "\<forall>e'\<in>set (es @ rest). entry_key e \<le> entry_key e'"
    using Cons.prems(1) by auto
  have IH: "map fst out1 @ newest (candidate_entry cur' @ filter vis rest) = newest (candidate_entry ?cur @ filter vis (es @ rest))"
  proof (rule Cons.IH [OF _ _ w(1)])
    show "sorted (map entry_key (es @ rest))" using Cons.prems(1) by simp
    show "\<forall>c\<in>set (candidate_entry ?cur). \<forall>e\<in>set (es @ rest). entry_key c \<le> entry_key e"
      using ge Cons.prems(2) by (cases cur) (auto simp: candidate_def leave_def)
  qed
  show ?case
  proof (cases cur)
    case None
    with IH w show ?thesis by (simp add: leave_def candidate_def)
  next
    case (Some cb)
    obtain c b where cb: "cb = (c, b)" by (cases cb)
    show ?thesis
    proof (cases "entry_key c = entry_key e")
      case True
      with Some cb IH w show ?thesis by (auto simp: leave_def candidate_def)
    next
      case False
      then have lv: "leave cur e" using Some cb by (simp add: leave_def)
      have "entry_key c < entry_key e" using Cons.prems(2) False Some cb by (simp add: order.not_eq_order_implies_strict)
      then have "entry_key c < entry_key e'" if "e' \<in> set (e # es @ rest)" for e'
        using ge that by (cases "e' = e") (auto intro: order.strict_trans2)
      then have "filter vis (e # es @ rest) = [] \<or> entry_key (hd (filter vis (e # es @ rest))) \<noteq> entry_key c"
        by (metis filter_is_subset hd_in_set less_irrefl subsetD)
      from newest_leave [OF this] have
        "newest (c # filter vis (e # es @ rest)) = map fst (pending cur) @ newest (filter vis (e # es @ rest))"
        using Some cb by (simp add: pending_def)
      moreover have "newest (candidate_entry ?cur @ filter vis (es @ rest)) = newest (filter vis (e # es @ rest))"
        using lv by (simp add: candidate_def)
      ultimately show ?thesis using IH w lv Some cb by simp
    qed
  qed
qed

text \<open>The flag: an entry handed on with it has no later entry of its key in the history \<open>H\<close>.\<close>

definition later :: "entry \<Rightarrow> entry \<Rightarrow> bool" where
  "later e' e \<longleftrightarrow> entry_key e' = entry_key e \<and> vs_key (fst e) < vs_key (fst e')"

definition sound_flag :: "entry set \<Rightarrow> entry set \<Rightarrow> entry \<times> bool \<Rightarrow> bool" where
  "sound_flag H unseen cb \<longleftrightarrow> (snd cb \<longrightarrow> (\<forall>e'\<in>H. later e' (fst cb) \<longrightarrow> e' \<in> unseen))"

text \<open>The order of the index: by key, then by revision.\<close>

definition index_less :: "entry \<Rightarrow> entry \<Rightarrow> bool" where
  "index_less e e' \<longleftrightarrow> entry_key e < entry_key e' \<or> later e' e"

lemma walk_flags:
  assumes "sorted_wrt index_less (es @ rest)"
    and "\<forall>e\<in>set (es @ rest). \<forall>e'\<in>H. later e' e \<longrightarrow> e' \<in> set (es @ rest)"
    and "\<forall>cb\<in>set_option cur. sound_flag H (set (es @ rest)) cb \<and> (\<forall>e\<in>set (es @ rest). entry_key (fst cb) \<le> entry_key e)"
    and "walk vis cur es = (cur', out)"
  shows "(\<forall>cb\<in>set out. sound_flag H {} cb) \<and> (\<forall>cb\<in>set_option cur'. sound_flag H (set rest) cb)"
  using assms
proof (induction es arbitrary: cur out)
  case Nil
  then show ?case by simp
next
  case (Cons e es)
  let ?cur = "candidate vis cur e"
  obtain out1 where w: "walk vis ?cur es = (cur', out1)" "out = (if leave cur e then pending cur else []) @ out1"
    using Cons.prems(4) by (auto simp: Let_def split: prod.splits)
  have less: "index_less e e'" if "e' \<in> set (es @ rest)" for e' using Cons.prems(1) that by auto
  have irrefl: "\<not> later e e" by (simp add: later_def)
  have "sound_flag H {} cb" if "cb \<in> set (pending cur)" "leave cur e" for cb
  proof -
    have cb: "cur = Some cb" "entry_key (fst cb) \<noteq> entry_key e"
      using that by (auto simp: pending_def leave_def split: option.splits if_splits)
    then have lt: "entry_key (fst cb) < entry_key e" and s: "sound_flag H (set ((e # es) @ rest)) cb"
      using Cons.prems(3) by auto
    have "\<forall>e'\<in>set ((e # es) @ rest). entry_key (fst cb) \<noteq> entry_key e'"
      using lt less by (fastforce simp: index_less_def later_def)
    with s show ?thesis unfolding sound_flag_def later_def by fastforce
  qed
  moreover have "(\<forall>cb\<in>set out1. sound_flag H {} cb) \<and> (\<forall>cb\<in>set_option cur'. sound_flag H (set rest) cb)"
  proof (rule Cons.IH [OF _ _ _ w(1)])
    show "sorted_wrt index_less (es @ rest)" using Cons.prems(1) by simp
    show "\<forall>e\<in>set (es @ rest). \<forall>e'\<in>H. later e' e \<longrightarrow> e' \<in> set (es @ rest)"
    proof (intro ballI impI)
      fix x e' assume x: "x \<in> set (es @ rest)" "e' \<in> H" "later e' x"
      then have "e' \<in> set ((e # es) @ rest)" using Cons.prems(2) by auto
      moreover have "e' \<noteq> e" using less [OF x(1)] x(3) by (auto simp: index_less_def later_def)
      ultimately show "e' \<in> set (es @ rest)" by simp
    qed
    have ge: "\<forall>e'\<in>set (es @ rest). entry_key e \<le> entry_key e'"
      using less by (fastforce simp: index_less_def later_def)
    show "\<forall>cb\<in>set_option ?cur. sound_flag H (set (es @ rest)) cb \<and> (\<forall>e\<in>set (es @ rest). entry_key (fst cb) \<le> entry_key e)"
    proof (cases "vis e")
      case True
      have "\<forall>e'\<in>H. later e' e \<longrightarrow> e' \<in> set (es @ rest)"
        using Cons.prems(2) irrefl by auto
      with True ge show ?thesis by (auto simp: candidate_def sound_flag_def)
    next
      case False
      with Cons.prems(3) show ?thesis
        by (auto simp: candidate_def sound_flag_def split: if_splits option.splits)
    qed
  qed
  ultimately show ?case using w(2) by auto
qed

lemma walk_subset:
  "walk vis cur es = (cur', out) \<Longrightarrow>
    fst ` set out \<subseteq> set (candidate_entry cur) \<union> set es \<and> set (candidate_entry cur') \<subseteq> set (candidate_entry cur) \<union> set es"
proof (induction es arbitrary: cur out)
  case Nil
  then show ?case by simp
next
  case (Cons e es)
  obtain out1 where w: "walk vis (candidate vis cur e) es = (cur', out1)" "out = (if leave cur e then pending cur else []) @ out1"
    using Cons.prems by (auto simp: Let_def split: prod.splits)
  have "set (candidate_entry (candidate vis cur e)) \<subseteq> set (candidate_entry cur) \<union> set (e # es)"
    by (cases cur) (auto simp: candidate_def)
  moreover have "fst ` set (pending cur) \<subseteq> set (candidate_entry cur)"
    by (cases cur) (auto simp: pending_def)
  ultimately show ?case using Cons.IH [OF w(1)] w(2) by (auto split: if_splits)
qed

section \<open>The entries of a range of the index\<close>

abbreviation index_key :: "('d, 't) FDB \<Rightarrow> entry \<Rightarrow> bytes" where
  "index_key f e \<equiv> fst (index_kv (f_lib f) (f_byKeyAndRevision f) e)"

definition scan :: "('d, 't) FDB \<Rightarrow> (entry \<Rightarrow> bool) \<Rightarrow> entry list \<Rightarrow> entry list" where
  "scan f Q h = sort_key (index_key f) (filter Q h)"

lemma set_scan [simp]: "set (scan f Q h) = {e \<in> set h. Q e}"
  by (auto simp: scan_def)

lemma filter_scan: "filter v (scan f Q h) = scan f (\<lambda>e. v e \<and> Q e) h"
  by (simp add: scan_def filter_sort conj_commute)

lemma sorted_index_keys: "sorted_wrt index_less es \<Longrightarrow> sorted (map entry_key es)"
  by (induction es) (auto simp: index_less_def later_def)

context fdb_driver
begin

lemma index_less_iff:
  assumes "entry_wf e" "entry_wf e'"
  shows "index_less e e' \<longleftrightarrow> index_key f e < index_key f e'"
proof -
  have imp: "index_less e e' \<Longrightarrow> index_key f e < index_key f e'" if "entry_wf e" "entry_wf e'" for e e'
  proof (unfold index_less_def, elim disjE)
    assume "entry_key e < entry_key e'"
    with that pack_less [of "TString (entry_key e)" "[TVersionstamp (fst e)]" "TString (entry_key e')" "[TVersionstamp (fst e')]"]
    show "index_key f e < index_key f e'" by (simp add: index_kv_def entry_wf_def entry_key_def)
  next
    assume "later e' e"
    with that show "index_key f e < index_key f e'"
      unfolding driver_simps(1) by (intro index_kv_keys_less) (simp_all add: later_def entry_key_def)
  qed
  have "index_less e e' \<or> index_less e' e \<or> (entry_key e = entry_key e' \<and> fst e = fst e')"
    using vs_key_inj [of "fst e" "fst e'"] assms less_linear [of "vs_key (fst e)" "vs_key (fst e')"]
      less_linear [of "entry_key e" "entry_key e'"]
    by (auto simp: index_less_def later_def entry_wf_def)
  moreover have "entry_key e = entry_key e' \<and> fst e = fst e' \<Longrightarrow> index_key f e = index_key f e'"
    using index_kv_key_eq_iff [OF assms] by (simp add: entry_key_def)
  ultimately show ?thesis using imp [OF assms] imp [OF assms(2,1)] by auto
qed

lemma index_key_inj:
  assumes "hist_wf h"
  shows "inj_on (index_key f) (set h)"
proof (rule inj_onI)
  fix e e' assume e: "e \<in> set h" "e' \<in> set h" "index_key f e = index_key f e'"
  with assms have "fst e = fst e'" using index_kv_key_eq_iff [of e e' "f_byKeyAndRevision f"] by (auto simp: hist_wf_def)
  with e assms show "e = e'" by (auto simp: hist_wf_def intro: hist_rev_inj)
qed

lemma scan_strict:
  assumes "hist_wf h"
  shows "sorted_wrt (<) (map (index_key f) (scan f Q h))"
proof -
  have "distinct (map (index_key f) (filter Q h))"
    using hist_distinct index_key_inj [OF assms] assms
    by (auto simp: distinct_map hist_wf_def intro: inj_on_subset)
  moreover have "mset (map (index_key f) (scan f Q h)) = mset (map (index_key f) (filter Q h))" by (simp add: scan_def)
  ultimately have "distinct (map (index_key f) (scan f Q h))" using mset_eq_imp_distinct_iff by metis
  then show ?thesis by (simp add: scan_def strict_sorted_iff)
qed

lemma scan_sorted:
  assumes "hist_wf h"
  shows "sorted_wrt index_less (scan f Q h)"
proof -
  have "sorted_wrt (\<lambda>e e'. index_key f e < index_key f e') (scan f Q h)"
    using scan_strict [OF assms, of Q] by (simp add: sorted_wrt_map)
  then show ?thesis
    using assms by (rule_tac sorted_wrt_mono_rel) (auto simp: hist_wf_def index_less_iff simp del: driver_simps)
qed

lemma scan_unique:
  assumes "hist_wf h" "sorted_wrt index_less es" "set es = {e \<in> set h. Q e}"
  shows "scan f Q h = es"
proof -
  have "sorted_wrt (\<lambda>e e'. index_key f e < index_key f e') es"
    using assms by (intro sorted_wrt_mono_rel [OF _ assms(2)]) (auto simp: hist_wf_def index_less_iff simp del: driver_simps)
  then have "sorted_wrt (<) (map (index_key f) es)" by (simp only: sorted_wrt_map)
  moreover have sets: "set (scan f Q h) = set es" using assms(3) by simp
  then have "set (map (index_key f) (scan f Q h)) = set (map (index_key f) es)" by (simp only: set_map)
  ultimately have "map (index_key f) (scan f Q h) = map (index_key f) es"
    using scan_strict [OF assms(1), of Q] by (intro strict_sorted_equal)
  moreover have "inj_on (index_key f) (set (scan f Q h) \<union> set es)"
    unfolding sets using index_key_inj [OF assms(1)] assms(3) by (auto intro: inj_on_subset simp del: driver_simps)
  ultimately show ?thesis by (rule map_inj_on)
qed

text \<open>What a range read of the index delivers.\<close>

lemma sel_range_scan:
  assumes rep: "represents f m h" and "finite (dom m)"
    and "\<And>k. sel_from b k \<Longrightarrow> sel_upto e k \<Longrightarrow> prefix (f_byKeyAndRevision f) k"
    and "\<And>x. x \<in> set h \<Longrightarrow> sel_from b (index_key f x) \<and> sel_upto e (index_key f x) \<longleftrightarrow> Q x"
  shows "sel_range m b e = map (index_kv L (f_byKeyAndRevision f)) (scan f Q h)"
  unfolding sel_range_def
proof (rule sorted_keys_range_list)
  have wf: "hist_wf h" using rep by (simp add: represents_def)
  show "sorted_wrt (<) (map fst (map (index_kv L (f_byKeyAndRevision f)) (scan f Q h)))"
    using scan_strict [OF wf, of Q] by (simp add: comp_def del: driver_simps(4))
  fix k x
  have agree: "sel_from b k \<Longrightarrow> sel_upto e k \<Longrightarrow> m k = map_of (map (index_kv L (f_byKeyAndRevision f)) h) k"
    using rep assms(3) [of k] by (simp add: represents_def agree_on_def del: driver_simps(4))
  have "(k, x) \<in> set (map (index_kv L (f_byKeyAndRevision f)) (scan f Q h)) \<longleftrightarrow>
      (\<exists>y\<in>set h. index_kv L (f_byKeyAndRevision f) y = (k, x) \<and> sel_from b k \<and> sel_upto e k)"
    using assms(4) by (auto simp: image_iff simp del: driver_simps(4)) (metis fst_conv)+
  also have "\<dots> \<longleftrightarrow> m k = Some x \<and> sel_from b k \<and> sel_upto e k"
    using agree map_of_index_kvs [OF wf, of "f_byKeyAndRevision f" k x] by auto
  finally show "(k, x) \<in> set (map (index_kv L (f_byKeyAndRevision f)) (scan f Q h)) \<longleftrightarrow>
      m k = Some x \<and> sel_from b k \<and> sel_upto e k" .
qed fact

end

section \<open>The state of the database\<close>

text \<open>
  A database that holds a history and the compaction watermark \<open>R\<close>: it represents the history, the watermark
  is absent (then \<open>R\<close> is 0) or a revision, and no revision is above the database's version.
\<close>

definition watermark :: "('d, 't) FDB \<Rightarrow> (bytes \<rightharpoonup> bytes) \<Rightarrow> int64 \<Rightarrow> bool" where
  "watermark f m R \<longleftrightarrow>
     (case m (f_compactRev f) of
        None \<Rightarrow> R = 0
      | Some b \<Rightarrow> \<exists>v. is_revision v \<and> b = tuple_Pack (f_lib f) [TVersionstamp v] \<and> R = rev_int v)"

definition db_holds :: "('d, 't) FDB \<Rightarrow> 'd \<Rightarrow> entry list \<Rightarrow> int64 \<Rightarrow> bool" where
  "db_holds f d h R \<longleftrightarrow>
     represents f (db_view (f_lib f) d) h \<and> watermark f (db_view (f_lib f) d) R \<and> 0 < db_version (f_lib f) d \<and>
     (\<forall>e\<in>set h. rev_int (fst e) \<le> db_version (f_lib f) d)"

text \<open>What a history becomes by the writes after version \<open>V\<close>.\<close>

definition extends :: "int64 \<Rightarrow> entry list \<Rightarrow> entry list \<Rightarrow> bool" where
  "extends V h H \<longleftrightarrow> (\<exists>h'. H = h @ h' \<and> (\<forall>e\<in>set h'. V < rev_int (fst e)))"

lemma extends_refl: "extends V h h"
  by (simp add: extends_def)

lemma extends_append: "extends V h H \<Longrightarrow> V \<le> V' \<Longrightarrow> \<forall>e\<in>set H'. V' < rev_int (fst e) \<Longrightarrow> extends V h (H @ H')"
  by (fastforce simp: extends_def)

lemma extends_trans: "extends V h H \<Longrightarrow> V \<le> V' \<Longrightarrow> extends V' H H' \<Longrightarrow> extends V h H'"
  using extends_append unfolding extends_def [of V' H H'] by blast

lemma extends_prefix: "extends V h H \<Longrightarrow> prefix h H"
  by (auto simp: extends_def)


text \<open>A later database: other clients appended, and no more.\<close>

definition moved :: "('d, 't) FDB \<Rightarrow> int64 \<Rightarrow> entry list \<Rightarrow> int64 \<Rightarrow> 'd \<Rightarrow> bool" where
  "moved f V h R d \<longleftrightarrow> (\<exists>H. db_holds f d H R \<and> extends V h H) \<and> V \<le> db_version (f_lib f) d"

lemma moved_refl: "db_holds f d h R \<Longrightarrow> moved f (db_version (f_lib f) d) h R d"
  using extends_refl by (auto simp: moved_def)

text \<open>An attempt before which other clients only append entries.\<close>

definition appending :: "('d, 't) FDB \<Rightarrow> 'd attempt \<Rightarrow> bool" where
  "appending f a \<longleftrightarrow>
     (\<forall>d h R. db_holds f d h R \<longrightarrow>
        (\<exists>h'. db_holds f (at_before a d) (h @ h') R \<and> db_version (f_lib f) d \<le> db_version (f_lib f) (at_before a d) \<and>
           (\<forall>e\<in>set h'. db_version (f_lib f) d < rev_int (fst e))))"

context fdb_driver
begin

lemma CompactRevision_Get_holds:
  assumes "db_holds f d h R" "reads L t d"
  shows "(\<exists>e. CompactRevision_Get f t = Err e) \<or> (\<exists>v. CompactRevision_Get f t = Ok v \<and> VersionstampToInt64 v = Ok R)"
proof (cases "tr_Get L t (f_compactRev f)")
  case (Inl e)
  then show ?thesis by (simp add: CompactRevision_Get_def del: driver_simps(7))
next
  case (Inr x)
  have x: "x = db_view L d (f_compactRev f)" using get_sound [OF _ Inr] assms(2) by (simp add: reads_def del: driver_simps(7))
  show ?thesis
  proof (cases x)
    case None
    with Inr x assms(1) VersionstampToInt64_int64ToVersionstamp [of 0] show ?thesis
      by (simp add: CompactRevision_Get_def db_holds_def watermark_def del: driver_simps(7))
  next
    case (Some b)
    then have "db_view L d (f_compactRev f) = Some b" using x by simp
    with assms(1) obtain v where v: "is_revision v" "b = tuple_Pack L [TVersionstamp v]" "R = rev_int v"
      by (auto simp: db_holds_def watermark_def simp del: driver_simps(7))
    with Inr Some VersionstampToInt64_revision [OF v(1)] is_revision_elem_ok [OF v(1)] unpack_pack [of "[TVersionstamp v]"] show ?thesis
      by (simp add: CompactRevision_Get_def tuple_access del: driver_simps(7) elem_ok.simps)
  qed
qed

end

section \<open>The contract of an inner collector\<close>

definition mark :: "entry \<times> bool \<Rightarrow> ByKeyAndRevisionRecord" where
  "mark cb = setLatestForKey (snd cb) (index_record (fst cb))"

text \<open>
  What is known of a record handed on when the database holds \<open>h\<close>: its entry, and whether its flag is right, so that
  its value can be relied on.
\<close>

type_synonym finding = "entry \<times> bool"

definition sure :: "entry \<Rightarrow> finding" where
  "sure e = (e, True)"

definition known :: "entry list \<Rightarrow> entry \<times> bool \<Rightarrow> finding" where
  "known h cb = (fst cb, sound_flag (set h) {} cb)"

text \<open>
  \<open>per s out\<close>: the batches before gave the records \<open>out\<close>. \<open>col s out ems\<close>: and this one was handed \<open>ems\<close>. \<open>fin s out
  es\<close>: and has settled them. \<open>more n\<close>: the collector wants more when it has \<open>n\<close> records.
\<close>

locale inner_collector = fdb_driver L cfg dir f
    for L :: "('d, 't) fdb_lib" and cfg :: config and dir :: bytes and f :: "('d, 't) FDB" +
  fixes inner :: "('t, ByKeyAndRevisionRecord, 's) Processor"
    and per :: "'s \<Rightarrow> finding list \<Rightarrow> bool"
    and col :: "'s \<Rightarrow> finding list \<Rightarrow> (entry \<times> bool) list \<Rightarrow> bool"
    and fin :: "'s \<Rightarrow> finding list \<Rightarrow> finding list \<Rightarrow> bool"
    and more :: "nat \<Rightarrow> bool"
  assumes inner_start: "per s out \<Longrightarrow> col (p_startBatch inner s) out []"
    and inner_next: "col s out ems \<Longrightarrow> \<exists>s'. p_next inner t (mark cb) s
        = (Ok (None, more (length out + length ems + 1), t, mark cb), s') \<and> col s' out (ems @ [cb])"
    and inner_end: "col s out ems \<Longrightarrow> db_holds f d h R \<Longrightarrow> reads L t d \<Longrightarrow>
      \<forall>cb\<in>set ems. fst cb \<in> set h \<and> \<not> r_IsDelete (snd (fst cb)) \<Longrightarrow>
      sorted_wrt (<) (map (entry_key \<circ> fst) ems) \<Longrightarrow> p_endBatch inner t isLast s = (r, s') \<Longrightarrow>
      (\<exists>e. r = Err e) \<and> per s' out \<or> r = Ok t \<and> fin s' out (map (known h) ems)"
    and inner_kept: "col s out ems \<Longrightarrow> per s out" "fin s out es \<Longrightarrow> per s out"
    and inner_post: "fin s out es \<Longrightarrow> per (p_postBatch inner s) (out @ es)"
text \<open>
  The state of a \<^verbatim>\<open>recordCollector\<close>, between batches and within one. A failed attempt may have cleared the flag of
  the current record, never set it.
\<close>

definition weakened :: "candidate \<Rightarrow> ByKeyAndRevisionRecord option \<Rightarrow> bool" where
  "weakened cur0 r \<longleftrightarrow>
     (case cur0 of None \<Rightarrow> r = None | Some (e, b0) \<Rightarrow> \<exists>b. r = Some (mark (e, b)) \<and> (b \<longrightarrow> b0))"

definition kept :: "('s \<Rightarrow> finding list \<Rightarrow> bool) \<Rightarrow> int64 \<Rightarrow> int64 \<Rightarrow> finding list \<Rightarrow> candidate \<Rightarrow> 's recordCollector \<Rightarrow> bool" where
  "kept per M F out cur0 c \<longleftrightarrow>
     rc_maxRevision c = M \<and> rc_firstRev c = F \<and> per (rc_inner c) out \<and> weakened cur0 (rc_currentRecord c)"

definition within ::
    "('s \<Rightarrow> finding list \<Rightarrow> bool) \<Rightarrow> ('s \<Rightarrow> finding list \<Rightarrow> (entry \<times> bool) list \<Rightarrow> bool) \<Rightarrow> int64 \<Rightarrow> int64
     \<Rightarrow> finding list \<Rightarrow> candidate \<Rightarrow> (entry \<times> bool) list \<Rightarrow> candidate \<Rightarrow> 's recordCollector \<Rightarrow> bool" where
  "within per col M F out cur0 ems cur c \<longleftrightarrow>
     kept per M F out cur0 c \<and> col (rc_inner c) out ems \<and> rc_batchCurrentRecord c = map_option mark cur \<and>
     (rc_shared c \<longrightarrow> rc_currentRecord c = rc_batchCurrentRecord c)"

definition visible :: "int64 \<Rightarrow> int64 \<Rightarrow> entry \<Rightarrow> bool" where
  "visible M F e \<longleftrightarrow> (M = 0 \<or> rev_int (fst e) \<le> M) \<and> (F = 0 \<or> rev_int (fst e) \<le> F)"

lemma mark_simps [simp]:
  "kr_Key (bk_Key (mark cb)) = entry_key (fst cb)"
  "kr_Rev (bk_Key (mark cb)) = fst (fst cb)"
  "r_IsDelete (bk_Value (mark cb)) = r_IsDelete (snd (fst cb))"
  "setLatestForKey b (mark cb) = mark (fst cb, b)"
  by (simp_all add: mark_def setLatestForKey_def index_record_def entry_key_def)

lemma weakened_clear: "weakened cur0 (Some (mark (e, b))) \<Longrightarrow> weakened cur0 (Some (mark (e, False)))"
  unfolding weakened_def by (auto split: option.splits) (metis fst_conv mark_simps(4))+

lemma mark_index: "setLatestForKey b (index_record e) = mark (e, b)"
  by (simp add: mark_def)

lemma index_record_key [simp]: "kr_Key (bk_Key (index_record e)) = entry_key e"
  by (simp add: index_record_def entry_key_def)

context inner_collector
begin

lemma kept_start:
  assumes "kept per M F out cur0 c"
  shows "\<exists>cur. within per col M F out cur0 [] cur (recordCollector_startBatch inner c) \<and>
    (case cur0 of None \<Rightarrow> cur = None | Some (e, b0) \<Rightarrow> \<exists>b. cur = Some (e, b) \<and> (b \<longrightarrow> b0))"
proof -
  have per: "per (rc_inner c) out" using assms by (simp add: kept_def)
  note start = inner_start [OF per] inner_kept(1) [OF inner_start [OF per]]
  show ?thesis
  proof (cases cur0)
    case None
    with assms start show ?thesis
      by (intro exI [of _ None]) (simp add: kept_def within_def weakened_def recordCollector_startBatch_def)
  next
    case (Some eb)
    obtain e b0 where eb: "eb = (e, b0)" by (cases eb)
    with Some assms obtain b where "rc_currentRecord c = Some (mark (e, b))" "b \<longrightarrow> b0" by (auto simp: kept_def weakened_def)
    with Some eb assms start show ?thesis
      by (intro exI [of _ "Some (e, b)"]) (auto simp: kept_def within_def weakened_def recordCollector_startBatch_def)
  qed
qed

lemma within_kept: "within per col M F out cur0 ems cur c \<Longrightarrow> kept per M F out cur0 c"
  by (simp add: within_def)

text \<open>Handing on the candidate.\<close>

lemma emit_within:
  assumes "within per col M F out cur0 ems cur c" "cur = Some cb"
  shows "\<exists>c'. recordCollector_emit inner t (mark cb) c
      = (Ok (pending cur \<noteq> [] \<longrightarrow> more (length out + length (ems @ pending cur)), t), c') \<and>
    within per col M F out cur0 (ems @ pending cur) cur c'"
proof (cases "r_IsDelete (snd (fst cb))")
  case True
  with assms show ?thesis by (cases cb) (auto simp: recordCollector_emit_def pending_def)
next
  case False
  then have p: "pending cur = [cb]" using assms(2) by (cases cb) (simp add: pending_def)
  from assms(1) have "col (rc_inner c) out ems" by (simp add: within_def)
  from inner_next [OF this, of t cb] obtain s' where
    "p_next inner t (mark cb) (rc_inner c) = (Ok (None, more (length out + length ems + 1), t, mark cb), s')"
    "col s' out (ems @ [cb])" by blast
  with False p assms inner_kept(1) [of s' out] show ?thesis
    by (auto simp: recordCollector_emit_def within_def kept_def)
qed

lemma next_within:
  assumes "entry_wf e" "is_revision (fst e)" "within per col M F out cur0 ems cur c"
  shows "\<exists>c'. recordCollector_next f inner t (Inr (index_kv L (f_byKeyAndRevision f) e) # it) c
      = (Ok (Some (index_key f e),
             leave cur e \<and> pending cur \<noteq> [] \<longrightarrow> more (length out + length (ems @ pending cur)), t, it), c') \<and>
    within per col M F out cur0 (ems @ (if leave cur e then pending cur else [])) (candidate (visible M F) cur e) c'"
proof -
  note get = ByKeyAndRevision_GetFromIterator_index_kv [OF assms(1), of it]
  have key: "subspace_Pack L (f_byKeyAndRevision f) [TString (entry_key e), TVersionstamp (fst e)] = index_key f e"
    by (simp add: spack_eq index_kv_def entry_key_def)
  have vis: "recordCollector_visible (rev_int (fst e)) c' \<longleftrightarrow> visible M F e" if "within per col M F out cur0 ems' cur' c'" for c' ems' cur'
    using that by (simp add: recordCollector_visible_def visible_def within_def kept_def)
  have rev_e: "kr_Rev (bk_Key (index_record e)) = fst e" by simp
  show ?thesis
  proof (cases "leave cur e")
    case True
    then obtain cb where cb: "cur = Some cb" "entry_key (fst cb) \<noteq> entry_key e"
      by (cases cur) (auto simp: leave_def)
    have b: "rc_batchCurrentRecord c = Some (mark cb)" using assms(3) cb by (simp add: within_def)
    from emit_within [OF assms(3) cb(1), of t] obtain c1 where
      c1: "recordCollector_emit inner t (mark cb) c
        = (Ok (pending cur \<noteq> [] \<longrightarrow> more (length out + length (ems @ pending cur)), t), c1)"
        "within per col M F out cur0 (ems @ pending cur) cur c1" by blast
    let ?c2 = "c1\<lparr>rc_batchCurrentRecord := None, rc_shared := False\<rparr>"
    have c2: "within per col M F out cur0 (ems @ pending cur) None ?c2" using c1(2) by (simp add: within_def kept_def)
    show ?thesis
      using get key b cb(2) c1(1) c2 True VersionstampToInt64_revision [OF assms(2)] vis [OF c2]
      by (auto simp: recordCollector_next_def rev_e candidate_def mark_index within_def kept_def simp del: driver_simps(4))
  next
    case False
    have same: "\<forall>cb. cur = Some cb \<longrightarrow> entry_key (fst cb) = entry_key e"
      using False by (auto simp: leave_def)
    have b: "rc_batchCurrentRecord c = map_option mark cur" using assms(3) by (simp add: within_def)
    have "(case rc_batchCurrentRecord c of
                   Some current \<Rightarrow>
                     if kr_Key (bk_Key current) \<noteq> kr_Key (bk_Key (index_record e)) then
                       (case recordCollector_emit inner t current c of
                          (Ok x, c1) \<Rightarrow> (Ok x, c1\<lparr>rc_batchCurrentRecord := None, rc_shared := False\<rparr>)
                        | (r, c1) \<Rightarrow> (r, c1))
                     else (Ok (True, t), c)
                 | None \<Rightarrow> (Ok (True, t), c)) = (Ok (True, t), c)"
      using b same by (cases cur) auto
    then show ?thesis
      using get key False VersionstampToInt64_revision [OF assms(2)] vis [OF assms(3)] assms(3) same b
      by (cases cur) (auto simp: recordCollector_next_def rev_e candidate_def mark_index within_def kept_def split: option.splits
          simp del: driver_simps(4) intro: weakened_clear)
  qed
qed

text \<open>One batch: how far it walks, and what it leaves.\<close>

lemma next_end: "recordCollector_next f inner t [] c = (Ok (None, False, t, []), c)"
  by (simp add: recordCollector_next_def ByKeyAndRevision_GetFromIterator_def it_Advance_def)

lemma next_error: "recordCollector_next f inner t (Inl err # it) c = (Err err, c)"
  by (simp add: recordCollector_next_def ByKeyAndRevision_GetFromIterator_def it_Advance_def)

lemma loop_within:
  assumes "\<forall>e\<in>set es. entry_wf e \<and> is_revision (fst e)" "within per col M F out cur0 ems cur c"
    and "tail = [] \<or> (\<exists>err. tail = [Inl err])"
    and "processBatch_loop (recordProcessor f inner) slow i t
      (map Inr (map (index_kv L (f_byKeyAndRevision f)) es) @ tail) c = (r, c')"
  shows "(\<exists>e. r = Err e) \<and> kept per M F out cur0 c' \<or>
    (\<exists>res es1 es2 cur' o'. r = Ok (res, t) \<and> es = es1 @ es2 \<and> walk (visible M F) cur es1 = (cur', o') \<and>
       within per col M F out cur0 (ems @ o') cur' c' \<and>
       (if br_collectorNeedsMore res then es1 \<noteq> [] \<and> br_lastReadKey res = Some (index_key f (last es1)) \<and>
          (more (length out + length ems) \<longrightarrow> more (length out + length (ems @ o')))
        else tail = [] \<and> es2 = [] \<or> \<not> more (length out + length (ems @ o')) \<and>
          (more (length out + length ems) \<longrightarrow> more (length out + length (ems @ o') - 1))))"
  using assms
proof (induction es arbitrary: i ems cur c)
  case Nil
  then show ?case
  proof (cases tail)
    case Nil
    have "processBatch_loop (recordProcessor f inner) slow i t [] c
        = (Ok (\<lparr>br_lastReadKey = None, br_collectorNeedsMore = False\<rparr>, t), c)"
      by (rule processBatch_loop_stop) (unfold recordProcessor_simps, rule next_end)
    with Nil Nil.prems show ?thesis
      by (intro disjI2 exI [of _ "\<lparr>br_lastReadKey = None, br_collectorNeedsMore = False\<rparr>"]) auto
  next
    case (Cons x xs)
    with Nil.prems(3) obtain err where "tail = [Inl err]" by auto
    moreover have "processBatch_loop (recordProcessor f inner) slow i t [Inl err] c = (Err err, c)"
      by (rule processBatch_loop_error) (unfold recordProcessor_simps, rule next_error)
    ultimately show ?thesis using Nil.prems within_kept by (intro disjI1) auto
  qed
next
  case (Cons e es)
  let ?it = "map Inr (map (index_kv L (f_byKeyAndRevision f)) es) @ tail"
  let ?o = "if leave cur e then pending cur else []"
  let ?m = "leave cur e \<and> pending cur \<noteq> [] \<longrightarrow> more (length out + length (ems @ pending cur))"
  from Cons.prems(1) have "entry_wf e" "is_revision (fst e)" by simp_all
  from next_within [OF this Cons.prems(2), of t ?it] obtain c1 where
    c1: "recordCollector_next f inner t (Inr (index_kv L (f_byKeyAndRevision f) e) # ?it) c
      = (Ok (Some (index_key f e), ?m, t, ?it), c1)"
      "within per col M F out cur0 (ems @ ?o) (candidate (visible M F) cur e) c1" by blast
  have "p_next (recordProcessor f inner) t (Inr (index_kv L (f_byKeyAndRevision f) e) # ?it) c
      = (Ok (Some (index_key f e), ?m, t, ?it), c1)" using c1(1) by simp
  from processBatch_loop_step [OF this, of slow i] Cons.prems(4) have step:
    "(if slow i \<or> \<not> ?m then (Ok (\<lparr>br_lastReadKey = Some (index_key f e), br_collectorNeedsMore = ?m\<rparr>, t), c1)
      else processBatch_loop (recordProcessor f inner) slow (Suc i) t ?it c1) = (r, c')"
    by (simp del: driver_simps(4))
  have m: "?m \<longrightarrow> more (length out + length ems) \<longrightarrow> more (length out + length (ems @ ?o))" by auto
  show ?case
  proof (cases "slow i \<or> \<not> ?m")
    case True
    with step have r: "r = Ok (\<lparr>br_lastReadKey = Some (index_key f e), br_collectorNeedsMore = ?m\<rparr>, t)" "c' = c1"
      by auto
    have "\<not> ?m \<longrightarrow> \<not> more (length out + length (ems @ ?o)) \<and>
        (more (length out + length ems) \<longrightarrow> more (length out + length (ems @ ?o) - 1))"
      by (cases cur) (auto simp: pending_def)
    with r c1(2) m show ?thesis
      by (intro disjI2 exI [of _ "\<lparr>br_lastReadKey = Some (index_key f e), br_collectorNeedsMore = ?m\<rparr>"]
          exI [of _ "[e]"] exI [of _ es] exI [of _ "candidate (visible M F) cur e"] exI [of _ ?o])
        (simp del: driver_simps(4) length_append)
  next
    case False
    then have "processBatch_loop (recordProcessor f inner) slow (Suc i) t ?it c1 = (r, c')"
      using step by (simp only: if_False)
    from Cons.IH [OF _ c1(2) Cons.prems(3) this] Cons.prems(1) consider
        "(\<exists>e. r = Err e) \<and> kept per M F out cur0 c'"
      | res es1 es2 cur' o' where "r = Ok (res, t)" "es = es1 @ es2"
          "walk (visible M F) (candidate (visible M F) cur e) es1 = (cur', o')"
          "within per col M F out cur0 ((ems @ ?o) @ o') cur' c'"
          "if br_collectorNeedsMore res then es1 \<noteq> [] \<and> br_lastReadKey res = Some (index_key f (last es1)) \<and>
             (more (length out + length (ems @ ?o)) \<longrightarrow> more (length out + length ((ems @ ?o) @ o')))
           else tail = [] \<and> es2 = [] \<or> \<not> more (length out + length ((ems @ ?o) @ o')) \<and>
             (more (length out + length (ems @ ?o)) \<longrightarrow> more (length out + length ((ems @ ?o) @ o') - 1))"
      by (auto simp del: driver_simps(4) length_append append_assoc)
    then show ?thesis
    proof cases
      case (2 res es1 es2 cur' o')
      show ?thesis
        using 2 m False
        by (intro disjI2 exI [of _ res] exI [of _ "e # es1"] exI [of _ es2] exI [of _ cur'] exI [of _ "?o @ o'"])
          (auto simp del: driver_simps(4) length_append split: if_splits)
    qed simp
  qed
qed

lemma endBatch_within:
  assumes mode: "\<not> UseSequentialId cfg" and "within per col M F out cur0 ems cur c"
    and holds: "db_holds f d h R" and rd: "reads L t d"
    and "\<forall>cb\<in>set (ems @ pending cur). fst cb \<in> set h \<and> \<not> r_IsDelete (snd (fst cb))"
    and "sorted_wrt (<) (map (entry_key \<circ> fst) (ems @ pending cur))"
    and "recordCollector_endBatch f inner t isLast c = (r, c')"
  shows "(\<exists>e. r = Err e) \<and> kept per M F out cur0 c' \<or>
    r = Ok t \<and> kept per M F out cur0 c' \<and> fin (rc_inner c') out (map (known h) (ems @ (if isLast then pending cur else []))) \<and>
    rc_batchCurrentRecord c' = map_option mark cur \<and> rc_batchRev c' = db_version L d \<and> (M > 0 \<longrightarrow> R \<le> M)"
proof -
  let ?ems = "ems @ (if isLast then pending cur else [])"
  have b: "rc_batchCurrentRecord c = map_option mark cur" using assms(2) by (simp add: within_def)
  have "\<exists>m c1. (case rc_batchCurrentRecord c of
              Some current \<Rightarrow> if isLast then recordCollector_emit inner t current c else (Ok (True, t), c)
            | None \<Rightarrow> (Ok (True, t), c)) = (Ok (m, t), c1) \<and> within per col M F out cur0 ?ems cur c1"
  proof (cases "cur = None \<or> \<not> isLast")
    case True
    with assms(2) b show ?thesis by (cases cur) (auto simp: pending_def)
  next
    case False
    then obtain cb where cb: "cur = Some cb" "isLast" by auto
    from emit_within [OF assms(2) cb(1), of t] b cb show ?thesis by auto
  qed
  then obtain m c1 where c1: "(case rc_batchCurrentRecord c of
              Some current \<Rightarrow> if isLast then recordCollector_emit inner t current c else (Ok (True, t), c)
            | None \<Rightarrow> (Ok (True, t), c)) = (Ok (m, t), c1)" "within per col M F out cur0 ?ems cur c1" by blast
  obtain r2 s2 where e2: "p_endBatch inner t isLast (rc_inner c1) = (r2, s2)" by fastforce
  have "(\<exists>e. r2 = Err e) \<and> per s2 out \<or> r2 = Ok t \<and> fin s2 out (map (known h) ?ems)"
    by (rule inner_end [OF _ holds rd _ _ e2]; cases isLast; use c1(2) assms(5,6) in \<open>simp add: within_def sorted_wrt_append\<close>)
  then consider (err) e where "r2 = Err e" "per s2 out" | (ok) "r2 = Ok t" "fin s2 out (map (known h) ?ems)" by blast
  then show ?thesis
  proof cases
    case err
    have "(r, c') = (Err e, c1\<lparr>rc_inner := s2\<rparr>)"
      using assms(7) c1(1) e2 err(1) unfolding recordCollector_endBatch_def by simp
    with c1(2) err(2) show ?thesis by (simp add: within_def kept_def)
  next
    case ok
    let ?c2 = "c1\<lparr>rc_inner := s2\<rparr>"
    have k2: "kept per M F out cur0 ?c2" "rc_batchCurrentRecord ?c2 = map_option mark cur"
      using c1(2) inner_kept(2) [OF ok(2)] by (auto simp: within_def kept_def)
    have end_eq: "(r, c') = (case res_bind (RevisionSubspace_GetLatestRev f t) res_of_sum of
                    Err e \<Rightarrow> (Err e, ?c2)
                  | Panic p \<Rightarrow> (Panic p, ?c2)
                  | Ok latestRev \<Rightarrow>
                      let c3 = ?c2\<lparr>rc_batchRev := latestRev\<rparr>
                      in if rc_maxRevision c3 > 0 then
                           (case res_bind (CompactRevision_Get f t) VersionstampToInt64 of
                              Err e \<Rightarrow> (Err e, c3)
                            | Panic p \<Rightarrow> (Panic p, c3)
                            | Ok compactRev \<Rightarrow>
                                if rc_maxRevision c3 < compactRev then (Err ErrCompacted, c3) else (Ok t, c3))
                         else (Ok t, c3))"
      using assms(7) c1(1) e2 ok(1) unfolding recordCollector_endBatch_def Let_def by simp
    show ?thesis
    proof (cases "tr_GetReadVersion L t")
      case (Inl e)
      with end_eq mode k2 show ?thesis by (auto simp: RevisionSubspace_GetLatestRev_def)
    next
      case (Inr v)
      then have v: "v = db_version L d" using read_version_sound rd by (auto simp: reads_def)
      let ?c3 = "?c2\<lparr>rc_batchRev := v\<rparr>"
      have latest: "res_bind (RevisionSubspace_GetLatestRev f t) res_of_sum = Ok v"
        using Inr mode by (simp add: RevisionSubspace_GetLatestRev_def)
      have k3: "kept per M F out cur0 ?c3" "rc_batchCurrentRecord ?c3 = map_option mark cur"
        "rc_maxRevision ?c3 = M" "rc_batchRev ?c3 = db_version L d" "fin (rc_inner ?c3) out (map (known h) ?ems)"
        using k2 v ok(2) by (simp_all add: kept_def)
      show ?thesis
      proof (cases "M > 0")
        case False
        with end_eq latest k3(3) have "r = Ok t" "c' = ?c3" by (auto simp: Let_def)
        with False k3 show ?thesis by simp
      next
        case True
        from CompactRevision_Get_holds [OF holds rd] consider (err) e where "CompactRevision_Get f t = Err e"
          | (ok) w where "CompactRevision_Get f t = Ok w" "VersionstampToInt64 w = Ok R" by blast
        then show ?thesis
        proof cases
          case err
          with True end_eq latest k3(3) have "r = Err e" "c' = ?c3" by (auto simp: Let_def)
          with k3 show ?thesis by simp
        next
          case (ok w)
          with True end_eq latest k3(3) have "r = (if M < R then Err ErrCompacted else Ok t)" "c' = ?c3"
            by (auto simp: Let_def split: if_splits)
          with k3 show ?thesis by (cases "M < R") simp_all
        qed
      qed
    qed
  qed
qed

end

end
