(* ===== verification/FDB_Snapshot.thy ===== *)
theory FDB_Snapshot
  imports FDB_Scan
begin

text \<open>
  A range read of the index over several batches is a read of one snapshot: the history as it was at the
  version of the first batch that committed.
\<close>

section \<open>More on the walk\<close>

lemma set_newest: "set (newest es) \<subseteq> {e \<in> set es. \<not> r_IsDelete (snd e)}"
  by (induction es rule: newest.induct) auto

lemma newest_hd: "es \<noteq> [] \<Longrightarrow> sorted (map entry_key es) \<Longrightarrow> \<forall>e\<in>set (newest es). entry_key (hd es) \<le> entry_key e"
  by (rule ballI, drule subsetD [OF set_newest], cases es) auto

lemma newest_sorted: "sorted (map entry_key es) \<Longrightarrow> sorted_wrt (<) (map entry_key (newest es))"
proof (induction es)
  case (Cons e es)
  have "entry_key e < entry_key e'" if "es = [] \<or> entry_key (hd es) \<noteq> entry_key e" "e' \<in> set (newest es)" for e'
  proof -
    have "es \<noteq> []" using that(2) by auto
    then have "entry_key e \<le> entry_key (hd es)" "entry_key (hd es) \<le> entry_key e'"
      using Cons.prems newest_hd [of es] that(2) by (auto simp: hd_in_set)
    with that(1) \<open>es \<noteq> []\<close> show ?thesis by auto
  qed
  with Cons show ?case by auto
qed simp

lemma walk_emitted:
  assumes "sorted (map entry_key es)" "\<forall>c\<in>set (candidate_entry cur). \<forall>e\<in>set es. entry_key c \<le> entry_key e"
    and "walk vis cur es = (cur', out)"
  shows "map fst (out @ pending cur') = newest (candidate_entry cur @ filter vis es)"
  using walk_newest [of es "[]" cur vis cur' out] assms by (simp add: pending_entries)

lemma walk_emitted_sorted:
  assumes "sorted (map entry_key es)" "\<forall>c\<in>set (candidate_entry cur). \<forall>e\<in>set es. entry_key c \<le> entry_key e"
    and "walk vis cur es = (cur', out)"
  shows "sorted_wrt (<) (map (entry_key \<circ> fst) (out @ pending cur'))"
    and "\<forall>cb\<in>set (out @ pending cur'). \<not> r_IsDelete (snd (fst cb))"
proof -
  have s: "sorted (map entry_key (candidate_entry cur @ filter vis es))"
    using assms(1,2) by (auto simp: sorted_append sorted_filter intro: sorted_wrt_filter) (cases cur; auto)+
  have m: "map (entry_key \<circ> fst) (out @ pending cur') = map entry_key (newest (candidate_entry cur @ filter vis es))"
    unfolding walk_emitted [OF assms, symmetric] by simp
  show "sorted_wrt (<) (map (entry_key \<circ> fst) (out @ pending cur'))" unfolding m by (rule newest_sorted [OF s])
  have "fst ` set (out @ pending cur') = set (newest (candidate_entry cur @ filter vis es))"
    unfolding walk_emitted [OF assms, symmetric] by (simp add: image_Un)
  with set_newest show "\<forall>cb\<in>set (out @ pending cur'). \<not> r_IsDelete (snd (fst cb))" by blast
qed

lemma walk_candidate:
  assumes "walk vis cur es = (cur', out)"
  shows "set (candidate_entry cur') \<subseteq> set (candidate_entry cur) \<union> {e \<in> set es. vis e}"
    and "es \<noteq> [] \<Longrightarrow> \<forall>c\<in>set (candidate_entry cur'). entry_key c = entry_key (last es)"
proof -
  have "set (candidate_entry cur') \<subseteq> set (candidate_entry cur) \<union> {e \<in> set es. vis e} \<and>
      (es \<noteq> [] \<longrightarrow> (\<forall>c\<in>set (candidate_entry cur'). entry_key c = entry_key (last es)))"
    using assms
  proof (induction es arbitrary: cur out)
    case Nil
    then show ?case by simp
  next
    case (Cons e es)
    obtain out1 where w: "walk vis (candidate vis cur e) es = (cur', out1)"
      using Cons.prems by (auto simp: Let_def split: prod.splits)
    have "set (candidate_entry (candidate vis cur e)) \<subseteq> set (candidate_entry cur) \<union> {x \<in> set (e # es). vis x}"
      "\<forall>c\<in>set (candidate_entry (candidate vis cur e)). entry_key c = entry_key e"
      by (cases cur; auto simp: candidate_def leave_def)+
    with Cons.IH [OF w] w show ?case by (cases "es = []") auto
  qed
  then show "set (candidate_entry cur') \<subseteq> set (candidate_entry cur) \<union> {e \<in> set es. vis e}"
    and "es \<noteq> [] \<Longrightarrow> \<forall>c\<in>set (candidate_entry cur'). entry_key c = entry_key (last es)" by blast+
qed

section \<open>Positions in the index\<close>

definition after :: "('d, 't) FDB \<Rightarrow> bytes option \<Rightarrow> entry \<Rightarrow> bool" where
  "after f k e \<longleftrightarrow> (case k of None \<Rightarrow> True | Some k0 \<Rightarrow> k0 < index_key f e)"

lemma after_None [simp]: "after f None e"
  by (simp add: after_def)

lemma after_Some: "after f (Some k) e \<longleftrightarrow> k < index_key f e"
  by (simp add: after_def)

text \<open>A pair of selectors that picks, of well-formed entries, those whose key satisfies \<open>K\<close> and that come after \<open>k\<close>.\<close>

definition range_of :: "('d, 't) FDB \<Rightarrow> selector \<times> selector \<Rightarrow> (bytes \<Rightarrow> bool) \<Rightarrow> bytes option \<Rightarrow> bool" where
  "range_of f sel K k \<longleftrightarrow>
     (\<forall>x. sel_from (fst sel) x \<and> sel_upto (snd sel) x \<longrightarrow> prefix (f_byKeyAndRevision f) x) \<and>
     (\<forall>e. entry_wf e \<and> entry_ok (f_lib f) e \<longrightarrow>
        (sel_from (fst sel) (index_key f e) \<and> sel_upto (snd sel) (index_key f e) \<longleftrightarrow> K (entry_key e) \<and> after f k e))"

lemma sel_from_trans: "sel_from b x \<Longrightarrow> x < y \<Longrightarrow> sel_from b y"
  by (cases b) auto

context fdb_driver
begin

lemma range_of_prefix: "range_of f sel K k \<Longrightarrow> sel_from (fst sel) x \<Longrightarrow> sel_upto (snd sel) x \<Longrightarrow> prefix (f_byKeyAndRevision f) x"
  unfolding range_of_def by blast

lemma range_of_iff:
  "range_of f sel K k \<Longrightarrow> entry_wf e \<Longrightarrow> entry_ok L e \<Longrightarrow>
    sel_from (fst sel) (index_key f e) \<and> sel_upto (snd sel) (index_key f e) \<longleftrightarrow> K (entry_key e) \<and> after f k e"
  unfolding range_of_def driver_simps(1) by blast

lemma range_of_after:
  assumes "range_of f sel K k" "entry_wf e" "entry_ok L e" "K (entry_key e)" "after f k e"
  shows "range_of f (FirstGreaterThan (index_key f e), snd sel) K (Some (index_key f e))"
  unfolding range_of_def fst_conv snd_conv sel_from.simps
proof (intro conjI allI impI)
  let ?k = "index_key f e"
  have e: "sel_from (fst sel) ?k" using range_of_iff [OF assms(1-3)] assms(4,5) by blast
  show "prefix (f_byKeyAndRevision f) x" if "?k < x \<and> sel_upto (snd sel) x" for x
    using range_of_prefix [OF assms(1) sel_from_trans [OF e]] that by blast
  fix x assume x: "entry_wf x \<and> entry_ok (f_lib f) x"
  have k: "after f k x" if "?k < index_key f x"
    using that assms(5) by (cases k) (auto simp: after_def simp del: driver_simps)
  have "sel_from (fst sel) (index_key f x) \<and> sel_upto (snd sel) (index_key f x) \<longleftrightarrow> K (entry_key x) \<and> after f k x"
    using range_of_iff [OF assms(1)] x by simp
  with k sel_from_trans [OF e, of "index_key f x"] show
    "?k < index_key f x \<and> sel_upto (snd sel) (index_key f x) \<longleftrightarrow> K (entry_key x) \<and> after f (Some ?k) x"
    unfolding after_def option.case by blast
qed

text \<open>The rest of a scan after one of its entries.\<close>

lemma scan_rest:
  assumes "hist_wf h" "scan f (\<lambda>e. K (entry_key e) \<and> after f k e) h = es1 @ rest" "es1 \<noteq> []"
  shows "scan f (\<lambda>e. K (entry_key e) \<and> after f (Some (index_key f (last es1))) e) h = rest"
proof (rule scan_unique [OF assms(1)])
  let ?Q = "\<lambda>e. K (entry_key e) \<and> after f k e"
  have sorted: "sorted_wrt (\<lambda>e e'. index_key f e < index_key f e') (es1 @ rest)"
    using scan_strict [OF assms(1), of ?Q] unfolding assms(2) sorted_wrt_map .
  show "sorted_wrt index_less rest" using scan_sorted [OF assms(1), of ?Q] assms(2) by (simp add: sorted_wrt_append)
  have "set (es1 @ rest) = {e \<in> set h. ?Q e}" using set_scan [of f ?Q h] assms(2) by simp
  moreover have l: "last es1 \<in> set es1" using assms(3) by simp
  moreover have "\<not> index_key f (last es1) < index_key f e" if "e \<in> set es1" for e
  proof -
    have "es1 = butlast es1 @ [last es1]" using assms(3) by simp
    with that sorted have "e = last es1 \<or> index_key f e < index_key f (last es1)"
      by (metis (no_types, lifting) Un_iff list.set_intros(1) set_ConsD set_append sorted_wrt_append empty_iff empty_set)
    then show ?thesis by auto
  qed
  moreover have "index_key f (last es1) < index_key f e" if "e \<in> set rest" for e
    using that sorted l by (auto simp: sorted_wrt_append simp del: driver_simps)
  moreover have "after f k e" if "index_key f (last es1) < index_key f e" for e
    using that calculation(1) l by (cases k) (auto simp: after_def simp del: driver_simps intro: order.strict_trans)
  ultimately show "set rest = {e \<in> set h. K (entry_key e) \<and> after f (Some (index_key f (last es1))) e}"
    unfolding after_Some set_append by blast
qed

end

section \<open>What a read has and what is left\<close>

text \<open>
  Between batches: the records \<open>out\<close> handed on, the candidate, and the entries after \<open>k\<close> make up the listing of
  the history \<open>h0\<close> at the version \<open>F\<close> of the first batch; \<open>h'\<close> came later. Before the first batch, \<open>F\<close> is 0.
\<close>

definition listing :: "('d, 't) FDB \<Rightarrow> (bytes \<Rightarrow> bool) \<Rightarrow> int64 \<Rightarrow> int64 \<Rightarrow> entry list \<Rightarrow> entry list" where
  "listing f K M F h = newest (filter (visible M F) (scan f (\<lambda>e. K (entry_key e)) h))"

definition split_at :: "('d, 't) FDB \<Rightarrow> int64 \<Rightarrow> int64 \<Rightarrow> 'd \<Rightarrow> entry list \<Rightarrow> entry list \<Rightarrow> int64 \<Rightarrow> bool" where
  "split_at f V F d h0 h' R \<longleftrightarrow>
     db_holds f d (h0 @ h') R \<and> V \<le> db_version (f_lib f) d \<and> 0 \<le> F \<and> (F \<noteq> 0 \<longrightarrow> V \<le> F) \<and> F \<le> db_version (f_lib f) d \<and>
     (F = 0 \<longrightarrow> h' = []) \<and> (\<forall>e\<in>set h0. F \<noteq> 0 \<longrightarrow> rev_int (fst e) \<le> F) \<and> (\<forall>e\<in>set h'. F < rev_int (fst e))"

definition candidate_ok :: "('d, 't) FDB \<Rightarrow> (bytes \<Rightarrow> bool) \<Rightarrow> entry list \<Rightarrow> entry list \<Rightarrow> bytes option \<Rightarrow> candidate \<Rightarrow> bool" where
  "candidate_ok f K h0 h' k cur \<longleftrightarrow>
     (\<forall>cb\<in>set_option cur. fst cb \<in> set h0 \<and> K (entry_key (fst cb)) \<and>
        (\<exists>e\<in>set (h0 @ h'). k = Some (index_key f e) \<and> entry_key e = entry_key (fst cb)) \<and>
        sound_flag (set (h0 @ h')) {e \<in> set (h0 @ h'). K (entry_key e) \<and> after f k e} cb)"

definition remaining ::
    "('d, 't) FDB \<Rightarrow> (bytes \<Rightarrow> bool) \<Rightarrow> int64 \<Rightarrow> int64 \<Rightarrow> entry list \<Rightarrow> entry list \<Rightarrow> candidate \<Rightarrow> bytes option \<Rightarrow> bool" where
  "remaining f K M F h0 out cur k \<longleftrightarrow>
     out @ newest (candidate_entry cur @ filter (visible M F) (scan f (\<lambda>e. K (entry_key e) \<and> after f k e) h0))
       = listing f K M F h0"

definition snap_inv ::
    "('d, 't) FDB \<Rightarrow> int64 \<Rightarrow> ('s \<Rightarrow> finding list \<Rightarrow> bool) \<Rightarrow> (nat \<Rightarrow> bool) \<Rightarrow> (bytes \<Rightarrow> bool) \<Rightarrow> int64 \<Rightarrow> selector
     \<Rightarrow> entry list \<Rightarrow> int64 \<Rightarrow> selector \<times> selector \<Rightarrow> 'd \<Rightarrow> 's recordCollector \<Rightarrow> bool" where
  "snap_inv f V per wants K M stop h R sel d c \<longleftrightarrow>
     (\<exists>F h0 h' out cur k. split_at f V F d h0 h' R \<and> extends V h h0 \<and> kept per M F (map sure out) cur c \<and> wants (length out) \<and>
        snd sel = stop \<and> range_of f sel K k \<and> candidate_ok f K h0 h' k cur \<and> remaining f K M F h0 out cur k \<and>
        (F = 0 \<longrightarrow> k = None \<and> out = [] \<and> cur = None))"

text \<open>
  After the last batch: the collector has the listing, or the first \<open>n\<close> records of it and at most one more, where
  \<open>n\<close> is the number that satisfied it.
\<close>

definition collected :: "(nat \<Rightarrow> bool) \<Rightarrow> entry list \<Rightarrow> finding list \<Rightarrow> bool" where
  "collected wants es outs \<longleftrightarrow>
     outs = map sure es \<or>
     (\<exists>n x. \<not> wants n \<and> wants (n - 1) \<and> n \<le> length es \<and> length x \<le> 1 \<and> outs = map sure (take n es) @ x)"

definition snap_result ::
    "('d, 't) FDB \<Rightarrow> int64 \<Rightarrow> ('s \<Rightarrow> finding list \<Rightarrow> bool) \<Rightarrow> (nat \<Rightarrow> bool) \<Rightarrow> (bytes \<Rightarrow> bool) \<Rightarrow> int64 \<Rightarrow> entry list \<Rightarrow> int64
     \<Rightarrow> 'd \<Rightarrow> 's recordCollector \<Rightarrow> bool" where
  "snap_result f V per wants K M h R d c \<longleftrightarrow>
     (\<exists>h0 h' outs. split_at f V (rc_firstRev c) d h0 h' R \<and> 0 < rc_firstRev c \<and> extends V h h0 \<and> per (rc_inner c) outs \<and>
        collected wants (listing f K M (rc_firstRev c) h0) outs \<and> fst ` set outs \<subseteq> set (h0 @ h') \<and> (0 < M \<longrightarrow> R \<le> M))"

text \<open>A batch that walks \<open>es\<close>, hands on \<open>o'\<close> and leaves \<open>rest\<close>.\<close>

definition walks ::
    "('d, 't) FDB \<Rightarrow> int64 \<Rightarrow> (bytes \<Rightarrow> bool) \<Rightarrow> int64 \<Rightarrow> int64 \<Rightarrow> 'd \<Rightarrow> int64 \<Rightarrow> entry list \<Rightarrow> entry list \<Rightarrow> entry list \<Rightarrow> candidate
     \<Rightarrow> bytes option \<Rightarrow> entry list \<Rightarrow> entry list \<Rightarrow> candidate \<Rightarrow> (entry \<times> bool) list \<Rightarrow> bool" where
  "walks f V K M F d R h0 h' out cur k es rest cur' o' \<longleftrightarrow>
     split_at f V F d h0 h' R \<and> candidate_ok f K h0 h' k cur \<and> remaining f K M F h0 out cur k \<and>
     scan f (\<lambda>e. K (entry_key e) \<and> after f k e) (h0 @ h') = es @ rest \<and> walk (visible M F) cur es = (cur', o')"

lemma split_moved:
  assumes "split_at f V F d h0 h' R" "extends V h h0"
  shows "moved f V h R d"
proof -
  have "extends V h (h0 @ h')"
    using assms(1) by (cases "F = 0") (auto simp: split_at_def assms(2) intro: extends_append [OF assms(2)])
  with assms(1) show ?thesis by (auto simp: split_at_def moved_def)
qed

lemma visible_split:
  assumes "split_at f V F d h0 h' R"
  shows "filter (visible M F) (scan f Q (h0 @ h')) = filter (visible M F) (scan f Q h0)"
proof -
  have "filter (\<lambda>e. visible M F e \<and> Q e) h' = []"
    using assms by (auto simp: split_at_def visible_def filter_empty_conv)
  then show ?thesis by (simp add: filter_scan) (simp add: scan_def)
qed

lemma visible_first:
  assumes "split_at f V 0 d h0 h' R"
  shows "filter (visible M (db_version (f_lib f) d)) (scan f Q h0) = filter (visible M 0) (scan f Q h0)"
  using assms by (intro filter_cong) (auto simp: split_at_def visible_def db_holds_def)

context fdb_driver
begin

lemma db_holds_wf: "db_holds f d h R \<Longrightarrow> hist_wf h" "db_holds f d h R \<Longrightarrow> e \<in> set h \<Longrightarrow> entry_wf e"
  "db_holds f d h R \<Longrightarrow> e \<in> set h \<Longrightarrow> entry_ok L e" "db_holds f d h R \<Longrightarrow> e \<in> set h \<Longrightarrow> is_revision (fst e)"
  by (auto simp: db_holds_def represents_def hist_wf_def entry_ok_def)

lemma candidate_ok_env:
  assumes "candidate_ok f K h0 h' k cur" "db_holds f d (h0 @ h') R" "db_holds f d' (h0 @ h' @ h'') R"
    and "\<forall>e\<in>set h''. db_version L d < rev_int (fst e)"
  shows "candidate_ok f K h0 (h' @ h'') k cur"
  unfolding candidate_ok_def
proof (intro ballI)
  fix cb assume "cb \<in> set_option cur"
  with assms(1) obtain e where cb: "fst cb \<in> set h0" "K (entry_key (fst cb))" "e \<in> set (h0 @ h')" "k = Some (index_key f e)"
      "entry_key e = entry_key (fst cb)" "sound_flag (set (h0 @ h')) {e \<in> set (h0 @ h'). K (entry_key e) \<and> after f k e} cb"
    unfolding candidate_ok_def by blast
  have "after f k e'" if "e' \<in> set h''" "entry_key e' = entry_key e" for e'
  proof -
    have "rev_int (fst e) \<le> db_version L d" using assms(2) cb(3) by (simp add: db_holds_def)
    then have "rev_int (fst e) < rev_int (fst e')" using assms(4) that(1) by fastforce
    moreover have in': "e \<in> set (h0 @ h' @ h'')" "e' \<in> set (h0 @ h' @ h'')" using cb(3) that(1) by auto
    ultimately have "index_less e e'"
      using that(2) rev_int_less_iff [of "fst e" "fst e'"] db_holds_wf(4) [OF assms(3)] by (simp add: index_less_def later_def)
    then show ?thesis
      using index_less_iff db_holds_wf(2) [OF assms(3) in'(1)] db_holds_wf(2) [OF assms(3) in'(2)] unfolding cb(4) after_Some by blast
  qed
  with cb have "sound_flag (set (h0 @ h' @ h'')) {e \<in> set (h0 @ h' @ h''). K (entry_key e) \<and> after f k e} cb"
    unfolding sound_flag_def later_def set_append by (metis (no_types, lifting) Un_iff mem_Collect_eq)
  with cb show "fst cb \<in> set h0 \<and> K (entry_key (fst cb)) \<and>
      (\<exists>e\<in>set (h0 @ h' @ h''). k = Some (index_key f e) \<and> entry_key e = entry_key (fst cb)) \<and>
      sound_flag (set (h0 @ h' @ h'')) {e \<in> set (h0 @ h' @ h''). K (entry_key e) \<and> after f k e} cb"
    unfolding set_append by blast
qed

lemma snap_inv_env:
  assumes "appending f a" "snap_inv f V per wants K M stop h R sel d c"
  shows "snap_inv f V per wants K M stop h R sel (at_before a d) c"
proof -
  from assms(2) obtain F h0 h' out cur k where i: "split_at f V F d h0 h' R" "extends V h h0"
      "kept per M F (map sure out) cur c" "wants (length out)" "snd sel = stop" "range_of f sel K k"
      "candidate_ok f K h0 h' k cur" "remaining f K M F h0 out cur k" "F = 0 \<longrightarrow> k = None \<and> out = [] \<and> cur = None"
    unfolding snap_inv_def by blast
  from assms(1) i(1) obtain h'' where h'': "db_holds f (at_before a d) ((h0 @ h') @ h'') R"
      "db_version L d \<le> db_version L (at_before a d)" "\<forall>e\<in>set h''. db_version L d < rev_int (fst e)"
    unfolding appending_def split_at_def driver_simps(1) by blast
  show ?thesis
  proof (cases "F = 0")
    case True
    with i h'' have "split_at f V F (at_before a d) (h0 @ h'') h' R" "remaining f K M F (h0 @ h'') out cur k"
        "candidate_ok f K (h0 @ h'') h' k cur" "extends V h (h0 @ h'')"
      by (auto simp: split_at_def remaining_def listing_def candidate_ok_def intro: extends_append)
    with i show ?thesis unfolding snap_inv_def by blast
  next
    case False
    with i h'' have "split_at f V F (at_before a d) h0 (h' @ h'') R" by (auto simp: split_at_def)
    moreover have "candidate_ok f K h0 (h' @ h'') k cur"
      using i(1) h'' by (intro candidate_ok_env [OF i(7)]) (auto simp: split_at_def)
    ultimately show ?thesis using i False unfolding snap_inv_def by blast
  qed
qed

text \<open>What a batch reads.\<close>

lemma index_iterator:
  assumes "db_holds f d h R" "reads L t d" "range_of f sel K k"
  shows "\<exists>n tail. tr_GetRange L snap t (fst sel) (snd sel) \<lparr>ro_Limit = 0, ro_Mode = mode, ro_Reverse = False\<rparr>
      = map Inr (map (index_kv L (f_byKeyAndRevision f)) (take n (scan f (\<lambda>e. K (entry_key e) \<and> after f k e) h))) @ tail \<and>
    (tail = [] \<and> length (scan f (\<lambda>e. K (entry_key e) \<and> after f k e) h) \<le> n \<or> (\<exists>err. tail = [Inl err]))"
proof -
  let ?es = "scan f (\<lambda>e. K (entry_key e) \<and> after f k e) h"
  let ?opts = "\<lparr>ro_Limit = 0, ro_Mode = mode, ro_Reverse = False\<rparr>"
  have t: "tr_view L t = db_view L d" "tr_pending L t = []" using assms(2) by (simp_all add: reads_def)
  have "represents f (db_view L d) h" using assms(1) by (simp add: db_holds_def)
  then have "sel_range (db_view L d) (fst sel) (snd sel) = map (index_kv L (f_byKeyAndRevision f)) ?es"
    by (rule sel_range_scan)
      (use finite_view [of t] t(1) range_of_prefix [OF assms(3)] range_of_iff [OF assms(3)] db_holds_wf [OF assms(1)] in simp_all)
  then have xs: "limited ?opts (sel_range (tr_view L t) (fst sel) (snd sel)) = map (index_kv L (f_byKeyAndRevision f)) ?es"
    by (simp add: t(1) limited_def)
  from range_sound [OF t(2), of ?opts "fst sel" "snd sel" snap] consider
      "tr_GetRange L snap t (fst sel) (snd sel) ?opts = map Inr (map (index_kv L (f_byKeyAndRevision f)) ?es)"
    | n err where "tr_GetRange L snap t (fst sel) (snd sel) ?opts = map Inr (take n (map (index_kv L (f_byKeyAndRevision f)) ?es)) @ [Inl err]"
    unfolding xs Let_def by blast
  then show ?thesis
  proof cases
    case 1
    then show ?thesis by (intro exI [of _ "length ?es"] exI [of _ "[]"]) (simp del: driver_simps(4))
  next
    case (2 n err)
    then show ?thesis by (intro exI [of _ n] exI [of _ "[Inl err]"]) (simp add: take_map del: driver_simps(4))
  qed
qed

lemma candidate_ok_weaker:
  assumes "candidate_ok f K h0 h' k cur0" "case cur0 of None \<Rightarrow> cur = None | Some (e, b0) \<Rightarrow> \<exists>b. cur = Some (e, b) \<and> (b \<longrightarrow> b0)"
  shows "candidate_ok f K h0 h' k cur" "candidate_entry cur = candidate_entry cur0"
  using assms by (auto simp: candidate_ok_def sound_flag_def split: option.splits)

lemma candidate_below:
  assumes "candidate_ok f K h0 h' k cur" "db_holds f d (h0 @ h') R" "e \<in> set (h0 @ h')" "after f k e" "cb \<in> set_option cur"
  shows "entry_key (fst cb) \<le> entry_key e"
proof -
  from assms(1,5) obtain e1 where e1: "e1 \<in> set (h0 @ h')" "k = Some (index_key f e1)" "entry_key e1 = entry_key (fst cb)"
    unfolding candidate_ok_def by blast
  then have "index_less e1 e"
    using index_less_iff [OF db_holds_wf(2) [OF assms(2) e1(1)] db_holds_wf(2) [OF assms(2,3)]] assms(4) after_Some by metis
  with e1(3) show ?thesis by (auto simp: index_less_def later_def)
qed

lemma later_in_scan:
  assumes "db_holds f d h R" "e \<in> set (scan f (\<lambda>e. K (entry_key e) \<and> after f k e) h)" "e' \<in> set h" "later e' e"
  shows "e' \<in> set (scan f (\<lambda>e. K (entry_key e) \<and> after f k e) h)"
proof -
  have e: "e \<in> set h" "K (entry_key e)" "after f k e" using assms(2) by simp_all
  have "index_key f e < index_key f e'"
    using index_less_iff [OF db_holds_wf(2) [OF assms(1) e(1)] db_holds_wf(2) [OF assms(1,3)]] assms(4) by (simp add: index_less_def)
  then have "after f k e'" using e(3) by (cases k) (auto simp: after_def simp del: driver_simps)
  with assms(3,4) e(2) show ?thesis by (simp add: later_def)
qed

lemma walks_facts:
  assumes "walks f V K M F d R h0 h' out cur k es rest cur' o'"
  shows "db_holds f d (h0 @ h') R" "sorted_wrt index_less (es @ rest)" "sorted (map entry_key (es @ rest))"
    and "\<forall>e\<in>set (es @ rest). e \<in> set (h0 @ h') \<and> K (entry_key e) \<and> after f k e"
    and "\<forall>c\<in>set (candidate_entry cur). c \<in> set h0 \<and> (\<forall>e\<in>set (es @ rest). entry_key c \<le> entry_key e)"
proof -
  let ?Q = "\<lambda>e. K (entry_key e) \<and> after f k e"
  show holds: "db_holds f d (h0 @ h') R" using assms by (simp add: walks_def split_at_def)
  have es: "scan f ?Q (h0 @ h') = es @ rest" using assms by (simp add: walks_def)
  show sorted: "sorted_wrt index_less (es @ rest)" using scan_sorted [OF db_holds_wf(1) [OF holds], of ?Q] es by simp
  then show "sorted (map entry_key (es @ rest))" by (rule sorted_index_keys)
  have "set (es @ rest) = {e \<in> set (h0 @ h'). ?Q e}" by (metis es set_scan)
  then show *: "\<forall>e\<in>set (es @ rest). e \<in> set (h0 @ h') \<and> K (entry_key e) \<and> after f k e" by blast
  have ok: "candidate_ok f K h0 h' k cur" using assms by (simp add: walks_def)
  show "\<forall>c\<in>set (candidate_entry cur). c \<in> set h0 \<and> (\<forall>e\<in>set (es @ rest). entry_key c \<le> entry_key e)"
  proof (cases cur)
    case (Some cb)
    then have "fst cb \<in> set h0" using ok by (simp add: candidate_ok_def)
    moreover have "\<forall>e\<in>set (es @ rest). entry_key (fst cb) \<le> entry_key e"
      using candidate_below [OF ok holds] * Some by simp
    ultimately show ?thesis using Some by (cases cb) simp
  qed simp
qed

lemma walks_emits:
  assumes "walks f V K M F d R h0 h' out cur k es rest cur' o'"
  shows "\<forall>cb\<in>set (o' @ pending cur'). fst cb \<in> set (h0 @ h') \<and> \<not> r_IsDelete (snd (fst cb))"
    and "sorted_wrt (<) (map (entry_key \<circ> fst) (o' @ pending cur'))"
proof -
  note facts = walks_facts [OF assms]
  have w: "walk (visible M F) cur es = (cur', o')" using assms by (simp add: walks_def)
  have srt: "sorted (map entry_key es)" using facts(3) by (simp add: sorted_append)
  have le: "\<forall>c\<in>set (candidate_entry cur). \<forall>e\<in>set es. entry_key c \<le> entry_key e" using facts(5) by simp
  show "sorted_wrt (<) (map (entry_key \<circ> fst) (o' @ pending cur'))" by (rule walk_emitted_sorted(1) [OF srt le w])
  have "fst ` set (pending cur') \<subseteq> set (candidate_entry cur')" by (cases cur') (auto simp: pending_def)
  then have "fst ` set (o' @ pending cur') \<subseteq> set (candidate_entry cur) \<union> set es"
    using walk_subset [OF w] unfolding set_append image_Un by blast
  moreover have "set (candidate_entry cur) \<union> set es \<subseteq> set (h0 @ h')" using facts(4,5) unfolding set_append by blast
  ultimately have "\<forall>cb\<in>set (o' @ pending cur'). fst cb \<in> set (h0 @ h')" by blast
  with walk_emitted_sorted(2) [OF srt le w]
  show "\<forall>cb\<in>set (o' @ pending cur'). fst cb \<in> set (h0 @ h') \<and> \<not> r_IsDelete (snd (fst cb))" by blast
qed

lemma walks_flags:
  assumes "walks f V K M F d R h0 h' out cur k es rest cur' o'"
  shows "map (known (h0 @ h')) o' = map sure (map fst o')"
    and "\<forall>cb\<in>set_option cur'. sound_flag (set (h0 @ h')) (set rest) cb"
proof -
  note facts = walks_facts [OF assms]
  let ?Q = "\<lambda>e. K (entry_key e) \<and> after f k e"
  have es: "scan f ?Q (h0 @ h') = es @ rest" and ok: "candidate_ok f K h0 h' k cur"
    and w: "walk (visible M F) cur es = (cur', o')" using assms by (simp_all add: walks_def)
  have set_es: "set (es @ rest) = {e \<in> set (h0 @ h'). ?Q e}" by (metis es set_scan)
  have "(\<forall>cb\<in>set o'. sound_flag (set (h0 @ h')) {} cb) \<and> (\<forall>cb\<in>set_option cur'. sound_flag (set (h0 @ h')) (set rest) cb)"
  proof (rule walk_flags [OF facts(2) _ _ w])
    show "\<forall>e\<in>set (es @ rest). \<forall>e'\<in>set (h0 @ h'). later e' e \<longrightarrow> e' \<in> set (es @ rest)"
      using later_in_scan [OF facts(1), of _ K k] unfolding es by blast
    show "\<forall>cb\<in>set_option cur. sound_flag (set (h0 @ h')) (set (es @ rest)) cb \<and> (\<forall>e\<in>set (es @ rest). entry_key (fst cb) \<le> entry_key e)"
      unfolding set_es using ok candidate_below [OF ok facts(1)] unfolding candidate_ok_def by blast
  qed
  then show "map (known (h0 @ h')) o' = map sure (map fst o')"
    and "\<forall>cb\<in>set_option cur'. sound_flag (set (h0 @ h')) (set rest) cb" by (auto simp: known_def sure_def)
qed

lemma walks_remaining:
  assumes "walks f V K M F d R h0 h' out cur k es rest cur' o'"
  shows "(out @ map fst o') @ newest (candidate_entry cur' @ filter (visible M F) rest) = listing f K M F h0"
proof -
  note facts = walks_facts [OF assms]
  let ?Q = "\<lambda>e. K (entry_key e) \<and> after f k e"
  have s: "split_at f V F d h0 h' R" and es: "scan f ?Q (h0 @ h') = es @ rest" and rem: "remaining f K M F h0 out cur k"
    and w: "walk (visible M F) cur es = (cur', o')" using assms by (simp_all add: walks_def)
  have "map fst o' @ newest (candidate_entry cur' @ filter (visible M F) rest)
      = newest (candidate_entry cur @ filter (visible M F) (es @ rest))"
    using facts(5) by (intro walk_newest [OF facts(3) _ w]) blast
  also have "filter (visible M F) (es @ rest) = filter (visible M F) (scan f ?Q h0)"
    using visible_split [OF s, of M ?Q] unfolding es .
  finally show ?thesis using rem by (simp add: remaining_def)
qed

lemma walks_next:
  assumes "walks f V K M F d R h0 h' out cur k es rest cur' o'" "es \<noteq> []" "range_of f sel K k"
  shows "scan f (\<lambda>e. K (entry_key e) \<and> after f (Some (index_key f (last es))) e) (h0 @ h') = rest"
    and "candidate_ok f K h0 h' (Some (index_key f (last es))) cur'"
    and "range_of f (FirstGreaterThan (index_key f (last es)), snd sel) K (Some (index_key f (last es)))"
proof -
  note facts = walks_facts [OF assms(1)]
  let ?k = "Some (index_key f (last es))"
  have s: "split_at f V F d h0 h' R" and es: "scan f (\<lambda>e. K (entry_key e) \<and> after f k e) (h0 @ h') = es @ rest"
    and w: "walk (visible M F) cur es = (cur', o')" using assms(1) by (simp_all add: walks_def)
  show rest: "scan f (\<lambda>e. K (entry_key e) \<and> after f ?k e) (h0 @ h') = rest"
    by (rule scan_rest [OF db_holds_wf(1) [OF facts(1)] es assms(2)])
  have l: "last es \<in> set (h0 @ h')" "K (entry_key (last es))" "after f k (last es)" using facts(4) assms(2) by auto
  show "range_of f (FirstGreaterThan (index_key f (last es)), snd sel) K ?k"
    by (rule range_of_after [OF assms(3) db_holds_wf(2) [OF facts(1) l(1)] db_holds_wf(3) [OF facts(1) l(1)] l(2,3)])
  have set_rest: "set rest = {e \<in> set (h0 @ h'). K (entry_key e) \<and> after f ?k e}" by (metis rest set_scan)
  have vis: "e \<in> set h0" if "e \<in> set (h0 @ h')" "visible M F e" for e
    using s that by (cases "F = 0") (auto simp: split_at_def visible_def)
  have "\<forall>c\<in>set (candidate_entry cur'). c \<in> set h0 \<and> entry_key c = entry_key (last es)"
    using walk_candidate(1) [OF w] walk_candidate(2) [OF w assms(2)] facts(4,5) vis
    by (metis (no_types, lifting) UnE Un_iff in_mono mem_Collect_eq set_append)
  then have "\<forall>cb\<in>set_option cur'. fst cb \<in> set h0 \<and> entry_key (fst cb) = entry_key (last es)" by (cases cur') auto
  with l(1,2) walks_flags(2) [OF assms(1)] show "candidate_ok f K h0 h' ?k cur'"
    unfolding candidate_ok_def set_rest by (metis (no_types, lifting))
qed

end

definition snap_post ::
    "('d, 't) FDB \<Rightarrow> int64 \<Rightarrow> ('t, ByKeyAndRevisionRecord, 's) Processor \<Rightarrow> ('s \<Rightarrow> finding list \<Rightarrow> bool) \<Rightarrow> (nat \<Rightarrow> bool)
     \<Rightarrow> (bytes \<Rightarrow> bool) \<Rightarrow> int64 \<Rightarrow> selector \<Rightarrow> entry list \<Rightarrow> int64 \<Rightarrow> batchResult \<Rightarrow> bytes \<Rightarrow> 'd \<Rightarrow> 's recordCollector \<Rightarrow> bool" where
  "snap_post f V inner per wants K M stop h R res st d c \<longleftrightarrow>
     (if br_collectorNeedsMore res
      then \<exists>k. br_lastReadKey res = Some k \<and>
             snap_inv f V per wants K M stop h R (FirstGreaterThan k, stop) d (recordCollector_postBatch inner c)
      else snap_result f V per wants K M h R d (recordCollector_postBatch inner c))"

text \<open>What an attempt at a batch leaves, if it gets through its \<^verbatim>\<open>endBatch\<close>.\<close>

definition batch_done ::
    "('d, 't) FDB \<Rightarrow> int64 \<Rightarrow> ('s \<Rightarrow> finding list \<Rightarrow> finding list \<Rightarrow> bool) \<Rightarrow> (nat \<Rightarrow> bool)
     \<Rightarrow> (bytes \<Rightarrow> bool) \<Rightarrow> int64 \<Rightarrow> int64 \<Rightarrow> 'd \<Rightarrow> int64 \<Rightarrow> entry list \<Rightarrow> entry list \<Rightarrow> entry list \<Rightarrow> candidate \<Rightarrow> bytes option \<Rightarrow> batchResult \<Rightarrow> 's recordCollector \<Rightarrow> bool" where
  "batch_done f V fin wants K M F d R h0 h' out cur k res c \<longleftrightarrow>
     (\<exists>cur1 es rest cur' o'. walks f V K M F d R h0 h' out cur1 k es rest cur' o' \<and>
        fin (rc_inner c) (map sure out)
          (map (known (h0 @ h')) (o' @ (if br_collectorNeedsMore res then [] else pending cur'))) \<and>
        rc_batchCurrentRecord c = map_option mark cur' \<and> rc_batchRev c = db_version (f_lib f) d \<and> (0 < M \<longrightarrow> R \<le> M) \<and>
        (if br_collectorNeedsMore res
         then es \<noteq> [] \<and> br_lastReadKey res = Some (index_key f (last es)) \<and> wants (length (out @ map fst o'))
         else rest = [] \<or> \<not> wants (length (out @ map fst o')) \<and> wants (length (out @ map fst o') - 1)))"

context inner_collector
begin

lemma snap_batch:
  assumes mode: "\<not> UseSequentialId cfg" and s: "split_at f V F d h0 h' R" and "kept per M F (map sure out) cur c"
    and "more (length out)" and rng: "range_of f sel K k" and "candidate_ok f K h0 h' k cur"
    and "remaining f K M F h0 out cur k" and rd: "reads L t d"
    and body: "processBatch_body f (recordProcessor f inner) sel a t c = (r, c')"
  shows "kept per M F (map sure out) cur c' \<and> ((\<exists>e. r = Err e) \<or>
    (\<exists>res. r = Ok (res, t) \<and> batch_done f V fin more K M F d R h0 h' out cur k res c'))"
proof -
  let ?es = "scan f (\<lambda>e. K (entry_key e) \<and> after f k e) (h0 @ h')"
  have holds: "db_holds f d (h0 @ h') R" using s by (simp add: split_at_def)
  from kept_start [OF assms(3)] obtain cur1 where
    c1: "within per col M F (map sure out) cur [] cur1 (recordCollector_startBatch inner c)"
    and weak: "case cur of None \<Rightarrow> cur1 = None | Some (e, b0) \<Rightarrow> \<exists>b. cur1 = Some (e, b) \<and> (b \<longrightarrow> b0)" by blast
  from index_iterator [OF holds rd rng] obtain n tail where
    it: "tr_GetRange L (p_snapshotReads inner) t (fst sel) (snd sel)
        \<lparr>ro_Limit = 0, ro_Mode = p_streamingMode inner, ro_Reverse = False\<rparr>
      = map Inr (map (index_kv L (f_byKeyAndRevision f)) (take n ?es)) @ tail"
    and tail: "tail = [] \<and> length ?es \<le> n \<or> (\<exists>err. tail = [Inl err])" by blast
  obtain r1 c2 where loop: "processBatch_loop (recordProcessor f inner) (at_slow a) 0 t
      (map Inr (map (index_kv L (f_byKeyAndRevision f)) (take n ?es)) @ tail) (recordCollector_startBatch inner c) = (r1, c2)"
    by fastforce
  have "\<forall>e\<in>set (take n ?es). entry_wf e \<and> is_revision (fst e)"
    using db_holds_wf(2,4) [OF holds] set_take_subset [of n ?es] set_scan [of f _ "h0 @ h'"] by blast
  from loop_within [OF this c1 _ loop, unfolded length_map append_Nil list.size add_0_right] tail consider
      (err) e where "r1 = Err e" "kept per M F (map sure out) cur c2"
    | (ok) res es1 es2 cur' o' where "r1 = Ok (res, t)" "take n ?es = es1 @ es2" "walk (visible M F) cur1 es1 = (cur', o')"
        "within per col M F (map sure out) cur o' cur' c2"
        "if br_collectorNeedsMore res then es1 \<noteq> [] \<and> br_lastReadKey res = Some (index_key f (last es1)) \<and>
           (more (length out) \<longrightarrow> more (length out + length o'))
         else tail = [] \<and> es2 = [] \<or> \<not> more (length out + length o') \<and> (more (length out) \<longrightarrow> more (length out + length o' - 1))"
    by blast
  then show ?thesis
  proof cases
    case err
    with body it loop have "(r, c') = (Err e, c2)" by (simp add: processBatch_body_def recordProcessor_def Let_def)
    with err show ?thesis by simp
  next
    case (ok res es1 es2 cur' o')
    let ?rest = "es2 @ drop n ?es"
    have w: "walks f V K M F d R h0 h' out cur1 k es1 ?rest cur' o'"
      using s ok(2,3) candidate_ok_weaker [OF assms(6) weak] assms(7) append_take_drop_id [of n ?es]
      unfolding walks_def remaining_def by simp
    obtain r2 c3 where e: "recordCollector_endBatch f inner t (\<not> br_collectorNeedsMore res) c2 = (r2, c3)" by fastforce
    have r: "(r, c') = (map_res (\<lambda>t2. (res, t2)) r2, c3)"
      using body it loop ok(1) e by (cases r2) (simp_all add: processBatch_body_def recordProcessor_def Let_def)
    from endBatch_within [OF mode ok(4) holds rd walks_emits(1) [OF w] walks_emits(2) [OF w] e]
    show ?thesis
    proof (elim disjE conjE exE)
      fix e assume "r2 = Err e" "kept per M F (map sure out) cur c3"
      with r show ?thesis by simp
    next
      assume c3: "r2 = Ok t" "kept per M F (map sure out) cur c3"
        "fin (rc_inner c3) (map sure out) (map (known (h0 @ h')) (o' @ (if \<not> br_collectorNeedsMore res then pending cur' else [])))"
        "rc_batchCurrentRecord c3 = map_option mark cur'" "rc_batchRev c3 = db_version L d" "0 < M \<longrightarrow> R \<le> M"
      have "batch_done f V fin more K M F d R h0 h' out cur k res c3"
        unfolding batch_done_def
        using w c3(3-) ok(5) tail assms(4)
        by (intro exI [of _ cur1] exI [of _ es1] exI [of _ ?rest] exI [of _ cur'] exI [of _ o'])
          (auto split: if_splits simp del: driver_simps(4))
      with r c3(1,2) show ?thesis by simp
    qed
  qed
qed

lemma split_at_commit:
  assumes "split_at f V F d h0 h' R" "reads L t d" "F' = (if F = 0 then db_version L d else F)"
  shows "split_at f V F (tr_Commit L st t) h0 h' R" "split_at f V F' (tr_Commit L st t) h0 h' R" "0 < F'"
    and "filter (visible M F') (scan f Q h0) = filter (visible M F) (scan f Q h0)"
proof -
  note c = commit_read_only [OF assms(2), of st]
  have pos: "0 < db_version L d" using assms(1) by (simp add: split_at_def db_holds_def)
  show "split_at f V F (tr_Commit L st t) h0 h' R" "split_at f V F' (tr_Commit L st t) h0 h' R" "0 < F'"
    using assms(1,3) c pos by (auto simp: split_at_def db_holds_def intro: order_trans)
  show "filter (visible M F') (scan f Q h0) = filter (visible M F) (scan f Q h0)"
    using assms(1,3) visible_first [of f V d h0 h' R M Q] by auto
qed

lemma batch_done_next:
  assumes "batch_done f V fin more K M F d R h0 h' out cur k res c" "kept per M F (map sure out) cur c" "reads L t d"
    and "range_of f sel K k" "extends V h h0" "br_collectorNeedsMore res"
  shows "\<exists>k'. br_lastReadKey res = Some k' \<and>
    snap_inv f V per more K M (snd sel) h R (FirstGreaterThan k', snd sel) (tr_Commit L st t) (recordCollector_postBatch inner c)"
proof -
  from assms(1,6) obtain cur1 es rest cur' o' where w: "walks f V K M F d R h0 h' out cur1 k es rest cur' o'"
    and c: "fin (rc_inner c) (map sure out) (map (known (h0 @ h')) o')" "rc_batchCurrentRecord c = map_option mark cur'"
      "rc_batchRev c = db_version L d"
    and res: "es \<noteq> []" "br_lastReadKey res = Some (index_key f (last es))" "more (length (out @ map fst o'))"
    by (auto simp: batch_done_def simp del: driver_simps(4) length_append length_map)
  let ?F = "if F = 0 then db_version L d else F" and ?k = "Some (index_key f (last es))"
  have s: "split_at f V F d h0 h' R" using w by (simp add: walks_def)
  note n = walks_next [OF w res(1) assms(4)]
  note sc = split_at_commit [OF s assms(3) refl]
  have "per (p_postBatch inner (rc_inner c)) (map sure out @ map (known (h0 @ h')) o')" by (rule inner_post [OF c(1)])
  then have "per (p_postBatch inner (rc_inner c)) (map sure (out @ map fst o'))"
    unfolding walks_flags(1) [OF w] by simp
  then have "kept per M ?F (map sure (out @ map fst o')) cur' (recordCollector_postBatch inner c)"
    using assms(2) c by (cases cur') (auto simp: kept_def recordCollector_postBatch_def weakened_def)
  moreover have "remaining f K M ?F h0 (out @ map fst o') cur' ?k"
    using walks_remaining [OF w] visible_split [OF s, of M "\<lambda>e. K (entry_key e) \<and> after f ?k e"]
    unfolding n(1) remaining_def listing_def sc(4) by simp
  moreover have "?F \<noteq> 0" using sc(3) by auto
  ultimately show ?thesis
    using sc(2) [of st] assms(5) res(2,3) n(2,3) unfolding snap_inv_def snd_conv by blast
qed

lemma batch_done_last:
  assumes "batch_done f V fin more K M F d R h0 h' out cur k res c" "kept per M F (map sure out) cur c" "reads L t d"
    and "extends V h h0" "\<not> br_collectorNeedsMore res"
  shows "snap_result f V per more K M h R (tr_Commit L st t) (recordCollector_postBatch inner c)"
proof -
  from assms(1,5) obtain cur1 es rest cur' o' where w: "walks f V K M F d R h0 h' out cur1 k es rest cur' o'"
    and c: "fin (rc_inner c) (map sure out) (map (known (h0 @ h')) (o' @ pending cur'))" "rc_batchRev c = db_version L d" "0 < M \<longrightarrow> R \<le> M"
    and res: "rest = [] \<or> \<not> more (length (out @ map fst o')) \<and> more (length (out @ map fst o') - 1)"
    by (auto simp: batch_done_def simp del: driver_simps(4) length_append length_map)
  let ?F = "if F = 0 then db_version L d else F"
  let ?outs = "map sure out @ map (known (h0 @ h')) (o' @ pending cur')"
  have s: "split_at f V F d h0 h' R" using w by (simp add: walks_def)
  note sc = split_at_commit [OF s assms(3) refl]
  have F: "rc_firstRev (recordCollector_postBatch inner c) = ?F"
    using assms(2) c(2) by (simp add: kept_def recordCollector_postBatch_def)
  have per: "per (rc_inner (recordCollector_postBatch inner c)) ?outs"
    using inner_post [OF c(1)] by (simp add: recordCollector_postBatch_def)
  have listing: "listing f K M ?F h0 = (out @ map fst o') @ newest (candidate_entry cur' @ filter (visible M F) rest)"
    using walks_remaining [OF w] sc(4) by (simp add: listing_def)
  have outs: "?outs = map sure (out @ map fst o') @ map (known (h0 @ h')) (pending cur')"
    using walks_flags(1) [OF w] by simp
  have "collected more (listing f K M ?F h0) ?outs"
  proof (cases "rest = []")
    case True
    have "map (known (h0 @ h')) (pending cur') = map sure (map fst (pending cur'))"
      using walks_flags(2) [OF w] True by (cases cur') (auto simp: pending_def known_def sure_def)
    then show ?thesis unfolding collected_def outs listing using True by (simp add: pending_entries)
  next
    case False
    have "length (pending cur') \<le> 1" by (cases cur') (auto simp: pending_def)
    with False res show ?thesis
      unfolding collected_def outs listing
      by (intro disjI2 exI [of _ "length (out @ map fst o')"] exI [of _ "map (known (h0 @ h')) (pending cur')"]) simp
  qed
  moreover have "fst ` set ?outs \<subseteq> set (h0 @ h')"
  proof -
    have "set (listing f K M ?F h0) \<subseteq> set h0" unfolding listing_def using set_newest by fastforce
    then have "set (out @ map fst o') \<subseteq> set h0" unfolding listing by simp
    moreover have "fst ` set (map (known (h0 @ h')) (pending cur')) \<subseteq> set (h0 @ h')"
      using walks_emits(1) [OF w] by (force simp: known_def)
    ultimately show ?thesis unfolding outs by (auto simp: sure_def)
  qed
  ultimately show ?thesis using per sc(2) [of st] sc(3) assms(4) c(3) unfolding snap_result_def F by blast
qed

lemma snap_attempt:
  assumes "\<not> UseSequentialId cfg" "appending f a" "snd sel = stop"
  shows "attempt_ok L (snap_inv f V per more K M stop h R sel) (snap_post f V inner per more K M stop h R)
    (processBatch_body f (recordProcessor f inner) sel) a"
  unfolding attempt_ok_def
proof (intro conjI allI impI)
  fix d c assume "snap_inv f V per more K M stop h R sel d c"
  then show "snap_inv f V per more K M stop h R sel (at_before a d) c" by (rule snap_inv_env [OF assms(2)])
next
  fix d c t r c'
  assume *: "snap_inv f V per more K M stop h R sel d c \<and> reads L t d \<and> processBatch_body f (recordProcessor f inner) sel a t c = (r, c')"
  then obtain F h0 h' out cur k where i: "split_at f V F d h0 h' R" "extends V h h0" "kept per M F (map sure out) cur c"
      "more (length out)" "range_of f sel K k" "candidate_ok f K h0 h' k cur" "remaining f K M F h0 out cur k"
      "F = 0 \<longrightarrow> k = None \<and> out = [] \<and> cur = None"
    unfolding snap_inv_def by blast
  from snap_batch [OF assms(1) i(1,3-7)] * have b: "kept per M F (map sure out) cur c'"
    "(\<exists>e. r = Err e) \<or> (\<exists>res. r = Ok (res, t) \<and> batch_done f V fin more K M F d R h0 h' out cur k res c')" by blast+
  have keep: "snap_inv f V per more K M stop h R sel d1 c'" if "split_at f V F d1 h0 h' R" for d1
    using that i b(1) assms(3) unfolding snap_inv_def by blast
  show "snap_inv f V per more K M stop h R sel d c'" by (rule keep [OF i(1)])
  have rd: "reads L t d" using * by blast
  have "snap_post f V inner per more K M stop h R res (at_stamp a) (tr_Commit L (at_stamp a) t) c'"
    if "batch_done f V fin more K M F d R h0 h' out cur k res c'" for res
    using batch_done_next [OF that b(1) rd i(5,2), of "at_stamp a"] batch_done_last [OF that b(1) rd i(2), of "at_stamp a"]
    unfolding snap_post_def assms(3) by (cases "br_collectorNeedsMore res") simp_all
  with b(2) keep split_at_commit(1) [OF i(1) rd refl] show "(\<exists>e. r = Err e) \<or> (\<exists>x t'. r = Ok (x, t') \<and>
      snap_inv f V per more K M stop h R sel (tr_Commit L (at_stamp a) t') c' \<and>
      snap_post f V inner per more K M stop h R x (at_stamp a) (tr_Commit L (at_stamp a) t') c')" by blast
qed

text \<open>A read of a range is a read of one snapshot.\<close>

theorem snapshot_range:
  assumes "\<not> UseSequentialId cfg" "\<forall>script\<in>set scripts. \<forall>a\<in>set script. appending f a"
    and "db_holds f d h R" "range_of f sel K None" "per s []" "more 0"
    and "processRange f (recordProcessor f inner) sel scripts d (newRecordCollector M s) = Some (r, st, d', c')"
  shows "moved f (db_version L d) h R d' \<and> ((\<exists>e. r = Err e) \<or> r = Ok () \<and> snap_result f (db_version L d) per more K M h R d' c')"
proof -
  let ?Inv = "snap_inv f (db_version L d) per more K M (snd sel) h R"
  let ?Post = "snap_post f (db_version L d) inner per more K M (snd sel) h R"
  have "split_at f (db_version L d) 0 d h [] R" using assms(3) by (simp add: split_at_def db_holds_def)
  moreover have "kept per M 0 (map sure []) None (newRecordCollector M s)"
    using assms(5) by (simp add: kept_def newRecordCollector_def weakened_def)
  moreover have "more (length ([] :: entry list))" using assms(6) by simp
  moreover have "candidate_ok f K h [] None None" "remaining f K M 0 h [] None None"
    by (simp_all add: candidate_ok_def remaining_def listing_def)
  ultimately have inv: "?Inv sel d (newRecordCollector M s)"
    using assms(4) unfolding snap_inv_def by (metis extends_refl)
  have ok: "attempt_ok L (?Inv sel1) (?Post) (processBatch_body f (recordProcessor f inner) sel1) a"
    if "script \<in> set scripts" "a \<in> set script" "snd sel1 = snd sel" for sel1 script a
    using assms(2) that by (intro snap_attempt [OF assms(1)]) auto
  have step: "\<exists>k. br_lastReadKey res = Some k \<and> ?Inv (FirstGreaterThan k, snd sel) d (p_postBatch (recordProcessor f inner) s)"
    if "?Post res st d s" "br_collectorNeedsMore res" for res st d s
    using that by (simp add: snap_post_def)
  have "(\<exists>e sel1 s1. r = Err e \<and> c' = p_postBatch (recordProcessor f inner) s1 \<and> ?Inv sel1 d' s1) \<or>
      (\<exists>(sel1 :: selector \<times> selector) res s1. r = Ok () \<and> c' = p_postBatch (recordProcessor f inner) s1 \<and> snd sel1 = snd sel \<and> ?Post res st d' s1 \<and>
        \<not> br_collectorNeedsMore res)"
    by (rule processRange_keeps [where Inv = ?Inv and Post = "\<lambda>_. ?Post" and scripts = scripts, OF _ _ inv refl assms(7)])
      (erule (2) ok, erule (1) step)
  then show ?thesis
  proof (elim disjE exE conjE)
    fix e sel1 s1 assume r: "r = Err e" and "?Inv sel1 d' s1"
    then obtain F h0 h' where "split_at f (db_version L d) F d' h0 h' R" "extends (db_version L d) h h0" unfolding snap_inv_def by blast
    from split_moved [OF this] r show ?thesis by simp
  next
    fix sel1 :: "selector \<times> selector" and res s1
    assume "r = Ok ()" "c' = p_postBatch (recordProcessor f inner) s1" "?Post res st d' s1" "\<not> br_collectorNeedsMore res"
    then have r: "r = Ok ()" "snap_result f (db_version L d) per more K M h R d' c'" by (simp_all add: snap_post_def)
    from r(2) obtain F h0 h' where "split_at f (db_version L d) F d' h0 h' R" "extends (db_version L d) h h0" unfolding snap_result_def by blast
    from split_moved [OF this] r show ?thesis by simp
  qed
qed

end

end
