(* ===== verification/FDB_Log.thy ===== *)
theory FDB_Log
  imports FDB_Snapshot
begin

text \<open>
  Reading the log in revision order. A range of the log is read batch by batch, under retries and while other
  clients append; the readers of \<^verbatim>\<open>fdb_watch.go\<close> and \<^verbatim>\<open>fdb_wal.go\<close> are instances of the contract \<open>log_reader\<close>, for which it is
  shown once that the entries taken are, in order and without a gap, those after the position the range starts from.
\<close>

section \<open>Iterators over the log\<close>

text \<open>An iterator that yields entries, as records that satisfy \<open>Q\<close>, to their end or to an error.\<close>

fun iter_over :: "('d, 't) FDB \<Rightarrow> (entry \<Rightarrow> Record \<Rightarrow> bool) \<Rightarrow> iter \<Rightarrow> entry list \<Rightarrow> bool" where
  "iter_over f Q it [] \<longleftrightarrow>
     (\<exists>it'. ByRevision_GetFromIterator f it = Ok (None, it')) \<or> (\<exists>err. ByRevision_GetFromIterator f it = Err err)"
| "iter_over f Q it (e # es) \<longleftrightarrow>
     (\<exists>r it'. ByRevision_GetFromIterator f it = Ok (Some (fst e, r), it') \<and> Q e r \<and>
        length it' < length it \<and> iter_over f Q it' es) \<or>
     (\<exists>err. ByRevision_GetFromIterator f it = Err err)"

abbreviation log_iter :: "('d, 't) FDB \<Rightarrow> iter \<Rightarrow> entry list \<Rightarrow> bool" where
  "log_iter f \<equiv> iter_over f (\<lambda>e r. r = by_revision_record (snd e))"

text \<open>What a range read may return: all, or a part and an error.\<close>

definition truncated :: "kv list \<Rightarrow> iter \<Rightarrow> bool" where
  "truncated kvs it \<longleftrightarrow> it = map Inr kvs \<or> (\<exists>n err. it = map Inr (take n kvs) @ [Inl err])"

text \<open>A range of the log from which the entries after the revision \<open>lo\<close> are read.\<close>

abbreviation in_range :: "selector \<times> selector \<Rightarrow> bytes \<Rightarrow> bool" where
  "in_range sel k \<equiv> sel_from (fst sel) k \<and> sel_upto (snd sel) k"

definition log_range :: "('d, 't) FDB \<Rightarrow> selector \<times> selector \<Rightarrow> int64 \<Rightarrow> bool" where
  "log_range f sel lo \<longleftrightarrow>
     (\<forall>k. in_range sel k \<longrightarrow> prefix (f_byRevision f) k) \<and>
     (\<forall>e kv. entry_wf e \<and> entry_ok (f_lib f) e \<and> kv \<in> set (rev_kvs (f_lib f) (f_byRevision f) e) \<longrightarrow>
        (in_range sel (fst kv) \<longleftrightarrow> lo < rev_int (fst e)))"

definition since :: "int64 \<Rightarrow> entry list \<Rightarrow> entry list" where
  "since lo h = filter (\<lambda>e. lo < rev_int (fst e)) h"

context fdb_driver
begin

lemma GetFromIterator_end:
  "ByRevision_GetFromIterator f [] = Ok (None, [])" "ByRevision_GetFromIterator f (Inl err # it) = Err err"
  by (simp_all add: ByRevision_GetFromIterator_def it_Advance_def)

lemma rev_kvs_length: "0 < length (rev_kvs L p e)"
  by (simp add: rev_kvs_def)

lemma iter_over_error: "iter_over f Q [Inl err] es"
  by (cases es) (simp_all add: GetFromIterator_end)

lemma iter_over_ok:
  assumes "\<forall>e\<in>set es. entry_wf e" "\<forall>e\<in>set es. Q e (by_revision_record (snd e))"
    and tail: "\<And>it. truncated z it \<Longrightarrow> iter_over f Q it zs" and "truncated (concat (map (rev_kvs L (f_byRevision f)) es) @ z) it"
  shows "iter_over f Q it (es @ zs)"
  using assms(1,2,4)
proof (induction es arbitrary: it)
  case Nil
  then show ?case using tail by simp
next
  case (Cons e es)
  let ?r = "rev_kvs L (f_byRevision f) e" and ?s = "concat (map (rev_kvs L (f_byRevision f)) es) @ z"
  have wf: "entry_wf e" using Cons.prems(1) by simp
  have whole: "iter_over f Q (map Inr ?r @ it') (e # es @ zs)" if "truncated ?s it'" for it'
    using ByRevision_GetFromIterator_rev_kvs [OF wf, of it'] Cons.IH [OF _ _ that] Cons.prems(1,2) rev_kvs_length [of "f_byRevision f" e]
    by (simp del: driver_simps(3))
  have split: "map Inr (take n (?r @ ?s)) @ [Inl err] = map Inr ?r @ map Inr (take (n - length ?r) ?s) @ [Inl err]"
    if "length ?r \<le> n" for n and err :: go_error using that by simp
  from Cons.prems(3) consider (all) "it = map Inr ?r @ map Inr ?s"
    | (long) n err where "it = map Inr ?r @ map Inr (take (n - length ?r) ?s) @ [Inl err]"
    | (short) n err where "it = map Inr (take n ?r) @ [Inl err]" "n < length ?r"
    unfolding truncated_def list.map concat.simps append_assoc
  proof (elim disjE exE)
    fix n err assume it: "it = map Inr (take n (?r @ ?s)) @ [Inl err]"
    show ?thesis
    proof (cases "length ?r \<le> n")
      case True
      show ?thesis by (rule long) (simp only: it split [OF True])
    next
      case False
      with it short show ?thesis by (simp del: driver_simps(3))
    qed
  qed (simp add: all)
  then show ?case
  proof cases
    case all
    with whole [of "map Inr ?s"] show ?thesis by (simp add: truncated_def)
  next
    case long
    with whole [of "map Inr (take (n - length ?r) ?s) @ [Inl err]"] show ?thesis unfolding truncated_def append_Cons by blast
  next
    case (short n err)
    have "length [Inl err] < length it \<or> n = 0" using short by (cases n) (simp_all del: driver_simps(3))
    moreover have "n = 0 \<Longrightarrow> ByRevision_GetFromIterator f it = Err err" using short by (simp add: GetFromIterator_end)
    moreover have "Q e (by_revision_record (snd e))" using Cons.prems(2) by simp
    ultimately show ?thesis
      using ByRevision_GetFromIterator_truncated [OF wf, of n err] iter_over_error [of Q err "es @ zs"]
      unfolding short(1) [symmetric] iter_over.simps append_Cons by blast
  qed
qed

lemma log_iter_ok:
  assumes "\<forall>e\<in>set es. entry_wf e" "truncated (concat (map (rev_kvs L (f_byRevision f)) es)) it"
  shows "log_iter f it es"
proof -
  have "log_iter f it []" if "truncated [] it" for it using that by (auto simp: truncated_def GetFromIterator_end)
  from iter_over_ok [OF assms(1) _ this, where it = it] assms(2) show ?thesis by simp
qed

lemma sel_range_log:
  assumes rep: "represents f m h" and "finite (dom m)" and rng: "log_range f sel lo"
  shows "sel_range m (fst sel) (snd sel) = concat (map (rev_kvs L (f_byRevision f)) (since lo h))"
  unfolding sel_range_def
proof (rule sorted_keys_range_list)
  let ?p = "f_byRevision f"
  have wf: "hist_wf h" and ok: "\<forall>e\<in>set h. entry_ok L e" and ag: "agree_on ?p m (concat (map (rev_kvs L ?p) h))"
    using rep by (simp_all add: represents_def del: driver_simps(3))
  show "sorted_wrt (<) (map fst (concat (map (rev_kvs L ?p) (since lo h))))"
    using wf by (intro history_kvs_sorted) (auto simp: since_def hist_wf_def hist_sorted_def sorted_wrt_filter)
  fix k x
  have m: "m k = map_of (concat (map (rev_kvs L ?p) h)) k" if "in_range sel k"
    using ag rng that by (simp add: log_range_def agree_on_def del: driver_simps(3))
  have iff: "in_range sel k \<longleftrightarrow> lo < rev_int (fst e)" if "e \<in> set h" "(k, x) \<in> set (rev_kvs L ?p e)" for e
    using rng that wf ok unfolding log_range_def hist_wf_def driver_simps(1) by (metis fst_conv)
  have "(k, x) \<in> set (concat (map (rev_kvs L ?p) (since lo h))) \<longleftrightarrow>
      (\<exists>e\<in>set h. (k, x) \<in> set (rev_kvs L ?p e) \<and> lo < rev_int (fst e))"
    unfolding since_def set_concat set_map set_filter by blast
  also have "\<dots> \<longleftrightarrow> (\<exists>e\<in>set h. (k, x) \<in> set (rev_kvs L ?p e)) \<and> in_range sel k" using iff by blast
  also have "\<dots> \<longleftrightarrow> m k = Some x \<and> in_range sel k" using m map_of_concat_rev_kvs [OF wf, of ?p k x] by auto
  finally show "(k, x) \<in> set (concat (map (rev_kvs L ?p) (since lo h))) \<longleftrightarrow> m k = Some x \<and> in_range sel k" .
qed fact

lemma log_iterator:
  assumes "db_holds f d h R" "reads L t d" "log_range f sel lo"
  shows "log_iter f (tr_GetRange L snap t (fst sel) (snd sel) \<lparr>ro_Limit = 0, ro_Mode = mode, ro_Reverse = False\<rparr>) (since lo h)"
proof (rule log_iter_ok)
  show "\<forall>e\<in>set (since lo h). entry_wf e" using db_holds_wf(2) [OF assms(1)] by (auto simp: since_def)
  have "represents f (tr_view L t) h" using assms(1,2) by (simp add: db_holds_def reads_def)
  from sel_range_log [OF this finite_view assms(3)] assms(2)
    range_sound [of t "\<lparr>ro_Limit = 0, ro_Mode = mode, ro_Reverse = False\<rparr>" "fst sel" "snd sel" snap]
  show "truncated (concat (map (rev_kvs L (f_byRevision f)) (since lo h)))
      (tr_GetRange L snap t (fst sel) (snd sel) \<lparr>ro_Limit = 0, ro_Mode = mode, ro_Reverse = False\<rparr>)"
    by (simp add: truncated_def reads_def limited_def Let_def del: driver_simps(3))
qed

section \<open>The ranges\<close>

lemma is_revision_int64:
  assumes "0 \<le> m" "m < 2 ^ 63"
  shows "is_revision (int64ToVersionstamp m)" "rev_int (int64ToVersionstamp m) = m"
proof -
  have "unat (word_of_int m :: 64 word) = nat m" using assms by (simp add: unat_eq_nat_uint uint_word_of_int)
  moreover have "be_nat (be_bytes 8 (nat m)) = nat m" using assms by (simp add: be_nat_be_bytes nat_less_iff)
  ultimately show "is_revision (int64ToVersionstamp m)" "rev_int (int64ToVersionstamp m) = m"
    using assms by (simp_all add: is_revision_def revision_stamp_def int64ToVersionstamp_def rev_int_def nat_less_iff)
qed

lemma afterKey_eq: "afterKey f v = f_byRevision f @ tuple_Pack L [TVersionstamp v, TInt maxInt64]"
  by (simp add: afterKey_def spack_eq del: driver_simps(3))

lemma same_revision_before:
  assumes "entry_wf e" "entry_ok L e" "kv \<in> set (rev_kvs L p e)"
  shows "fst kv < p @ tuple_Pack L [TVersionstamp (fst e), TInt maxInt64]"
proof -
  let ?v = "TVersionstamp (fst e)"
  have ok: "tuple_ok [?v]" "elem_ok (TInt maxInt64)" using assms(1) by (auto simp: entry_wf_def maxInt64_def)
  have len: "length (r_Value (snd e)) < 2 ^ 62" using assms(2) by (simp add: entry_ok_def)
  from assms(3) consider "fst kv = p @ tuple_Pack L [?v]" | "kv \<in> set (chunk_kvs L p [?v] (r_Value (snd e)))"
    by (auto simp: rev_kvs_def)
  then show ?thesis
  proof cases
    case 1
    with pack_extend_less [OF ok, of p] show ?thesis by simp
  next
    case 2
    then obtain off b where c: "(off, b) \<in> set (chunks_from chunkSize 0 (r_Value (snd e)))"
      "fst kv = p @ tuple_Pack L ([?v] @ [TInt (int off)])" by (auto simp: chunk_kvs_def)
    have "off < length (r_Value (snd e))" using chunks_offsets_bound [OF c(1)] by simp
    with len have "off < 2 ^ 62" by simp
    then have "int off < 2 ^ 62" by (metis of_nat_less_iff of_nat_numeral of_nat_power)
    then have "int off < maxInt64 \<and> elem_ok (TInt (int off))" by (simp add: maxInt64_def)
    with pack_snoc_less [OF ok(1) _ ok(2), of "TInt (int off)" p] c(2) show ?thesis by simp
  qed
qed

lemma afterKey_less_iff:
  assumes "entry_wf e" "entry_ok L e" "kv \<in> set (rev_kvs L (f_byRevision f) e)" "is_revision v"
  shows "afterKey f v < fst kv \<longleftrightarrow> rev_int v < rev_int (fst e)"
proof -
  let ?p = "f_byRevision f"
  from rev_kvs_keys [OF assms(1,3)] obtain s where s: "tuple_ok s" "fst kv = ?p @ tuple_Pack L (TVersionstamp (fst e) # s)" by blast
  have ok: "elem_ok (TVersionstamp (fst e))" "elem_ok (TVersionstamp v)" "elem_ok (TInt maxInt64)"
    using assms(1) is_revision_elem_ok [OF assms(4)] by (auto simp: entry_wf_def maxInt64_def)
  have rev: "is_revision (fst e)" using assms(2) by (simp add: entry_ok_def)
  consider "vs_key v < vs_key (fst e)" | "vs_key (fst e) < vs_key v" | "vs_key v = vs_key (fst e)" by (rule linorder_cases)
  then show ?thesis
  proof cases
    case 1
    then have "?p @ tuple_Pack L [TVersionstamp v, TInt maxInt64] < fst kv"
      unfolding s(2) by (intro pack_head_less) (use ok s in auto)
    with 1 rev_int_less_iff [OF assms(4) rev] show ?thesis by (simp only: afterKey_eq)
  next
    case 2
    then have "fst kv < ?p @ tuple_Pack L [TVersionstamp v, TInt maxInt64]"
      unfolding s(2) by (intro pack_head_less) (use ok s in auto)
    with 2 rev_int_less_iff [OF rev assms(4)] show ?thesis unfolding afterKey_eq by (meson less_asym)
  next
    case 3
    then have "v = fst e" using ok by (intro vs_key_inj) simp_all
    with same_revision_before [OF assms(1-3)] show ?thesis unfolding afterKey_eq by (simp add: less_le_not_le)
  qed
qed

lemma log_keys:
  assumes "entry_wf e" "kv \<in> set (rev_kvs L p e)"
  shows "prefix p (fst kv)" "p @ [0] \<le> fst kv" "fst kv < p @ [255]"
proof -
  from rev_kvs_keys [OF assms] obtain s where s: "tuple_ok s" "fst kv = p @ tuple_Pack L (TVersionstamp (fst e) # s)" by blast
  then show "prefix p (fst kv)" by simp
  have ok: "elem_ok (TVersionstamp (fst e))" using assms(1) by (simp add: entry_wf_def)
  from pack_head [OF this] obtain c r where "tuple_Pack L [TVersionstamp (fst e)] = c # r" "c < 255" by blast
  moreover have "tuple_Pack L (TVersionstamp (fst e) # s) = tuple_Pack L [TVersionstamp (fst e)] @ tuple_Pack L s"
    by (rule pack_Cons) (use ok s in auto)
  moreover have "0 = c \<or> 0 < c" using word_gt_0 by metis
  ultimately show "p @ [0] \<le> fst kv" "fst kv < p @ [255]" using s(2) by auto
qed

lemma log_range_all: "log_range f (FirstGreaterOrEqual (f_byRevision f @ [0]), FirstGreaterOrEqual (f_byRevision f @ [255])) (- 1)"
proof -
  have "prefix (f_byRevision f) k" if "f_byRevision f @ [0] \<le> k" "k < f_byRevision f @ [255]" for k
    by (rule prefix_convex [OF _ _ that(1), of _ "f_byRevision f @ [255]"]) (use that in auto)
  moreover have "- 1 < rev_int (fst e)" if "entry_ok L e" for e
    using that revision_int64(2) [of "fst e"] by (simp add: entry_ok_def)
  ultimately show ?thesis using log_keys(2,3) by (auto simp: log_range_def simp del: driver_simps(3))
qed

lemma log_range_after:
  assumes "is_revision v" "stop = FirstGreaterOrEqual (f_byRevision f @ [255])"
  shows "log_range f (FirstGreaterThan (afterKey f v), stop) (rev_int v)"
proof -
  have "prefix (f_byRevision f) k" if "afterKey f v < k" "k < f_byRevision f @ [255]" for k
    by (rule prefix_convex [of _ "afterKey f v" "f_byRevision f @ [255]"]) (use that in \<open>auto simp: afterKey_eq\<close>)
  then show ?thesis
    using afterKey_less_iff [OF _ _ _ assms(1)] log_keys(3) assms(2) by (auto simp: log_range_def simp del: driver_simps(3))
qed

end

section \<open>Positions\<close>

text \<open>Where a reader stands that started after \<open>lo\<close> and took \<open>out\<close>.\<close>

definition position :: "int64 \<Rightarrow> entry list \<Rightarrow> int64" where
  "position lo out = (if out = [] then lo else rev_int (fst (last out)))"

definition log_inv ::
    "('d, 't) FDB \<Rightarrow> (entry list \<Rightarrow> 's \<Rightarrow> entry list \<Rightarrow> bool) \<Rightarrow> (entry list \<Rightarrow> bool) \<Rightarrow> int64 \<Rightarrow> entry list \<Rightarrow> int64 \<Rightarrow> int64
     \<Rightarrow> selector \<times> selector \<Rightarrow> 'd \<Rightarrow> 's \<Rightarrow> bool" where
  "log_inv f per wants V h lo R sel d s \<longleftrightarrow>
     (\<exists>H out rest. db_holds f d H R \<and> V \<le> db_version (f_lib f) d \<and> extends V h H \<and> per H s out \<and> wants out \<and>
        since lo H = out @ rest \<and> log_range f sel (position lo out))"

text \<open>What a batch leaves: \<open>n\<close> is the version it read.\<close>

definition log_read ::
    "('d, 't) FDB \<Rightarrow> (int64 \<Rightarrow> int64 \<Rightarrow> entry list \<Rightarrow> 's \<Rightarrow> entry list \<Rightarrow> entry list \<Rightarrow> bool) \<Rightarrow> (entry list \<Rightarrow> bool) \<Rightarrow> ('s \<Rightarrow> entry \<Rightarrow> bool)
     \<Rightarrow> int64 \<Rightarrow> entry list \<Rightarrow> int64 \<Rightarrow> int64 \<Rightarrow> batchResult \<Rightarrow> 'd \<Rightarrow> 's \<Rightarrow> bool" where
  "log_read f fin wants beyond V h lo R res d s \<longleftrightarrow>
     (\<exists>H n. db_holds f d H R \<and> n \<le> db_version (f_lib f) d \<and>
        (V \<le> n \<and> (\<forall>e\<in>set H. rev_int (fst e) \<le> n) \<and> extends V h H \<and>
         (\<exists>out es rest. since lo H = (out @ es) @ rest \<and> fin R n H s out es \<and> wants out \<and>
           (if br_collectorNeedsMore res
            then es \<noteq> [] \<and> br_lastReadKey res = Some (afterKey f (fst (last es))) \<and> wants (out @ es)
            else rest = [] \<or> \<not> wants (out @ es) \<or> beyond s (hd rest) \<and> (\<forall>e\<in>set rest. V < rev_int (fst e))))))"

lemma since_append: "since lo (h @ h') = since lo h @ since lo h'"
  by (simp add: since_def)

context fdb_driver
begin

lemma db_holds_sorted: "db_holds f d h R \<Longrightarrow> sorted_wrt (\<lambda>e e'. rev_int (fst e) < rev_int (fst e')) h"
proof -
  assume h: "db_holds f d h R"
  then have "sorted_wrt (\<lambda>e e'. vs_key (fst e) < vs_key (fst e')) h" using db_holds_wf(1) by (auto simp: hist_wf_def hist_sorted_def)
  then show ?thesis by (rule sorted_wrt_mono_rel [rotated]) (use h db_holds_wf(4) rev_int_less_iff in blast)
qed

lemma commit_holds:
  assumes "reads L t d" "db_holds f d H R"
  shows "db_holds f (tr_Commit L st t) H R"
  using assms(2) commit_read_only [OF assms(1), of st] by (auto simp: db_holds_def intro: order_trans)

lemma since_position:
  assumes "db_holds f d H R" "since lo H = out @ rest"
  shows "since (position lo out) H = rest"
proof (cases out rule: rev_cases)
  case Nil
  with assms(2) show ?thesis by (simp add: position_def)
next
  case (snoc ys x)
  let ?x = "rev_int (fst x)"
  have "sorted_wrt (\<lambda>e e'. rev_int (fst e) < rev_int (fst e')) (ys @ x # rest)"
    using sorted_wrt_filter [OF db_holds_sorted [OF assms(1)], of "\<lambda>e. lo < rev_int (fst e)"] assms(2) snoc by (simp add: since_def)
  then have srt: "\<forall>e\<in>set ys. rev_int (fst e) < ?x" "\<forall>e\<in>set rest. ?x < rev_int (fst e)" by (auto simp: sorted_wrt_append)
  have "x \<in> set (since lo H)" using assms(2) snoc by simp
  then have "lo < ?x" by (simp add: since_def)
  then have "since ?x H = since ?x (since lo H)" by (auto simp: since_def intro!: filter_cong)
  also have "\<dots> = rest" unfolding assms(2) snoc using srt by (auto simp: since_def filter_empty_conv dest: less_asym)
  finally show ?thesis using snoc by (simp add: position_def)
qed

end

section \<open>The contract of a reader\<close>

text \<open>
  \<open>per H s out\<close>: the batches before took the entries \<open>out\<close>; the history is \<open>H\<close>. \<open>col H s out es\<close>: and this one \<open>es\<close>. \<open>fin R n H s out
  es\<close>: and it is settled, at version \<open>n\<close> and watermark \<open>R\<close>. The reader stops when it has what it wants (\<open>more\<close>) and before an entry
  that is cut off, which only one after the version \<open>V\<close> of the beginning may be.
\<close>

locale log_reader = fdb_driver L cfg dir f
    for L :: "('d, 't) fdb_lib" and cfg :: config and dir :: bytes and f :: "('d, 't) FDB" +
  fixes P :: "('t, iter, 's) Processor"
    and per :: "entry list \<Rightarrow> 's \<Rightarrow> entry list \<Rightarrow> bool"
    and col :: "entry list \<Rightarrow> 's \<Rightarrow> entry list \<Rightarrow> entry list \<Rightarrow> bool"
    and fin :: "int64 \<Rightarrow> int64 \<Rightarrow> entry list \<Rightarrow> 's \<Rightarrow> entry list \<Rightarrow> entry list \<Rightarrow> bool"
    and more :: "entry list \<Rightarrow> bool"
    and beyond :: "'s \<Rightarrow> entry \<Rightarrow> bool"
    and V :: int64
    and h :: "entry list"
  assumes log_grow: "per H s out \<Longrightarrow> per (H @ H') s out"
    and log_start: "per H s out \<Longrightarrow> col H (p_startBatch P s) out []"
    and log_next: "col H s out es \<Longrightarrow> db_holds f d H R \<Longrightarrow> reads L t d \<Longrightarrow> extends V h H \<Longrightarrow> e \<in> set H \<Longrightarrow>
      ByRevision_GetFromIterator f it = Ok (Some (fst e, by_revision_record (snd e)), it') \<Longrightarrow> p_next P t it s = (r, s') \<Longrightarrow>
      if beyond s e then r = Ok (Some (afterKey f (fst e)), False, t, it') \<and> s' = s
      else (\<exists>err. r = Err err) \<and> per H s' out \<or>
        r = Ok (Some (afterKey f (fst e)), more (out @ es @ [e]), t, it') \<and> col H s' out (es @ [e])"
    and log_none: "ByRevision_GetFromIterator f it = Ok (None, it') \<Longrightarrow> p_next P t it s = (Ok (None, False, t, it'), s)"
    and log_fail: "ByRevision_GetFromIterator f it = Err err \<Longrightarrow> p_next P t it s = (Err err, s)"
    and log_cut: "col H s out es \<Longrightarrow> beyond s e \<Longrightarrow> V < rev_int (fst e)"
    and log_end: "col H s out es \<Longrightarrow> db_holds f d H R \<Longrightarrow> reads L t d \<Longrightarrow> V \<le> db_version L d \<Longrightarrow>
      p_endBatch P t isLast s = (re, s') \<Longrightarrow> (\<exists>err. re = Err err) \<and> per H s' out \<or> re = Ok t \<and> fin R (db_version L d) H s' out es"
    and log_kept: "col H s out es \<Longrightarrow> per H s out" "fin R n H s out es \<Longrightarrow> per H s out"
      "p_endBatch P t isLast s = (Ok t', s') \<Longrightarrow> beyond s e \<Longrightarrow> beyond s' e"
    and log_post: "fin R n H s out es \<Longrightarrow> es \<noteq> [] \<Longrightarrow> per H (p_postBatch P s) (out @ es)"
begin

lemma log_loop:
  assumes "log_iter f it es2" "col H s out es" "db_holds f d H R" "reads L t d" "extends V h H" "set es2 \<subseteq> set H" "more (out @ es)"
    and "sorted_wrt (\<lambda>e e'. rev_int (fst e) < rev_int (fst e')) es2" "processBatch_loop P slow i t it s = (r, s')"
  shows "(\<exists>err. r = Err err) \<and> per H s' out \<or>
    (\<exists>res es1 rest. r = Ok (res, t) \<and> es2 = es1 @ rest \<and> col H s' out (es @ es1) \<and>
       (if br_collectorNeedsMore res
        then es1 \<noteq> [] \<and> br_lastReadKey res = Some (afterKey f (fst (last es1))) \<and> more (out @ es @ es1)
        else rest = [] \<or> \<not> more (out @ es @ es1) \<or> beyond s' (hd rest) \<and> (\<forall>e\<in>set rest. V < rev_int (fst e))))"
  using assms
proof (induction es2 arbitrary: it s i es)
  case Nil
  then consider it' where "p_next P t it s = (Ok (None, False, t, it'), s)" | err where "p_next P t it s = (Err err, s)"
    using log_none log_fail by auto
  then show ?case
  proof cases
    case 1
    with Nil have "r = Ok (\<lparr>br_lastReadKey = None, br_collectorNeedsMore = False\<rparr>, t)" "s' = s"
      by (auto simp: processBatch_loop.simps [of P slow i t it s])
    with Nil(2) show ?thesis by (intro disjI2 exI [of _ "[]"] exI conjI) auto
  next
    case 2
    with Nil log_kept(1) [OF Nil(2)] show ?thesis by (auto simp: processBatch_loop.simps [of P slow i t it s])
  qed
next
  case (Cons e es2)
  from Cons.prems(1) consider (fail) err where "ByRevision_GetFromIterator f it = Err err"
    | (get) it' where "ByRevision_GetFromIterator f it = Ok (Some (fst e, by_revision_record (snd e)), it')"
        "length it' < length it" "log_iter f it' es2" by auto
  then show ?case
  proof cases
    case fail
    with Cons.prems(9) log_fail log_kept(1) [OF Cons.prems(2)] show ?thesis
      by (auto simp: processBatch_loop.simps [of P slow i t it s])
  next
    case get
    obtain r1 s1 where nx: "p_next P t it s = (r1, s1)" by fastforce
    have e: "e \<in> set H" using Cons.prems(6) by simp
    note step = log_next [OF Cons.prems(2-5) e get(1) nx]
    have loop: "(r, s') = (case r1 of Err er \<Rightarrow> (Err er, s1) | Panic q \<Rightarrow> (Panic q, s1)
      | Ok (lastKey, needsMore, t1, it1) \<Rightarrow>
          let res = \<lparr>br_lastReadKey = lastKey, br_collectorNeedsMore = needsMore \<and> lastKey \<noteq> None\<rparr>
          in if slow i \<or> \<not> br_collectorNeedsMore res then (Ok (res, t1), s1)
             else if length it1 < length it then processBatch_loop P slow (Suc i) t1 it1 s1
             else (Panic (RuntimePanic ''processBatch spins''), s1))"
      using Cons.prems(9) nx by (simp add: processBatch_loop.simps [of P slow i t it s] split: res.splits)
    show ?thesis
    proof (cases "beyond s e")
      case True
      with step have r1: "r1 = Ok (Some (afterKey f (fst e)), False, t, it')" "s1 = s" by simp_all
      from loop r1 have "r = Ok (\<lparr>br_lastReadKey = Some (afterKey f (fst e)), br_collectorNeedsMore = False\<rparr>, t)" "s' = s" by simp_all
      moreover have "\<forall>e'\<in>set (e # es2). V < rev_int (fst e')" "beyond s (hd (e # es2))"
        using log_cut [OF Cons.prems(2) True] Cons.prems(8) True by fastforce+
      ultimately show ?thesis using Cons.prems(2) by (intro disjI2 exI [of _ "[]"] exI conjI) auto
    next
      case False
      with step consider (err) err where "r1 = Err err" "per H s1 out"
        | (ok) "r1 = Ok (Some (afterKey f (fst e)), more (out @ es @ [e]), t, it')" "col H s1 out (es @ [e])" by auto
      then show ?thesis
      proof cases
        case err
        with loop show ?thesis by simp
      next
        case ok
        show ?thesis
        proof (cases "slow i \<or> \<not> more (out @ es @ [e])")
          case True
          with loop ok have "r = Ok (\<lparr>br_lastReadKey = Some (afterKey f (fst e)), br_collectorNeedsMore = more (out @ es @ [e])\<rparr>, t)" "s' = s1"
            by auto
          with ok(2) show ?thesis by (intro disjI2 exI [of _ "[e]"] exI conjI) auto
        next
          case False
          with loop ok get(2) have l: "processBatch_loop P slow (Suc i) t it' s1 = (r, s')" by simp
          have "more (out @ es @ [e])" using False by blast
          from Cons.IH [OF get(3) ok(2) Cons.prems(3-5) _ _ _ l] this Cons.prems(6,8) consider
              err where "r = Err err" "per H s' out"
            | res es1 rest where "r = Ok (res, t)" "es2 = es1 @ rest" "col H s' out ((es @ [e]) @ es1)"
                "if br_collectorNeedsMore res
                 then es1 \<noteq> [] \<and> br_lastReadKey res = Some (afterKey f (fst (last es1))) \<and> more (out @ (es @ [e]) @ es1)
                 else rest = [] \<or> \<not> more (out @ (es @ [e]) @ es1) \<or> beyond s' (hd rest) \<and> (\<forall>e\<in>set rest. V < rev_int (fst e))" by auto
          then show ?thesis
          proof cases
            case 1
            then show ?thesis by blast
          next
            case 2
            then show ?thesis by (intro disjI2 exI [of _ res] exI [of _ "e # es1"] exI [of _ rest] conjI) (auto split: if_splits)
          qed
        qed
      qed
    qed
  qed
qed

lemma log_inv_env:
  assumes "appending f a" "log_inv f per more V h lo R sel d s"
  shows "log_inv f per more V h lo R sel (at_before a d) s"
proof -
  from assms(2) obtain H out rest where i: "db_holds f d H R" "V \<le> db_version L d" "extends V h H" "per H s out" "more out"
      "since lo H = out @ rest" "log_range f sel (position lo out)"
    unfolding log_inv_def driver_simps(1) by blast
  from assms(1) i(1) obtain H' where H': "db_holds f (at_before a d) (H @ H') R" "db_version L d \<le> db_version L (at_before a d)"
      "\<forall>e\<in>set H'. db_version L d < rev_int (fst e)"
    unfolding appending_def driver_simps(1) by blast
  have "since lo (H @ H') = out @ rest @ since lo H'" using i(6) by (simp add: since_append)
  moreover have "V \<le> db_version L (at_before a d)" "extends V h (H @ H')" using H'(2) i(2) extends_append [OF i(3,2) H'(3)] by auto
  ultimately show ?thesis using H'(1) i(5,7) log_grow [OF i(4), of H'] unfolding log_inv_def driver_simps(1) by blast
qed

lemma log_batch:
  assumes "db_holds f d H R" "V \<le> db_version L d" "extends V h H" "per H s out" "more out" "since lo H = out @ rest"
    and "log_range f sel (position lo out)" "reads L t d" "processBatch_body f P sel a t s = (r, s')"
  shows "per H s' out \<and> ((\<exists>err. r = Err err) \<or>
    (\<exists>res. r = Ok (res, t) \<and> log_read f fin more beyond V h lo R res d s'))"
proof -
  let ?it = "tr_GetRange L (p_snapshotReads P) t (fst sel) (snd sel) \<lparr>ro_Limit = 0, ro_Mode = p_streamingMode P, ro_Reverse = False\<rparr>"
  have rest: "since (position lo out) H = rest" by (rule since_position [OF assms(1,6)])
  have it: "log_iter f ?it rest" using log_iterator [OF assms(1,8,7)] rest by simp
  have sub: "set rest \<subseteq> set H" "sorted_wrt (\<lambda>e e'. rev_int (fst e) < rev_int (fst e')) rest"
    using db_holds_sorted [OF assms(1)] by (auto simp: rest [symmetric] since_def intro: sorted_wrt_filter)
  obtain r1 s1 where loop: "processBatch_loop P (at_slow a) 0 t ?it (p_startBatch P s) = (r1, s1)" by fastforce
  have "more (out @ [])" using assms(5) by simp
  from log_loop [OF it log_start [OF assms(4)] assms(1,8,3) sub(1) this sub(2) loop, unfolded append_Nil] consider
      (err) err where "r1 = Err err" "per H s1 out"
    | (ok) res es rest' where "r1 = Ok (res, t)" "rest = es @ rest'" "col H s1 out es"
        "if br_collectorNeedsMore res then es \<noteq> [] \<and> br_lastReadKey res = Some (afterKey f (fst (last es))) \<and> more (out @ es)
         else rest' = [] \<or> \<not> more (out @ es) \<or> beyond s1 (hd rest') \<and> (\<forall>e\<in>set rest'. V < rev_int (fst e))" by blast
  then show ?thesis
  proof cases
    case err
    with loop assms(9) have "(r, s') = (Err err, s1)" by (simp add: processBatch_body_def Let_def)
    with err show ?thesis by simp
  next
    case ok
    obtain r2 s2 where e: "p_endBatch P t (\<not> br_collectorNeedsMore res) s1 = (r2, s2)" by fastforce
    have r: "(r, s') = (map_res (\<lambda>t2. (res, t2)) r2, s2)"
      using loop assms(9) ok(1) e by (cases r2) (simp_all add: processBatch_body_def Let_def)
    from log_end [OF ok(3) assms(1,8,2) e] show ?thesis
    proof (elim disjE conjE exE)
      fix err assume "r2 = Err err" "per H s2 out"
      with r show ?thesis by simp
    next
      assume s2: "r2 = Ok t" "fin R (db_version L d) H s2 out es"
      have "\<forall>e\<in>set H. rev_int (fst e) \<le> db_version L d" using assms(1) by (simp add: db_holds_def)
      moreover have "since lo H = (out @ es) @ rest'" using ok(2) assms(6) by simp
      moreover have "beyond s2 (hd rest')" if "beyond s1 (hd rest')" using log_kept(3) e s2(1) that by blast
      then have "if br_collectorNeedsMore res then es \<noteq> [] \<and> br_lastReadKey res = Some (afterKey f (fst (last es))) \<and> more (out @ es)
         else rest' = [] \<or> \<not> more (out @ es) \<or> beyond s2 (hd rest') \<and> (\<forall>e\<in>set rest'. V < rev_int (fst e))"
        using ok(4) by (cases "br_collectorNeedsMore res") auto
      ultimately have "log_read f fin more beyond V h lo R res d s2"
        using s2(2) assms(1-3,5) unfolding log_read_def driver_simps(1) using order_refl [of "db_version L d"] by blast
      with r s2 log_kept(2) show ?thesis by auto
    qed
  qed
qed

lemma log_attempt:
  assumes "appending f a"
  shows "attempt_ok L (log_inv f per more V h lo R sel) (\<lambda>res _. log_read f fin more beyond V h lo R res) (processBatch_body f P sel) a"
  unfolding attempt_ok_def
proof (intro conjI allI impI)
  fix d s assume "log_inv f per more V h lo R sel d s"
  then show "log_inv f per more V h lo R sel (at_before a d) s" by (rule log_inv_env [OF assms])
next
  fix d s t r s'
  assume *: "log_inv f per more V h lo R sel d s \<and> reads L t d \<and> processBatch_body f P sel a t s = (r, s')"
  then obtain H out rest where i: "db_holds f d H R" "V \<le> db_version L d" "extends V h H" "per H s out" "more out"
      "since lo H = out @ rest" "log_range f sel (position lo out)"
    unfolding log_inv_def driver_simps(1) by blast
  from * have rd: "reads L t d" and body: "processBatch_body f P sel a t s = (r, s')" by blast+
  note b = log_batch [OF i rd body]
  note c = commit_read_only [OF rd, of "at_stamp a"]
  note keep = commit_holds [OF rd, of _ R "at_stamp a"]
  show "log_inv f per more V h lo R sel d s'" using i b unfolding log_inv_def driver_simps(1) by blast
  have inv: "log_inv f per more V h lo R sel (tr_Commit L (at_stamp a) t) s'"
    using i(2) b c(2) keep [OF i(1)] i(3,5-7) unfolding log_inv_def driver_simps(1) by (meson order_trans)
  have read: "log_read f fin more beyond V h lo R res (tr_Commit L (at_stamp a) t) s'" if "log_read f fin more beyond V h lo R res d s'" for res
    using that keep order_trans [OF _ c(2)] unfolding log_read_def driver_simps(1) by (elim exE conjE) metis
  from b inv read show "(\<exists>e. r = Err e) \<or> (\<exists>x t'. r = Ok (x, t') \<and> log_inv f per more V h lo R sel (tr_Commit L (at_stamp a) t') s' \<and>
      log_read f fin more beyond V h lo R x (tr_Commit L (at_stamp a) t') s')" by blast
qed

lemma log_inv_start:
  assumes "db_holds f d h R" "V \<le> db_version L d" "per h s []" "more []" "log_range f sel lo"
  shows "log_inv f per more V h lo R sel d s"
  using assms extends_refl [of V h] unfolding log_inv_def driver_simps(1)
  by (intro exI [of _ h] exI [of _ "[]"] exI [of _ "since lo h"]) (simp add: position_def)

lemma log_inv_next:
  assumes "log_read f fin more beyond V h lo R res d s" "br_collectorNeedsMore res" "stop = FirstGreaterOrEqual (f_byRevision f @ [255])"
  shows "\<exists>k. br_lastReadKey res = Some k \<and> log_inv f per more V h lo R (FirstGreaterThan k, stop) d (p_postBatch P s)"
proof -
  from assms(1,2) obtain H n out es rest where i: "db_holds f d H R" "n \<le> db_version L d" "V \<le> n" "extends V h H"
      "since lo H = (out @ es) @ rest" "fin R n H s out es" "es \<noteq> []" "br_lastReadKey res = Some (afterKey f (fst (last es)))"
      "more (out @ es)"
    unfolding log_read_def driver_simps(1) by auto
  have "last es \<in> set (since lo H)" using i(5,7) by simp
  then have "is_revision (fst (last es))" using db_holds_wf(4) [OF i(1)] by (simp add: since_def)
  from log_range_after [OF this assms(3)] i(7)
  have "log_range f (FirstGreaterThan (afterKey f (fst (last es))), stop) (position lo (out @ es))" by (simp add: position_def)
  with i log_post [OF i(6,7)] order_trans [OF i(3,2)] show ?thesis unfolding log_inv_def driver_simps(1) by blast
qed

text \<open>A read of a range of the log.\<close>

theorem log_range_read:
  assumes "\<forall>script\<in>set scripts. \<forall>a\<in>set script. appending f a" "db_holds f d h R" "V \<le> db_version L d" "per h s []" "more []"
    and "log_range f sel lo" "snd sel = FirstGreaterOrEqual (f_byRevision f @ [255])"
    and "processRange f P sel scripts d s = Some (r, st, d', s')"
  shows "(\<exists>e. r = Err e) \<and> moved f V h R d' \<or>
    r = Ok () \<and> (\<exists>res s1. s' = p_postBatch P s1 \<and> log_read f fin more beyond V h lo R res d' s1 \<and> \<not> br_collectorNeedsMore res)"
proof -
  let ?Inv = "log_inv f per more V h lo R" and ?Post = "log_read f fin more beyond V h lo R"
  have "(\<exists>e sel1 s1. r = Err e \<and> s' = p_postBatch P s1 \<and> ?Inv sel1 d' s1) \<or>
      (\<exists>(sel1 :: selector \<times> selector) res s1. r = Ok () \<and> s' = p_postBatch P s1 \<and> snd sel1 = snd sel \<and> ?Post res d' s1 \<and>
        \<not> br_collectorNeedsMore res)"
  proof (rule processRange_keeps [where Inv = ?Inv and Post = "\<lambda>_ res _. ?Post res" and scripts = scripts, OF _ _ _ refl assms(8)])
    show "?Inv sel d s" by (rule log_inv_start [OF assms(2-6)])
    show "attempt_ok L (?Inv sel1) (\<lambda>res _. ?Post res) (processBatch_body f P sel1) a"
      if "script \<in> set scripts" "a \<in> set script" for sel1 script a
      using assms(1) that by (intro log_attempt) auto
    show "\<exists>k. br_lastReadKey res = Some k \<and> ?Inv (FirstGreaterThan k, snd sel) d (p_postBatch P s)"
      if "?Post res d s" "br_collectorNeedsMore res" for res d s
      by (rule log_inv_next [OF that assms(7)])
  qed
  moreover have "moved f V h R d'" if "?Inv sel1 d' s1" for sel1 s1 using that unfolding log_inv_def moved_def by blast
  ultimately show ?thesis by blast
qed

text \<open>A read of one batch.\<close>

theorem log_batch_read:
  assumes "\<forall>a\<in>set script. appending f a" "db_holds f d h R" "V \<le> db_version L d" "per h s []" "more []"
    and "log_range f sel lo" "processBatch f P sel script d s = Some (r, st, d', s')"
  shows "(\<exists>e s1. r = Err e \<and> s' = p_postBatch P s1 \<and> log_inv f per more V h lo R sel d' s1) \<or>
    (\<exists>res s1. r = Ok res \<and> s' = p_postBatch P s1 \<and> log_read f fin more beyond V h lo R res d' s1)"
proof -
  have "\<forall>a\<in>set script. attempt_ok L (log_inv f per more V h lo R sel) (\<lambda>res _. log_read f fin more beyond V h lo R res) (processBatch_body f P sel) a"
    using assms(1) log_attempt by blast
  from this log_inv_start [OF assms(2-6)] assms(7) show ?thesis
    by (cases rule: processBatch_keeps [case_names err ok]) blast+
qed

end

end
