(* ===== verification/FDB_Events.thy ===== *)
theory FDB_Events
  imports FDB_Log
begin

text \<open>
  The readers of the log: \<^verbatim>\<open>walCollector\<close> and \<^verbatim>\<open>afterCollector\<close> as instances of \<open>log_reader\<close>, and what \<^verbatim>\<open>ReadWAL\<close>, \<^verbatim>\<open>afterAll\<close>, \<^verbatim>\<open>afterBatch\<close>, the
  poll loop and \<^verbatim>\<open>Watch\<close> deliver.
\<close>

section \<open>The whole log\<close>

definition wal_record :: "entry \<Rightarrow> RevRecord" where
  "wal_record e = \<lparr>rr_Rev = fst e, rr_Record = by_revision_record (snd e)\<rparr>"

definition wal_per :: "entry list \<Rightarrow> walCollector \<Rightarrow> entry list \<Rightarrow> bool" where
  "wal_per H c out \<longleftrightarrow> wc_records c = map wal_record out"

definition wal_col :: "entry list \<Rightarrow> walCollector \<Rightarrow> entry list \<Rightarrow> entry list \<Rightarrow> bool" where
  "wal_col H c out es \<longleftrightarrow> wal_per H c out \<and> wc_batchEvents c = map wal_record es"

sublocale fdb_driver \<subseteq> wal: log_reader L cfg dir f "walProcessor f" wal_per wal_col "\<lambda>_ _. wal_col" "\<lambda>_. True" "\<lambda>_ _. False" V h for V h
proof (unfold_locales, goal_cases)
  case (3 H s out es d R t e it it' r s')
  then show ?case by (auto simp: wal_col_def wal_per_def walProcessor_def walCollector_next_def wal_record_def)
next
  case (7 H s out es d R t isLast re s')
  then show ?case by (simp add: walProcessor_def walCollector_endBatch_def)
qed (simp_all add: wal_col_def wal_per_def walProcessor_def walCollector_startBatch_def walCollector_next_def walCollector_postBatch_def)

lemma since_all: "\<forall>e\<in>set h. 0 \<le> rev_int (fst e) \<Longrightarrow> since (- 1) h = h"
  unfolding since_def by (rule filter_True) force

context fdb_driver
begin

lemma ReadWAL_result:
  assumes "\<forall>script\<in>set scripts. \<forall>a\<in>set script. appending f a" "db_holds f (d_db s) h R"
    and "ReadWAL f scripts s = Some (r, s')"
  shows "s' = s\<lparr>d_db := d_db s'\<rparr> \<and>
    ((\<exists>e. r = Err e) \<or> (\<exists>H. prefix h H \<and> db_holds f (d_db s') H R \<and> r = Ok (map wal_record H)))"
proof -
  let ?sel = "(FirstGreaterOrEqual (f_byRevision f @ [0]), FirstGreaterOrEqual (f_byRevision f @ [255]))"
  from assms(3) obtain r0 st d' c where run: "processRange f (walProcessor f) ?sel scripts (d_db s) newWalCollector = Some (r0, st, d', c)"
    and s': "s' = s\<lparr>d_db := d'\<rparr>" "r = map_res (\<lambda>_. wc_records c) r0"
    by (auto simp: ReadWAL_def range_keys_eq simp del: driver_simps(3))
  have "wal_per h newWalCollector []" by (simp add: wal_per_def newWalCollector_def)
  from wal.log_range_read [OF assms(1,2) order_refl this TrueI log_range_all snd_conv run] show ?thesis
  proof (elim disjE conjE exE)
    fix res c1 assume r0: "r0 = Ok ()" and c: "c = p_postBatch (walProcessor f) c1" and "\<not> br_collectorNeedsMore res"
      "log_read f (\<lambda>_ _. wal_col) (\<lambda>_. True) (\<lambda>_ _. False) (db_version L (d_db s)) h (- 1) R res d' c1"
    then obtain H out es where i: "db_holds f d' H R" "prefix h H" "since (- 1) H = out @ es" "wal_col H c1 out es"
      unfolding log_read_def using extends_prefix by auto
    have "since (- 1) H = H" using db_holds_wf(4) [OF i(1)] revision_int64(2) by (intro since_all) blast
    with i c r0 s' show ?thesis
      by (auto simp: wal_col_def wal_per_def walProcessor_def walCollector_postBatch_def)
  qed (use s' in auto)
qed

end

section \<open>Events after a revision\<close>

text \<open>
  The event of an entry: it comes with the state of the key before, if the previous entry is still in the
  log when it is read; \<open>h\<close> is the history at the beginning, \<open>H\<close> the one now.
\<close>

definition shows_event :: "('d, 't) FDB \<Rightarrow> entry list \<Rightarrow> entry list \<Rightarrow> entry \<Rightarrow> Event \<Rightarrow> bool" where
  "shows_event f h H e ev \<longleftrightarrow>
     (\<exists>prev. ev = (entry_event f e)\<lparr>ev_PrevKV := prev\<rparr> \<and>
        (case prev of
           None \<Rightarrow> \<forall>p\<in>set h. fst p \<noteq> r_PrevRevision (snd e)
         | Some kv \<Rightarrow> \<exists>p\<in>set H. fst p = r_PrevRevision (snd e) \<and> kv = entry_kv f p))"

lemma shows_event_grow: "shows_event f h H e ev \<Longrightarrow> shows_event f h (H @ H') e ev"
proof -
  assume "shows_event f h H e ev"
  then obtain prev where "ev = (entry_event f e)\<lparr>ev_PrevKV := prev\<rparr>" and prev: "case prev of
      None \<Rightarrow> \<forall>p\<in>set h. fst p \<noteq> r_PrevRevision (snd e) | Some kv \<Rightarrow> \<exists>p\<in>set H. fst p = r_PrevRevision (snd e) \<and> kv = entry_kv f p"
    unfolding shows_event_def by blast
  then show ?thesis unfolding shows_event_def by (intro exI [of _ prev]) (cases prev; auto)
qed

lemma shows_events_grow: "list_all2 (shows_event f h H) es evs \<Longrightarrow> list_all2 (shows_event f h (H @ H')) es evs"
  by (erule list_all2_mono) (rule shows_event_grow)

lemma shows_event_simps:
  assumes "shows_event f h H e ev"
  shows "ev_Create ev = r_IsCreate (snd e)" "ev_Delete ev = r_IsDelete (snd e)" "ev_KV ev = entry_kv f e"
  using assms by (auto simp: shows_event_def entry_event_def)

context fdb_driver
begin

lemma ByRevision_Get_absent:
  assumes rep: "represents f (tr_view L t) h" and clean: "tr_pending L t = []" and v: "elem_ok (TVersionstamp v)"
    and "\<forall>e\<in>set h. fst e \<noteq> v"
  shows "ByRevision_Get f t v = Ok None \<or> (\<exists>e. ByRevision_Get f t v = Err e)"
proof -
  let ?p = "f_byRevision f"
  let ?o = "\<lparr>ro_Limit = 0, ro_Mode = StreamingModeWantAll, ro_Reverse = False\<rparr>"
  have h: "hist_wf h" "agree_on ?p (tr_view L t) (concat (map (rev_kvs L ?p) h))"
    using rep by (simp_all add: represents_def del: driver_simps(3))
  obtain e where e: "fdb_PrefixRange L (?p @ tuple_Pack L [TVersionstamp v]) = Inr (?p @ tuple_Pack L [TVersionstamp v], e)"
      "\<And>k. (?p @ tuple_Pack L [TVersionstamp v] \<le> k \<and> k < e) \<longleftrightarrow> prefix (?p @ tuple_Pack L [TVersionstamp v]) k"
    by (rule prefix_range_subspace [of "[TVersionstamp v]" ?p "str ''byRevision''"]) (use v in auto)
  let ?it = "tr_GetRange L False t (FirstGreaterOrEqual (?p @ tuple_Pack L [TVersionstamp v])) (FirstGreaterOrEqual e) ?o"
  have "filter (\<lambda>e. fst e = v) h = []" using assms(4) by (simp add: filter_empty_conv)
  then have "limited ?o (sel_range (tr_view L t) (FirstGreaterOrEqual (?p @ tuple_Pack L [TVersionstamp v])) (FirstGreaterOrEqual e)) = []"
    using rev_range_list [OF h(1) v finite_view h(2)] by (simp add: sel_range_def e(2) limited_def del: driver_simps(3))
  with range_sound [OF clean, of ?o "FirstGreaterOrEqual (?p @ tuple_Pack L [TVersionstamp v])" "FirstGreaterOrEqual e" False]
  have "?it = [] \<or> (\<exists>err. ?it = [Inl err])" by (auto simp: Let_def simp del: driver_simps(3))
  moreover have "ByRevision_GetIterator f t v = Ok ?it" by (simp add: ByRevision_GetIterator_def spack_eq e(1) del: driver_simps(3))
  ultimately show ?thesis by (auto simp: ByRevision_Get_def GetFromIterator_end)
qed

lemma dummy_not_revision: "\<not> is_revision (createDummyVersionstamp L)"
  unfolding dummy_eq by code_simp

lemma afterEvent_sound:
  assumes "db_holds f d H R" "reads L t d" "prefix h H" "e \<in> set H"
  shows "(\<exists>err. afterEvent f t (fst e) (by_revision_record (snd e)) = Err err) \<or>
    (\<exists>ev. afterEvent f t (fst e) (by_revision_record (snd e)) = Ok ev \<and> shows_event f h H e ev)"
proof -
  let ?v = "r_PrevRevision (snd e)"
  have rep: "represents f (tr_view L t) H" "tr_pending L t = []" using assms(1,2) by (simp_all add: db_holds_def reads_def)
  have ok: "entry_ok L e" using db_holds_wf(3) [OF assms(1,4)] .
  note ev = revRecordToEvent_entry [OF ok]
  have h: "set h \<subseteq> set H" using assms(3) by (auto simp: prefix_def)
  have prev: "r_PrevRevision (by_revision_record (snd e)) = ?v" by (simp add: by_revision_record_def)
  show ?thesis
  proof (cases "?v = createDummyVersionstamp L")
    case True
    have "\<forall>p\<in>set h. is_revision (fst p)" using h db_holds_wf(4) [OF assms(1)] by blast
    then have "\<forall>p\<in>set h. fst p \<noteq> ?v" using dummy_not_revision True by auto
    with True have "shows_event f h H e (entry_event f e)"
      unfolding shows_event_def by (intro exI [of _ None]) (simp add: entry_event_def)
    with True ev prev show ?thesis by (simp add: afterEvent_def)
  next
    case False
    show ?thesis
    proof (cases "\<exists>p\<in>set H. fst p = ?v")
      case True
      then obtain p where p: "p \<in> set H" "fst p = ?v" by blast
      from p(1) have "(?v, snd p) \<in> set H" using p(2) by (metis prod.collapse)
      from ByRevision_Get_sound [OF rep this] show ?thesis
      proof (elim disjE exE)
        assume g: "ByRevision_Get f t ?v = Ok (Some (by_revision_record (snd p)))"
        have "revRecordToEvent f \<lparr>rr_Rev = ?v, rr_Record = by_revision_record (snd p)\<rparr> = Ok (entry_event f p)"
          using revRecordToEvent_entry [OF db_holds_wf(3) [OF assms(1) p(1)]] p(2) by simp
        moreover have "shows_event f h H e ((entry_event f e)\<lparr>ev_PrevKV := Some (entry_kv f p)\<rparr>)"
          using p unfolding shows_event_def by (intro exI [of _ "Some (entry_kv f p)"]) auto
        ultimately show ?thesis using False g ev prev by (simp add: afterEvent_def entry_event_def)
      qed (use False ev prev in \<open>simp add: afterEvent_def\<close>)
    next
      case absent: False
      have "elem_ok (TVersionstamp ?v)" using False ok is_revision_elem_ok by (simp add: entry_ok_def del: elem_ok.simps)
      moreover from absent have "\<forall>p\<in>set H. fst p \<noteq> ?v" by blast
      ultimately have "ByRevision_Get f t ?v = Ok None \<or> (\<exists>e. ByRevision_Get f t ?v = Err e)" by (rule ByRevision_Get_absent [OF rep])
      then show ?thesis
      proof (elim disjE exE)
        assume g: "ByRevision_Get f t ?v = Ok None"
        have "shows_event f h H e ((entry_event f e)\<lparr>ev_PrevKV := None\<rparr>)"
          using absent h unfolding shows_event_def by (intro exI [of _ None]) auto
        with False g ev prev show ?thesis by (simp add: afterEvent_def)
      qed (use False ev prev absent in \<open>simp_all add: afterEvent_def\<close>)
    qed
  qed
qed

end

section \<open>The collector of events\<close>

definition after_per ::
    "('d, 't) FDB \<Rightarrow> int64 \<Rightarrow> bool \<Rightarrow> int64 \<Rightarrow> (bytes \<Rightarrow> bool) \<Rightarrow> int64 \<Rightarrow> entry list \<Rightarrow> entry list \<Rightarrow> afterCollector \<Rightarrow> entry list \<Rightarrow> bool" where
  "after_per f limit check m tk V h H c out \<longleftrightarrow>
     \<not> UseSequentialId (f_cfg f) \<and> ac_limit c = limit \<and> ac_checkCompacted c = check \<and> ac_minRevision c = m \<and> ac_takeKey c = tk \<and>
     (ac_latestRev c = 0 \<or> V \<le> ac_latestRev c) \<and> (out = [] \<longrightarrow> ac_latestRev c = 0) \<and>
     list_all2 (shows_event f h H) (filter (\<lambda>e. tk (entry_key e)) out) (ac_events c)"

definition after_col ::
    "('d, 't) FDB \<Rightarrow> int64 \<Rightarrow> bool \<Rightarrow> int64 \<Rightarrow> (bytes \<Rightarrow> bool) \<Rightarrow> int64 \<Rightarrow> entry list \<Rightarrow> entry list \<Rightarrow> afterCollector \<Rightarrow> entry list \<Rightarrow> entry list \<Rightarrow> bool" where
  "after_col f limit check m tk V h H c out es \<longleftrightarrow>
     after_per f limit check m tk V h H c out \<and> ac_batchLatestRev c = 0 \<and>
     list_all2 (shows_event f h H) (filter (\<lambda>e. tk (entry_key e)) es) (ac_batchEvents c)"

definition after_fin ::
    "('d, 't) FDB \<Rightarrow> int64 \<Rightarrow> bool \<Rightarrow> int64 \<Rightarrow> (bytes \<Rightarrow> bool) \<Rightarrow> int64 \<Rightarrow> entry list \<Rightarrow> int64 \<Rightarrow> int64 \<Rightarrow> entry list \<Rightarrow> afterCollector \<Rightarrow> entry list
     \<Rightarrow> entry list \<Rightarrow> bool" where
  "after_fin f limit check m tk V h R n H c out es \<longleftrightarrow>
     after_per f limit check m tk V h H c out \<and> V \<le> n \<and> (check \<and> 0 < m \<longrightarrow> R \<le> m) \<and>
     ac_batchLatestRev c = (if ac_latestRev c = 0 then n else 0) \<and>
     list_all2 (shows_event f h H) (filter (\<lambda>e. tk (entry_key e)) es) (ac_batchEvents c)"

definition after_more :: "int64 \<Rightarrow> (bytes \<Rightarrow> bool) \<Rightarrow> entry list \<Rightarrow> bool" where
  "after_more limit tk es \<longleftrightarrow> limit = 0 \<or> int (length (filter (\<lambda>e. tk (entry_key e)) es)) < limit"

definition after_cut :: "afterCollector \<Rightarrow> entry \<Rightarrow> bool" where
  "after_cut c e \<longleftrightarrow> ac_latestRev c \<noteq> 0 \<and> ac_latestRev c < rev_int (fst e)"

context fdb_driver
begin

lemma latestRev_reads:
  assumes "\<not> UseSequentialId cfg" "reads L t d"
  shows "(\<exists>e. res_bind (RevisionSubspace_GetLatestRev f t) res_of_sum = Err e) \<or>
    res_bind (RevisionSubspace_GetLatestRev f t) res_of_sum = Ok (db_version L d)"
proof (cases "tr_GetReadVersion L t")
  case (Inl e)
  with assms(1) show ?thesis by (auto simp: RevisionSubspace_GetLatestRev_def)
next
  case (Inr v)
  then have "v = db_version L d" using read_version_sound assms(2) by (auto simp: reads_def)
  with Inr assms(1) show ?thesis by (simp add: RevisionSubspace_GetLatestRev_def)
qed

lemma after_next:
  assumes "after_col f limit check m tk V h H s out es" "db_holds f d H R" "reads L t d" "prefix h H" "e \<in> set H"
    and "ByRevision_GetFromIterator f it = Ok (Some (fst e, by_revision_record (snd e)), it')"
    and "afterCollector_next f t it s = (r, s')"
  shows "if after_cut s e then r = Ok (Some (afterKey f (fst e)), False, t, it') \<and> s' = s
    else (\<exists>err. r = Err err) \<and> after_per f limit check m tk V h H s' out \<or>
      r = Ok (Some (afterKey f (fst e)), after_more limit tk (out @ es @ [e]), t, it') \<and>
      after_col f limit check m tk V h H s' out (es @ [e])"
proof -
  let ?rec = "by_revision_record (snd e)"
  have s: "ac_takeKey s = tk" "ac_limit s = limit" "after_per f limit check m tk V h H s out"
    "list_all2 (shows_event f h H) (filter (\<lambda>e. tk (entry_key e)) out) (ac_events s)"
    "list_all2 (shows_event f h H) (filter (\<lambda>e. tk (entry_key e)) es) (ac_batchEvents s)"
    using assms(1) by (auto simp: after_col_def after_per_def)
  have key: "r_Key ?rec = entry_key e" by (simp add: by_revision_record_def entry_key_def)
  have cut: "(if ac_latestRev s \<noteq> 0 then map_res (\<lambda>r. r > ac_latestRev s) (VersionstampToInt64 (fst e)) else Ok False) = Ok (after_cut s e)"
    using VersionstampToInt64_revision [OF db_holds_wf(4) [OF assms(2,5)]] by (simp add: after_cut_def)
  show ?thesis
  proof (cases "after_cut s e")
    case True
    with assms(6,7) cut show ?thesis by (auto simp: afterCollector_next_def)
  next
    case False
    have nx: "(r, s') = (case (if tk (entry_key e) then map_res (\<lambda>ev. [ev]) (afterEvent f t (fst e) ?rec) else Ok []) of
        Err er \<Rightarrow> (Err er, s) | Panic p \<Rightarrow> (Panic p, s)
      | Ok evs \<Rightarrow> let c1 = s\<lparr>ac_batchEvents := ac_batchEvents s @ evs\<rparr>
          in (Ok (Some (afterKey f (fst e)), afterCollector_needMore c1, t, it'), c1))"
      using assms(6,7) cut False s(1) key by (simp add: afterCollector_next_def)
    have taken: ?thesis if "list_all2 (shows_event f h H) (filter (\<lambda>e. tk (entry_key e)) [e]) evs"
      "(r, s') = (let c1 = s\<lparr>ac_batchEvents := ac_batchEvents s @ evs\<rparr>
          in (Ok (Some (afterKey f (fst e)), afterCollector_needMore c1, t, it'), c1))" for evs
    proof -
      let ?c = "s\<lparr>ac_batchEvents := ac_batchEvents s @ evs\<rparr>"
      have col: "after_col f limit check m tk V h H ?c out (es @ [e])"
        using assms(1) list_all2_appendI [OF s(5) that(1)] by (simp add: after_col_def after_per_def)
      have "afterCollector_needMore ?c = after_more limit tk (out @ es @ [e])"
        using list_all2_lengthD [OF s(4)] list_all2_lengthD [OF s(5)] list_all2_lengthD [OF that(1)] s(2)
        by (auto simp: afterCollector_needMore_def after_more_def)
      with col that(2) False show ?thesis by (simp add: Let_def)
    qed
    show ?thesis
    proof (cases "tk (entry_key e)")
      case False
      show ?thesis by (rule taken [of "[]"]) (use False nx in simp_all)
    next
      case True
      from afterEvent_sound [OF assms(2-5)] show ?thesis
      proof (elim disjE exE conjE)
        fix err assume "afterEvent f t (fst e) ?rec = Err err"
        with nx True s(3) \<open>\<not> after_cut s e\<close> show ?thesis by simp
      next
        fix ev assume "afterEvent f t (fst e) ?rec = Ok ev" "shows_event f h H e ev"
        then show ?thesis by (intro taken [of "[ev]"]) (use True nx in simp_all)
      qed
    qed
  qed
qed

lemma after_end:
  assumes "after_col f limit check m tk V h H s out es" "db_holds f d H R" "reads L t d" "V \<le> db_version L d"
    and "afterCollector_endBatch f t isLast s = (r, s')"
  shows "(\<exists>err. r = Err err) \<and> after_per f limit check m tk V h H s' out \<or>
    r = Ok t \<and> after_fin f limit check m tk V h R (db_version L d) H s' out es"
proof -
  have mode: "\<not> UseSequentialId cfg" using assms(1) by (simp add: after_col_def after_per_def)
  let ?l = "if ac_latestRev s = 0 then map_res (\<lambda>latestRev. s\<lparr>ac_batchLatestRev := latestRev\<rparr>)
      (res_bind (RevisionSubspace_GetLatestRev f t) res_of_sum) else Ok s"
  from latestRev_reads [OF mode assms(3)] consider e where "?l = Err e"
    | c where "?l = Ok c" "c = s\<lparr>ac_batchLatestRev := (if ac_latestRev s = 0 then db_version L d else 0)\<rparr>"
    using assms(1) by (cases "ac_latestRev s = 0") (auto simp: after_col_def)
  then show ?thesis
  proof cases
    case 1
    with assms(1,5) show ?thesis by (auto simp: afterCollector_endBatch_def after_col_def)
  next
    case (2 c)
    have per: "after_per f limit check m tk V h H (c\<lparr>ac_batchCompactRev := x\<rparr>) out" "after_per f limit check m tk V h H c out" for x
      using assms(1) 2(2) by (simp_all add: after_col_def after_per_def)
    have fin: "after_fin f limit check m tk V h R (db_version L d) H c out es" if "check \<and> 0 < m \<longrightarrow> R \<le> m"
      using assms(1,4) 2(2) that per(2) by (simp add: after_col_def after_fin_def)
    have c: "ac_checkCompacted c = check" "ac_minRevision c = m" using per(2) by (simp_all add: after_per_def)
    from CompactRevision_Get_holds [OF assms(2,3)] assms(5) 2(1) c per fin show ?thesis
      unfolding afterCollector_endBatch_def by (auto split: if_splits)
  qed
qed

end

sublocale fdb_driver \<subseteq> after: log_reader L cfg dir f "afterProcessor f" "after_per f limit check m tk V h" "after_col f limit check m tk V h"
    "after_fin f limit check m tk V h" "after_more limit tk" after_cut V h for limit check m tk V h
proof (unfold_locales, goal_cases)
  case (1 H s out H')
  then show ?case by (simp add: after_per_def shows_events_grow)
next
  case (2 H s out)
  then show ?case by (simp add: after_col_def after_per_def afterProcessor_def afterCollector_startBatch_def)
next
  case (3 H s out es d R t e it it' r s')
  then show ?case using after_next [of limit check m tk V h H s out es d R t e it it' r s'] extends_prefix by (simp add: afterProcessor_def)
next
  case (4 it it' t s)
  then show ?case by (simp add: afterProcessor_def afterCollector_next_def)
next
  case (5 it err t s)
  then show ?case by (simp add: afterProcessor_def afterCollector_next_def)
next
  case (6 H s out es e)
  then show ?case by (auto simp: after_col_def after_per_def after_cut_def)
next
  case (7 H s out es d R t isLast re s')
  then show ?case using after_end [of limit check m tk V h H s out es d R t isLast re s'] by (simp add: afterProcessor_def)
next
  case (8 H s out es)
  then show ?case by (simp add: after_col_def)
next
  case (9 R n H s out es)
  then show ?case by (simp add: after_fin_def)
next
  case (10 t isLast s t' s' e)
  then show ?case
    by (auto simp: afterProcessor_def afterCollector_endBatch_def after_cut_def split: res.splits if_splits)
next
  case (11 R n H s out es)
  then show ?case
    by (auto simp: after_fin_def after_per_def afterProcessor_def afterCollector_postBatch_def intro: list_all2_appendI)
qed

section \<open>Batches of events\<close>

definition revision_ok :: "int64 \<Rightarrow> bool" where
  "revision_ok m \<longleftrightarrow> 0 \<le> m \<and> m < 2 ^ 63"

context fdb_driver
begin

lemma afterRevisionSelector_range:
  assumes "revision_ok m"
  shows "log_range f (afterRevisionSelector f m) m" "snd (afterRevisionSelector f m) = FirstGreaterOrEqual (f_byRevision f @ [255])"
  using log_range_after [OF is_revision_int64(1) refl, of m] is_revision_int64(2) [of m] assms
  by (simp_all add: afterRevisionSelector_def range_keys_eq revision_ok_def del: driver_simps(3))

lemma after_new:
  assumes "newAfterCollector m check limit tk = Ok c" "\<not> UseSequentialId cfg" "0 \<le> limit"
  shows "after_per f limit check m tk V h H c []"
  using assms by (auto simp: newAfterCollector_def after_per_def split: if_splits)

text \<open>A batch of all events after \<open>m\<close>: those of the next entries, or none and then there are no entries after \<open>m\<close>.\<close>

lemma afterBatch_result:
  assumes "\<not> UseSequentialId cfg" "0 < maxBatchSize cfg" "\<forall>a\<in>set script. appending f a" "db_holds f d h R" "revision_ok m"
    and "afterBatch f m (\<lambda>_. True) script d = Some (r, d')"
  shows "\<exists>H. db_holds f d' H R \<and> extends (db_version L d) h H \<and> db_version L d \<le> db_version L d' \<and>
    ((\<exists>e. r = Err e) \<or>
     (\<exists>n evs es rest. r = Ok (n, evs) \<and> since m H = es @ rest \<and> list_all2 (shows_event f h H) es evs \<and>
        (evs = [] \<longrightarrow> rest = [] \<and> db_version L d \<le> n \<and> n \<le> db_version L d' \<and> (\<forall>e\<in>set H. rev_int (fst e) \<le> n))))"
proof -
  let ?limit = "maxBatchSize cfg" and ?V = "db_version L d" and ?tk = "\<lambda>_ :: bytes. True"
  from assms(2,6) obtain c0 r0 st c where new: "newAfterCollector m False ?limit ?tk = Ok c0"
    and run: "processBatch f (afterProcessor f) (afterRevisionSelector f m) script d c0 = Some (r0, st, d', c)"
    and r: "r = map_res (\<lambda>_. (ac_latestRev c, ac_events c)) r0"
    by (auto simp: afterBatch_def newAfterCollector_def)
  have per: "after_per f ?limit False m ?tk ?V h h c0 []" by (rule after_new [OF new assms(1)]) (use assms(2) in simp)
  have more: "after_more ?limit ?tk []" using assms(2) by (simp add: after_more_def)
  from after.log_batch_read [OF assms(3,4) order_refl per more afterRevisionSelector_range(1) [OF assms(5)] run]
  show ?thesis
  proof (elim disjE exE conjE)
    fix e c1 assume "r0 = Err e"
      "log_inv f (after_per f ?limit False m ?tk ?V h) (after_more ?limit ?tk) ?V h m R (afterRevisionSelector f m) d' c1"
    with r show ?thesis unfolding log_inv_def driver_simps(1) by auto
  next
    fix res c1 assume r0: "r0 = Ok res" and c: "c = p_postBatch (afterProcessor f) c1"
      and "log_read f (after_fin f ?limit False m ?tk ?V h) (after_more ?limit ?tk) after_cut ?V h m R res d' c1"
    then obtain H n out es rest where i: "db_holds f d' H R" "n \<le> db_version L d'" "?V \<le> n" "\<forall>e\<in>set H. rev_int (fst e) \<le> n" "extends ?V h H"
        "since m H = (out @ es) @ rest" "after_fin f ?limit False m ?tk ?V h R n H c1 out es"
        "if br_collectorNeedsMore res then es \<noteq> [] \<and> br_lastReadKey res = Some (afterKey f (fst (last es))) \<and> after_more ?limit ?tk (out @ es)
         else rest = [] \<or> \<not> after_more ?limit ?tk (out @ es) \<or> after_cut c1 (hd rest) \<and>
           (\<forall>e\<in>set rest. ?V < rev_int (fst e))"
      unfolding log_read_def driver_simps(1) by blast
    have ev: "list_all2 (shows_event f h H) (out @ es) (ac_events c)"
      using i(7) c by (auto simp: after_fin_def after_per_def afterProcessor_def afterCollector_postBatch_def intro: list_all2_appendI)
    have "rest = [] \<and> ac_latestRev c = n" if "ac_events c = []"
    proof -
      have es: "out = []" "es = []" using ev that by simp_all
      then have "ac_latestRev c = n" using i(7) c by (simp add: after_fin_def after_per_def afterProcessor_def afterCollector_postBatch_def)
      moreover have "rest = []" using i(7,8) es more by (auto simp: after_fin_def after_per_def after_cut_def split: if_splits)
      ultimately show ?thesis by simp
    qed
    with i(2-4) have "ac_events c = [] \<longrightarrow> rest = [] \<and> ?V \<le> ac_latestRev c \<and> ac_latestRev c \<le> db_version L d' \<and>
        (\<forall>e\<in>set H. rev_int (fst e) \<le> ac_latestRev c)" by auto
    moreover have "r = Ok (ac_latestRev c, ac_events c)" "?V \<le> db_version L d'" using r r0 i(2,3) by auto
    ultimately show ?thesis using i(1,5,6) ev by blast
  qed
qed

text \<open>All events of some keys after \<open>m\<close>, up to some point after the call began.\<close>

lemma afterAll_result:
  assumes "\<not> UseSequentialId cfg" "\<forall>script\<in>set scripts. \<forall>a\<in>set script. appending f a" "db_holds f d h R" "revision_ok m"
    and "afterAll f m tk scripts d = Some (r, d')"
  shows "(\<exists>res e. r = Ok (res, Some e)) \<and> moved f (db_version L d) h R d' \<or>
     (\<exists>res H es rest. r = Ok (res, None) \<and> db_holds f d' H R \<and> extends (db_version L d) h H \<and> db_version L d \<le> db_version L d' \<and> since m H = es @ rest \<and>
        (\<forall>e\<in>set rest. db_version L d < rev_int (fst e)) \<and> (0 < m \<longrightarrow> R \<le> m) \<and>
        list_all2 (shows_event f h H) (filter (\<lambda>e. tk (entry_key e)) es) (ar_events res))"
proof -
  let ?V = "db_version L d"
  let ?res = "\<lambda>c. \<lparr>ar_currentRevision = (if ac_events c \<noteq> [] then kv_ModRevision (ev_KV (last (ac_events c))) else ac_latestRev c),
      ar_compactRevision = ac_compactRevision c, ar_events = ac_events c\<rparr>"
  from assms(5) obtain c0 r0 st c where new: "newAfterCollector m True 0 tk = Ok c0"
    and run: "processRange f (afterProcessor f) (afterRevisionSelector f m) scripts d c0 = Some (r0, st, d', c)"
    and r: "r = (case r0 of Ok _ \<Rightarrow> Ok (?res c, None) | Err e \<Rightarrow> Ok (?res c, Some e) | Panic p \<Rightarrow> Panic p)"
    by (auto simp: afterAll_def newAfterCollector_def Let_def)
  have per: "after_per f 0 True m tk ?V h h c0 []" by (rule after_new [OF new assms(1)]) simp
  have more: "after_more 0 tk es" for es by (simp add: after_more_def)
  from after.log_range_read [OF assms(2,3) order_refl per more afterRevisionSelector_range [OF assms(4)] run] show ?thesis
  proof (elim disjE exE conjE)
    fix e assume "r0 = Err e" "moved f ?V h R d'"
    with r show ?thesis by auto
  next
    fix res c1 assume r0: "r0 = Ok ()" and c: "c = p_postBatch (afterProcessor f) c1" and "\<not> br_collectorNeedsMore res"
      and "log_read f (after_fin f 0 True m tk ?V h) (after_more 0 tk) after_cut ?V h m R res d' c1"
    then obtain H n out es rest where i: "db_holds f d' H R" "extends ?V h H" "since m H = (out @ es) @ rest" "after_fin f 0 True m tk ?V h R n H c1 out es"
        "rest = [] \<or> \<not> after_more 0 tk (out @ es) \<or> after_cut c1 (hd rest) \<and>
           (\<forall>e\<in>set rest. ?V < rev_int (fst e))" "?V \<le> n" "n \<le> db_version L d'"
      unfolding log_read_def driver_simps(1) if_not_P [OF \<open>\<not> br_collectorNeedsMore res\<close>] by blast
    from i(5) more have "\<forall>e\<in>set rest. ?V < rev_int (fst e)" by auto
    moreover have "list_all2 (shows_event f h H) (filter (\<lambda>e. tk (entry_key e)) (out @ es)) (ac_events c)" "0 < m \<longrightarrow> R \<le> m"
      using i(4) c by (auto simp: after_fin_def after_per_def afterProcessor_def afterCollector_postBatch_def intro: list_all2_appendI)
    moreover have "r = Ok (?res c, None)" using r r0 by simp
    ultimately show ?thesis
      using i by (intro disjI2 exI [of _ "?res c"] exI [of _ H] exI [of _ "out @ es"] exI [of _ rest]) simp
  qed
qed

end

end
