(* ===== verification/FDB_Poll.thy ===== *)
theory FDB_Poll
  imports FDB_Events
begin

text \<open>
  One iteration of the poll loop (\<^verbatim>\<open>src/pkg/drivers/fdb/fdb_watch.go\<close>, \<^verbatim>\<open>poll\<close>): the events it broadcasts are the entries of the log
  between the old and the new cursor.
\<close>

section \<open>One iteration\<close>

definition between :: "int64 \<Rightarrow> int64 \<Rightarrow> entry list \<Rightarrow> entry list" where
  "between lo hi h = filter (\<lambda>e. lo < rev_int (fst e) \<and> rev_int (fst e) \<le> hi) h"

lemma between_append: "between lo hi (h @ h') = between lo hi h @ between lo hi h'"
  by (simp add: between_def)

lemma between_split:
  assumes "sorted_wrt (\<lambda>e e'. rev_int (fst e) < rev_int (fst e')) h" "lo \<le> m" "m \<le> hi"
  shows "between lo hi h = between lo m h @ between m hi h"
  using assms(1)
proof (induction h)
  case (Cons e h)
  have "between lo m h = []" if "m < rev_int (fst e)"
    using that Cons.prems by (auto simp: between_def filter_empty_conv dest: less_trans)
  with Cons assms(2,3) show ?case by (cases "rev_int (fst e) \<le> m") (auto simp: between_def)
qed (simp add: between_def)

lemma between_Cons:
  assumes "sorted_wrt (\<lambda>e e'. rev_int (fst e) < rev_int (fst e')) H" "between c c' H = e # es"
  shows "c < rev_int (fst e)" "rev_int (fst e) \<le> c'" "between c (rev_int (fst e)) H = [e]" "between (rev_int (fst e)) c' H = es"
proof -
  let ?r = "rev_int (fst e)"
  have "e \<in> set (between c c' H)" using assms(2) by simp
  then show r: "c < ?r" "?r \<le> c'" by (simp_all add: between_def)
  have "between c c' H = between c ?r H @ between ?r c' H" by (rule between_split [OF assms(1)]) (use r in auto)
  moreover have srt: "sorted_wrt (\<lambda>e e'. rev_int (fst e) < rev_int (fst e')) (e # es)"
    unfolding assms(2) [symmetric] between_def by (rule sorted_wrt_filter [OF assms(1)])
  have es: "between c ?r H = filter (\<lambda>x. rev_int (fst x) \<le> ?r) (e # es)"
    unfolding assms(2) [symmetric] between_def filter_filter by (rule filter_cong) (use r in auto)
  then have "between c ?r H = [e]" using srt by (auto simp: filter_empty_conv)
  ultimately show "between c ?r H = [e]" "between ?r c' H = es" using assms(2) by simp_all
qed

context fdb_driver
begin

lemma moved_attempt:
  assumes "appending f a" "\<And>a t c. \<exists>r. body a t c = (r, c) \<and> ((\<exists>e. r = Err e) \<or> (\<exists>x. r = Ok (x, t)))"
  shows "attempt_ok L (\<lambda>d _. moved f V h R d) (\<lambda>_ _ d _. moved f V h R d) body a"
  unfolding attempt_ok_def
proof (intro conjI allI impI)
  fix d c assume "moved f V h R d"
  then show "moved f V h R (at_before a d)"
    using assms(1) extends_append unfolding moved_def appending_def driver_simps(1) by (meson order_trans)
next
  fix d c t r c' assume *: "moved f V h R d \<and> reads L t d \<and> body a t c = (r, c')"
  then show "moved f V h R d" by simp
  have "moved f V h R (tr_Commit L (at_stamp a) t)"
    using * commit_holds [of t d _ R "at_stamp a"] commit_read_only(2) [of t d "at_stamp a"]
    unfolding moved_def driver_simps(1) by (meson order_trans)
  then show "(\<exists>e. r = Err e) \<or> (\<exists>x t'. r = Ok (x, t') \<and> moved f V h R (tr_Commit L (at_stamp a) t') \<and> moved f V h R (tr_Commit L (at_stamp a) t'))"
    using assms(2) [of a t c] * by auto
qed

lemma transact_moves:
  assumes "\<forall>a\<in>set script. appending f a" "db_holds f d h R"
    and "\<And>a t c. \<exists>r. body a t c = (r, c) \<and> ((\<exists>e. r = Err e) \<or> (\<exists>x. r = Ok (x, t)))"
    and "transact f zero body script d () = Some (r, st, d', u)"
  shows "moved f (db_version L d) h R d'" "\<forall>p. r \<noteq> Panic p"
proof -
  let ?Inv = "\<lambda>d1 (_ :: unit). moved f (db_version L d) h R d1"
  have "?Inv d ()" using moved_refl [OF assms(2)] unfolding driver_simps(1) .
  moreover have "\<forall>a\<in>set script. attempt_ok L ?Inv (\<lambda>_ _. ?Inv) body a"
    using assms(1) by (auto intro: moved_attempt assms(3))
  ultimately have "?Inv d' u \<and> ((\<exists>e. r = Err e) \<or> (\<exists>x. r = Ok x \<and> ?Inv d' u))"
    using transact_keeps [where Inv = "?Inv" and Post = "\<lambda>_ _. ?Inv", OF _ _ assms(4)] by blast
  then show "moved f (db_version L d) h R d'" "\<forall>p. r \<noteq> Panic p" by auto
qed

lemma between_prefix:
  assumes "db_holds f d H R" "since lo H = es @ rest" "rest \<noteq> [] \<longrightarrow> es \<noteq> []"
    and "hi = (if es = [] then n else rev_int (fst (last es)))" "\<forall>e\<in>set H. rev_int (fst e) \<le> n"
  shows "between lo hi H = es"
proof (cases es rule: rev_cases)
  case Nil
  with assms(2,3) have "since lo H = []" by auto
  then show ?thesis using Nil by (auto simp: since_def between_def filter_empty_conv)
next
  case (snoc ys x)
  have "sorted_wrt (\<lambda>e e'. rev_int (fst e) < rev_int (fst e')) (ys @ x # rest)"
    using sorted_wrt_filter [OF db_holds_sorted [OF assms(1)], of "\<lambda>e. lo < rev_int (fst e)"] assms(2) snoc by (simp add: since_def)
  then have srt: "\<forall>e\<in>set ys. rev_int (fst e) \<le> hi" "\<forall>e\<in>set rest. hi < rev_int (fst e)" "rev_int (fst x) = hi"
    using assms(4) snoc by (auto simp: sorted_wrt_append)
  have "between lo hi H = filter (\<lambda>e. rev_int (fst e) \<le> hi) (since lo H)" by (simp add: between_def since_def conj_commute)
  also have "\<dots> = es" unfolding assms(2) using srt snoc by (auto simp: filter_empty_conv)
  finally show ?thesis .
qed

lemma shows_events_older:
  assumes "list_all2 (shows_event f h' H) es evs" "set h \<subseteq> set h'"
  shows "list_all2 (shows_event f h H) es evs"
proof (rule list_all2_mono [OF assms(1)])
  fix e ev assume "shows_event f h' H e ev"
  then obtain prev where "ev = (entry_event f e)\<lparr>ev_PrevKV := prev\<rparr>" and prev: "case prev of
      None \<Rightarrow> \<forall>p\<in>set h'. fst p \<noteq> r_PrevRevision (snd e) | Some kv \<Rightarrow> \<exists>p\<in>set H. fst p = r_PrevRevision (snd e) \<and> kv = entry_kv f p"
    unfolding shows_event_def by blast
  with assms(2) show "shows_event f h H e ev" unfolding shows_event_def by (intro exI [of _ prev]) (cases prev; auto)
qed

lemma shows_events_last:
  assumes "list_all2 (shows_event f h H) es evs" "evs \<noteq> []"
  shows "kv_ModRevision (ev_KV (last evs)) = rev_int (fst (last es))"
proof -
  have "es \<noteq> []" using assms by auto
  then have "shows_event f h H (last es) (last evs)"
    using assms by (metis (no_types) last_conv_nth length_greater_0_conv list_all2_conv_all_nth diff_less zero_less_one)
  from shows_event_simps(3) [OF this] show ?thesis by (simp add: entry_kv_def)
qed

lemma poll_iteration_result:
  assumes "\<not> UseSequentialId cfg" "0 < maxBatchSize cfg" "\<forall>a\<in>set watchScript. appending f a" "\<forall>a\<in>set script. appending f a"
    and "db_holds f (d_db s) h R" "revision_ok (d_lastWatchRev s)" "d_lastWatchRev s \<le> db_version L (d_db s)"
    and "poll_iteration f watchScript script wake s = Some (r, s')"
  shows "\<exists>H. db_holds f (d_db s') H R \<and> extends (db_version L (d_db s)) h H \<and> db_version L (d_db s) \<le> db_version L (d_db s') \<and>
    d_lastWatchRev s \<le> d_lastWatchRev s' \<and> d_lastWatchRev s' \<le> db_version L (d_db s') \<and>
    ((\<exists>e. r = Err e) \<and> s' = s\<lparr>d_db := d_db s'\<rparr> \<or>
     (\<exists>evs. r = Ok evs \<and> list_all2 (shows_event f h H) (between (d_lastWatchRev s) (d_lastWatchRev s') H) evs \<and>
        d_counts s' = countTracker_apply evs (d_counts s)))"
proof -
  let ?c = "d_lastWatchRev s" and ?body = "\<lambda>a t c. (Ok ((), t), c)"
  from assms(8) obtain r0 st d u where w: "transact f () ?body watchScript (d_db s) () = Some (r0, st, d, u)"
    by (auto simp: poll_iteration_def split: option.splits)
  have "\<exists>r. ?body a t c = (r, c) \<and> ((\<exists>e. r = Err e) \<or> (\<exists>x. r = Ok (x, t)))" for a :: "'d attempt" and t :: 't and c :: unit by auto
  note m = transact_moves [OF assms(3,5) this w]
  from m(1) obtain h1 where h1: "db_holds f d h1 R" "extends (db_version L (d_db s)) h h1" and ver: "db_version L (d_db s) \<le> db_version L d"
    unfolding moved_def driver_simps(1) by blast
  have "(\<exists>e. r0 = Err e) \<or> r0 = Ok ()" using m(2) by (cases r0) auto
  then show ?thesis
  proof (elim disjE exE)
    fix e assume "r0 = Err e"
    with assms(8) w have "r = Err e" "s' = s\<lparr>d_db := d\<rparr>" by (auto simp: poll_iteration_def)
    with h1 ver assms(7) show ?thesis by (auto intro!: exI [of _ h1])
  next
    assume ok: "r0 = Ok ()"
    then obtain r1 d1 where b: "afterBatch f ?c (\<lambda>_. True) script d = Some (r1, d1)"
      using assms(8) w by (auto simp: poll_iteration_def split: option.splits)
    from afterBatch_result [OF assms(1,2,4) h1(1) assms(6) b] obtain H where
      H: "db_holds f d1 H R" "extends (db_version L d) h1 H" "db_version L d \<le> db_version L d1"
      and res: "(\<exists>e. r1 = Err e) \<or> (\<exists>n evs es rest. r1 = Ok (n, evs) \<and> since ?c H = es @ rest \<and> list_all2 (shows_event f h1 H) es evs \<and>
        (evs = [] \<longrightarrow> rest = [] \<and> db_version L d \<le> n \<and> n \<le> db_version L d1 \<and> (\<forall>e\<in>set H. rev_int (fst e) \<le> n)))" by blast
    have pre: "extends (db_version L (d_db s)) h H" "db_version L (d_db s) \<le> db_version L d1" "set h \<subseteq> set h1"
      using h1(2) H(3) ver extends_trans [OF h1(2) ver H(2)] by (auto simp: extends_def)
    from res show ?thesis
    proof (elim disjE exE conjE)
      fix e assume "r1 = Err e"
      with assms(8) w ok b have "r = Err e" "s' = s\<lparr>d_db := d1\<rparr>" by (auto simp: poll_iteration_def)
      with H pre assms(7) show ?thesis by (auto intro!: exI [of _ H])
    next
      fix n evs es rest assume e: "r1 = Ok (n, evs)" "since ?c H = es @ rest" "list_all2 (shows_event f h1 H) es evs"
        "evs = [] \<longrightarrow> rest = [] \<and> db_version L d \<le> n \<and> n \<le> db_version L d1 \<and> (\<forall>e\<in>set H. rev_int (fst e) \<le> n)"
      let ?c' = "if evs = [] then n else rev_int (fst (last es))"
      note last = shows_events_last [OF e(3)]
      have s': "r = Ok evs" "d_db s' = d1" "d_counts s' = countTracker_apply evs (d_counts s)" "d_lastWatchRev s' = ?c'"
        using assms(8) w ok b e(1) last by (auto simp: poll_iteration_def poll_stop_def Let_def split: wakeup.splits if_splits)
      have emp: "es = [] \<longleftrightarrow> evs = []" using e(3) by auto
      have vers: "\<forall>e\<in>set H. rev_int (fst e) \<le> db_version L d1" using H(1) by (simp add: db_holds_def)
      have "between ?c ?c' H = es"
        by (rule between_prefix [OF H(1) e(2), of _ "if evs = [] then n else db_version L d1"]) (use emp e(4) vers in auto)
      moreover have "?c \<le> ?c' \<and> ?c' \<le> db_version L d1"
      proof (cases "evs = []")
        case True
        with e(4) assms(7) ver show ?thesis by auto
      next
        case False
        then have "last es \<in> set (since ?c H)" using e(2) emp by simp
        with False vers show ?thesis by (auto simp: since_def)
      qed
      ultimately show ?thesis using s' H pre shows_events_older [OF e(3) pre(3)] by (intro exI [of _ H]) simp
    qed
  qed
qed

end

end
