(* ===== verification/FDB_Removal.thy ===== *)
theory FDB_Removal
  imports FDB_Poll FDB_Calls
begin

text \<open>
  Removing entries from a history, as compaction does: in the order of their revisions, and none that is live or after the revision
  compacted to. The live entries stay the same, and so does the representation of what is left.
\<close>

section \<open>Histories with entries removed\<close>

abbreviation rising :: "entry list \<Rightarrow> bool" where
  "rising h \<equiv> sorted_wrt (\<lambda>e e'. rev_int (fst e) < rev_int (fst e')) h"

lemma rising_inj: "rising h \<Longrightarrow> x \<in> set h \<Longrightarrow> y \<in> set h \<Longrightarrow> rev_int (fst x) = rev_int (fst y) \<Longrightarrow> x = y"
  by (induction h) auto

lemma last_entry_iff:
  assumes "rising h"
  shows "last_entry h k = Some e \<longleftrightarrow> e \<in> set h \<and> entry_key e = k \<and> (\<forall>x\<in>set h. entry_key x = k \<longrightarrow> rev_int (fst x) \<le> rev_int (fst e))"
  using assms
proof (induction h rule: rev_induct)
  case Nil
  then show ?case by (simp add: last_entry_def)
next
  case (snoc y h)
  then have y: "\<forall>x\<in>set h. rev_int (fst x) < rev_int (fst y)" and IH: "last_entry h k = Some e \<longleftrightarrow>
      e \<in> set h \<and> entry_key e = k \<and> (\<forall>x\<in>set h. entry_key x = k \<longrightarrow> rev_int (fst x) \<le> rev_int (fst e))"
    by (simp_all add: sorted_wrt_append)
  show ?case
  proof (cases "entry_key y = k")
    case True
    then have "last_entry (h @ [y]) k = Some y" by (simp add: last_entry_snoc entry_key_def)
    with True y show ?thesis by (metis (no_types, lifting) Un_iff leD less_imp_le list.set_intros(1) option.inject order_refl set_append set_ConsD empty_iff empty_set)
  next
    case False
    then have "last_entry (h @ [y]) k = last_entry h k" by (simp add: last_entry_snoc entry_key_def)
    with False IH show ?thesis by auto
  qed
qed

lemma live_iff:
  assumes "rising h"
  shows "live h e \<longleftrightarrow> e \<in> set h \<and> \<not> r_IsDelete (snd e) \<and> (\<forall>x\<in>set h. entry_key x = entry_key e \<longrightarrow> rev_int (fst x) \<le> rev_int (fst e))"
  unfolding live_def entry_key_def [symmetric] last_entry_iff [OF assms] by blast

text \<open>
  \<open>h\<close> is the history when the compaction to \<open>n\<close> began, \<open>H\<close> what it has become by the writes since, \<open>g\<close> what is left of that. All
  entries up to the position \<open>p\<close> have been looked at. Of a key, the entries removed precede those left.
\<close>

definition compacting :: "int64 \<Rightarrow> entry list \<Rightarrow> entry list \<Rightarrow> entry list \<Rightarrow> int64 \<Rightarrow> bool" where
  "compacting n h H g p \<longleftrightarrow>
     rising H \<and> extends n h H \<and> p \<le> n \<and> g = filter (\<lambda>e. e \<in> set g) H \<and>
     (\<forall>e\<in>set H. n < rev_int (fst e) \<or> live H e \<longrightarrow> e \<in> set g) \<and>
     (\<forall>e\<in>set g. rev_int (fst e) \<le> p \<longrightarrow> live h e) \<and>
     (\<forall>x\<in>set H. \<forall>y\<in>set g. x \<notin> set g \<and> entry_key x = entry_key y \<longrightarrow> rev_int (fst x) < rev_int (fst y))"

lemma compactingD:
  assumes "compacting n h H g p"
  shows "rising H" "extends n h H" "p \<le> n" "set g \<subseteq> set H" "rising g"
    "\<And>e. e \<in> set H \<Longrightarrow> n < rev_int (fst e) \<or> live H e \<Longrightarrow> e \<in> set g" "\<And>e. e \<in> set g \<Longrightarrow> rev_int (fst e) \<le> p \<Longrightarrow> live h e"
    "\<And>x y. x \<in> set H \<Longrightarrow> y \<in> set g \<Longrightarrow> x \<notin> set g \<Longrightarrow> entry_key x = entry_key y \<Longrightarrow> rev_int (fst x) < rev_int (fst y)"
proof -
  have g: "g = filter (\<lambda>e. e \<in> set g) H" and H: "rising H" using assms by (simp_all add: compacting_def)
  show "set g \<subseteq> set H" by (subst g) auto
  show "rising g" by (subst g) (rule sorted_wrt_filter [OF H])
qed (use assms in \<open>auto simp: compacting_def\<close>)

lemma compacting_start: "rising h \<Longrightarrow> p \<le> n \<Longrightarrow> \<forall>e\<in>set h. p < rev_int (fst e) \<Longrightarrow> compacting n h h h p"
  by (auto simp: compacting_def extends_refl filter_id_conv)

lemma compacting_live:
  assumes "compacting n h H g p"
  shows "live g e \<longleftrightarrow> live H e"
proof -
  note c = compactingD [OF assms]
  show ?thesis
  proof
    assume l: "live H e"
    then have "e \<in> set g" using c(6) live_in by blast
    with l c(4) show "live g e" unfolding live_iff [OF c(1)] live_iff [OF c(5)] by blast
  next
    assume l: "live g e"
    have "rev_int (fst x) \<le> rev_int (fst e)" if "x \<in> set H" "entry_key x = entry_key e" for x
      using that l c(8) [of x e] unfolding live_iff [OF c(5)] by (meson less_imp_le)
    with l c(4) show "live H e" unfolding live_iff [OF c(1)] live_iff [OF c(5)] by blast
  qed
qed

lemma compacting_begin:
  assumes "compacting n h H g p" "e \<in> set g" "rev_int (fst e) \<le> n"
  shows "e \<in> set h" "live H e \<Longrightarrow> live h e"
proof -
  note c = compactingD [OF assms(1)]
  from c(2) obtain h' where H: "H = h @ h'" "\<forall>e\<in>set h'. n < rev_int (fst e)" by (auto simp: extends_def)
  with assms(2,3) c(4) show e: "e \<in> set h" by fastforce
  have "rising h" using c(1) H(1) by (simp add: sorted_wrt_append)
  with e show "live H e \<Longrightarrow> live h e" unfolding live_iff [OF c(1)] live_iff [OF \<open>rising h\<close>] using H(1) by auto
qed

text \<open>The next entry is left if it is live, and removed otherwise.\<close>

lemma compacting_next:
  assumes "compacting n h H g p" "between p n g = e # es"
  shows "live g e \<Longrightarrow> compacting n h H g (rev_int (fst e))"
    and "\<not> live g e \<Longrightarrow> compacting n h H (filter (\<lambda>x. x \<noteq> e) g) (rev_int (fst e))"
    and "between (rev_int (fst e)) n g = es" "between (rev_int (fst e)) n (filter (\<lambda>x. x \<noteq> e) g) = es"
proof -
  note c = compactingD [OF assms(1)]
  note b = between_Cons [OF c(5) assms(2)]
  have e: "e \<in> set g" using assms(2) by (metis between_def filter_is_subset list.set_intros(1) subsetD)
  show es: "between (rev_int (fst e)) n g = es" by (rule b(4))
  have "between (rev_int (fst e)) n (filter (\<lambda>x. x \<noteq> e) g) = between (rev_int (fst e)) n g"
    unfolding between_def filter_filter by (rule filter_cong) auto
  with es show "between (rev_int (fst e)) n (filter (\<lambda>x. x \<noteq> e) g) = es" by simp
  have upto: "x = e \<or> rev_int (fst x) \<le> p" if "x \<in> set g" "rev_int (fst x) \<le> rev_int (fst e)" for x
  proof (rule ccontr)
    assume "\<not> (x = e \<or> rev_int (fst x) \<le> p)"
    with that have "x \<in> set (between p (rev_int (fst e)) g)" "x \<noteq> e" by (simp_all add: between_def)
    with b(3) show False by simp
  qed
  note old = compacting_begin [OF assms(1) e b(2)]
  show "compacting n h H g (rev_int (fst e))" if "live g e"
    using assms(1) b(2) upto c(7) old(2) that compacting_live [OF assms(1)] unfolding compacting_def by blast
  show "compacting n h H (filter (\<lambda>x. x \<noteq> e) g) (rev_int (fst e))" if dead: "\<not> live g e"
  proof -
    let ?g = "filter (\<lambda>x. x \<noteq> e) g"
    have g: "g = filter (\<lambda>e. e \<in> set g) H" using assms(1) by (simp add: compacting_def)
    have "?g = filter (\<lambda>x. x \<in> set ?g) H" by (subst g) (auto simp: conj_commute intro!: filter_cong)
    moreover have "x \<in> set ?g" if "x \<in> set H" "n < rev_int (fst x) \<or> live H x" for x
      using c(6) [OF that] that dead compacting_live [OF assms(1)] b(2) by auto
    moreover have "live h x" if "x \<in> set ?g" "rev_int (fst x) \<le> rev_int (fst e)" for x
      using upto [of x] c(7) [of x] that by auto
    moreover have "rev_int (fst x) < rev_int (fst y)" if "x \<in> set H" "y \<in> set ?g" "x \<notin> set ?g" "entry_key x = entry_key y" for x y
    proof (cases "x = e")
      case True
      have rh: "rising h" using c(1,2) by (auto simp: extends_def sorted_wrt_append)
      have "live h y" if "rev_int (fst y) \<le> rev_int (fst e)" using upto [of y] c(7) [of y] \<open>y \<in> set ?g\<close> that by auto
      then have "rev_int (fst e) = rev_int (fst y)" if "rev_int (fst y) \<le> rev_int (fst e)"
        using old(1) that \<open>entry_key x = entry_key y\<close> True unfolding live_iff [OF rh] by (meson order_antisym)
      with rising_inj [OF c(5) e, of y] \<open>y \<in> set ?g\<close> True show ?thesis by fastforce
    next
      case False
      with that c(8) [of x y] show ?thesis by auto
    qed
    ultimately show ?thesis using c(1,2) b(2) unfolding compacting_def by blast
  qed
qed

lemma compacting_env:
  assumes "compacting n h H g p" "\<forall>x\<in>set H. \<forall>y\<in>set h'. rev_int (fst x) < rev_int (fst y)" "\<forall>y\<in>set h'. n < rev_int (fst y)" "rising h'"
  shows "compacting n h (H @ h') (g @ h') p"
proof -
  note c = compactingD [OF assms(1)]
  have H: "rising (H @ h')" using c(1) assms(2,4) by (simp add: sorted_wrt_append)
  have disj: "x \<notin> set h'" if "x \<in> set H" for x using assms(2) that by blast
  have g: "g = filter (\<lambda>e. e \<in> set g) H" using assms(1) by (simp add: compacting_def)
  have "filter (\<lambda>e. e \<in> set (g @ h')) (H @ h') = filter (\<lambda>e. e \<in> set g) H @ h'"
    using disj by (auto simp: filter_id_conv intro!: filter_cong)
  with g have "g @ h' = filter (\<lambda>e. e \<in> set (g @ h')) (H @ h')" by simp
  moreover have "e \<in> set (g @ h')" if "e \<in> set (H @ h')" "n < rev_int (fst e) \<or> live (H @ h') e" for e
    using that c(6) [of e] unfolding live_iff [OF H] live_iff [OF c(1)] by auto
  moreover have "live h e" if "e \<in> set (g @ h')" "rev_int (fst e) \<le> p" for e
  proof -
    have "\<not> n < rev_int (fst e)" using that(2) c(3) by simp
    then have "e \<notin> set h'" using assms(3) by blast
    with that c(7) show ?thesis by simp
  qed
  moreover have "rev_int (fst x) < rev_int (fst y)"
    if "x \<in> set (H @ h')" "y \<in> set (g @ h')" "x \<notin> set (g @ h')" "entry_key x = entry_key y" for x y
    using that c(8) [of x y] assms(2) by auto
  moreover have "extends n h (H @ h')" by (rule extends_append [OF c(2) order_refl assms(3)])
  ultimately show ?thesis using H c(3) unfolding compacting_def by blast
qed

lemma compacting_back: "compacting n h H g p \<Longrightarrow> p' \<le> p \<Longrightarrow> compacting n h H g p'"
  unfolding compacting_def by (auto intro: order_trans)

lemma compacting_done: "compacting n h H g p \<Longrightarrow> between p n g = [] \<Longrightarrow> compacting n h H g n"
  unfolding compacting_def between_def filter_empty_conv by (meson not_le order_refl)

section \<open>Removing an entry\<close>

context fdb_driver
begin

lemma represents_remove:
  assumes rep: "represents f m g" and e: "e \<in> set g" and "\<And>x. live (filter (\<lambda>x. x \<noteq> e) g) x \<longleftrightarrow> live g x"
    and m1: "\<And>k. prefix (f_byRevision f) k \<Longrightarrow> m' k = (if prefix (f_byRevision f @ tuple_Pack L [TVersionstamp (fst e)]) k then None else m k)"
    and m2: "\<And>k. prefix (f_byKeyAndRevision f) k \<Longrightarrow> m' k = (if k = fst (index_kv L (f_byKeyAndRevision f) e) then None else m k)"
    and m3: "\<And>k. prefix (f_byKeyCurrent f) k \<Longrightarrow> m' k = m k"
  shows "represents f m' (filter (\<lambda>x. x \<noteq> e) g)"
proof -
  let ?g = "filter (\<lambda>x. x \<noteq> e) g" and ?p = "f_byRevision f" and ?q = "f_byKeyAndRevision f"
  have wf: "hist_wf g" and ok: "\<forall>e\<in>set g. entry_ok L e" and a1: "agree_on ?p m (concat (map (rev_kvs L ?p) g))"
    and a2: "agree_on ?q m (map (index_kv L ?q) g)" and a3: "current_agrees L (f_byKeyCurrent f) m g"
    using rep by (simp_all add: represents_def del: driver_simps(3-5))
  have wf': "hist_wf ?g" using wf by (auto simp: hist_wf_def hist_sorted_def intro: sorted_wrt_filter)
  have ew: "entry_wf x" if "x \<in> set g" for x using wf that by (simp add: hist_wf_def)
  have "elem_ok (TVersionstamp (fst e))" using ew [OF e] by (simp add: entry_wf_def)
  then have pre: "prefix (?p @ tuple_Pack L [TVersionstamp (fst e)]) k \<longleftrightarrow> x = e" if "x \<in> set g" "(k, v) \<in> set (rev_kvs L ?p x)" for x k v
    using rev_kvs_prefix_iff [OF ew [OF that(1)] _ that(2)] hist_rev_inj [OF _ that(1) e] wf by (auto simp: hist_wf_def)
  have "agree_on ?p m' (concat (map (rev_kvs L ?p) ?g))"
    unfolding agree_on_def
  proof (intro allI impI)
    fix k assume k: "prefix ?p k"
    have "m' k = Some v \<longleftrightarrow> map_of (concat (map (rev_kvs L ?p) ?g)) k = Some v" for v
    proof -
      have "m' k = Some v \<longleftrightarrow> m k = Some v \<and> \<not> prefix (?p @ tuple_Pack L [TVersionstamp (fst e)]) k" unfolding m1 [OF k] by simp
      also have "m k = map_of (concat (map (rev_kvs L ?p) g)) k" using a1 k unfolding agree_on_def by blast
      finally have "m' k = Some v \<longleftrightarrow> (\<exists>x\<in>set g. (k, v) \<in> set (rev_kvs L ?p x)) \<and> \<not> prefix (?p @ tuple_Pack L [TVersionstamp (fst e)]) k"
        unfolding map_of_concat_rev_kvs [OF wf] .
      then show ?thesis unfolding map_of_concat_rev_kvs [OF wf'] set_filter using pre by blast
    qed
    then show "m' k = map_of (concat (map (rev_kvs L ?p) ?g)) k" by (metis not_Some_eq)
  qed
  moreover have "agree_on ?q m' (map (index_kv L ?q) ?g)"
    unfolding agree_on_def
  proof (intro allI impI)
    fix k assume k: "prefix ?q k"
    have key: "k = fst (index_kv L ?q e) \<longleftrightarrow> x = e" if "x \<in> set g" "index_kv L ?q x = (k, v)" for x v
      using index_key_inj [OF wf, unfolded driver_simps(1)] that e by (metis fst_conv inj_onD)
    have "m' k = Some v \<longleftrightarrow> map_of (map (index_kv L ?q) ?g) k = Some v" for v
    proof -
      have "m' k = Some v \<longleftrightarrow> m k = Some v \<and> k \<noteq> fst (index_kv L ?q e)" unfolding m2 [OF k] by simp
      also have "m k = map_of (map (index_kv L ?q) g) k" using a2 k unfolding agree_on_def by blast
      finally have "m' k = Some v \<longleftrightarrow> (\<exists>x\<in>set g. index_kv L ?q x = (k, v)) \<and> k \<noteq> fst (index_kv L ?q e)"
        unfolding map_of_index_kvs [OF wf] .
      then show ?thesis unfolding map_of_index_kvs [OF wf'] set_filter using key by blast
    qed
    then show "m' k = map_of (map (index_kv L ?q) ?g) k" by (metis not_Some_eq)
  qed
  moreover have "current_agrees L (f_byKeyCurrent f) m' ?g"
    using a3 assms(3) m3 by (simp add: current_agrees_def del: driver_simps(5))
  ultimately show ?thesis using wf' ok by (simp add: represents_def del: driver_simps(3-5))
qed

end

end
