(* ===== verification/FDB_Values.thy ===== *)
theory FDB_Values
  imports FDB_Snapshot
begin

text \<open>
  The values of listed records: the merge-join with the chunks of the current values, and the fetch by revision of
  what the join does not find.
\<close>

section \<open>The merge-join\<close>

abbreviation rec_key :: "RevRecord \<Rightarrow> bytes" where
  "rec_key r \<equiv> r_Key (rr_Record r)"

lemma skipRecords_bounds:
  assumes "idx \<le> length recs"
  shows "idx \<le> skipRecords recs key idx" "skipRecords recs key idx \<le> length recs"
  using assms length_takeWhile_le [of "\<lambda>r. rec_key r < key" "drop idx recs"] by (auto simp: skipRecords_def)

lemma skipRecords_below:
  assumes "idx \<le> i" "i < skipRecords recs key idx" "idx \<le> length recs"
  shows "rec_key (recs ! i) < key"
proof -
  have "drop idx recs ! (i - idx) \<in> set (takeWhile (\<lambda>r. rec_key r < key) (drop idx recs))"
    using assms by (metis (no_types, lifting) skipRecords_def add_diff_inverse_nat nat_add_left_cancel_less not_less nth_mem takeWhile_nth)
  with assms show ?thesis by (auto dest: set_takeWhileD)
qed

lemma skipRecords_stop:
  assumes "skipRecords recs key idx < length recs" "idx \<le> length recs"
  shows "\<not> rec_key (recs ! skipRecords recs key idx) < key"
  using assms nth_length_takeWhile [of "\<lambda>r. rec_key r < key" "drop idx recs"] by (auto simp: skipRecords_def)

text \<open>
  The buffers after the join: a flagged record has the chunks of its key appended, also when the
  iterator broke off at a key beyond the records (\<open>rest\<close> is what it did not deliver).
\<close>

definition joined :: "(kv \<Rightarrow> bytes) \<Rightarrow> RevRecord list \<Rightarrow> kv list \<Rightarrow> bytes list \<Rightarrow> bytes list \<Rightarrow> bool" where
  "joined ck recs kvs bufs bufs' \<longleftrightarrow>
     length bufs' = length recs \<and>
     (\<forall>i<length recs. bufs' ! i = bufs ! i @
        (if r_LatestForKey (rr_Record (recs ! i)) then concat (map snd (filter (\<lambda>kv. ck kv = rec_key (recs ! i)) kvs)) else []))"

lemma joined_hit:
  assumes "j < length recs" "rec_key (recs ! j) = ck kv" "r_LatestForKey (rr_Record (recs ! j))" "length bufs = length recs"
    and "\<forall>i<length recs. rec_key (recs ! i) = ck kv \<longrightarrow> i = j" "joined ck recs kvs (bufs[j := bufs ! j @ snd kv]) bufs'"
  shows "joined ck recs (kv # kvs) bufs bufs'"
  unfolding joined_def
proof (intro conjI allI impI)
  show "length bufs' = length recs" using assms(6) by (simp add: joined_def)
  fix i assume i: "i < length recs"
  then have b: "bufs' ! i = bufs[j := bufs ! j @ snd kv] ! i @ (if r_LatestForKey (rr_Record (recs ! i))
      then concat (map snd (filter (\<lambda>kv. ck kv = rec_key (recs ! i)) kvs)) else [])"
    using assms(6) by (simp add: joined_def)
  show "bufs' ! i = bufs ! i @ (if r_LatestForKey (rr_Record (recs ! i))
      then concat (map snd (filter (\<lambda>kv. ck kv = rec_key (recs ! i)) (kv # kvs))) else [])"
  proof (cases "i = j")
    case True
    with b assms(1-4) show ?thesis by simp
  next
    case False
    then have "ck kv \<noteq> rec_key (recs ! i)" using assms(5) i by metis
    with b False show ?thesis by simp
  qed
qed

lemma joined_miss:
  assumes "\<forall>i<length recs. \<not> (ck kv = rec_key (recs ! i) \<and> r_LatestForKey (rr_Record (recs ! i)))" "joined ck recs kvs bufs bufs'"
  shows "joined ck recs (kv # kvs) bufs bufs'"
  using assms by (auto simp: joined_def)

lemma mergeChunks_joined:
  assumes "\<forall>kv\<in>set kvs. ByKeyCurrent_parseKV f kv = Ok \<lparr>dc_key = ck kv, dc_value = snd kv\<rparr>"
    and "sorted (map ck (kvs @ rest))" "sorted_wrt (<) (map rec_key recs)" "\<forall>r\<in>set recs. 0 \<le> r_ValueSize (rr_Record r)"
    and "tail = [] \<and> rest = [] \<or> (\<exists>err. tail = [Inl err])"
    and "length bufs = length recs" "idx \<le> length recs" "\<forall>i<idx. \<forall>kv\<in>set (kvs @ rest). rec_key (recs ! i) < ck kv"
  shows "(\<exists>e. mergeChunks f recs (map Inr kvs @ tail) idx bufs = Err e) \<or>
    (\<exists>bufs'. mergeChunks f recs (map Inr kvs @ tail) idx bufs = Ok bufs' \<and> joined ck recs (kvs @ rest) bufs bufs')"
  using assms
proof (induction kvs arbitrary: idx bufs)
  case Nil
  then show ?case by (auto simp: joined_def)
next
  case (Cons kv kvs)
  let ?i = "skipRecords recs (ck kv) idx"
  let ?r = "rr_Record (recs ! ?i)"
  have parse: "ByKeyCurrent_parseKV f kv = Ok \<lparr>dc_key = ck kv, dc_value = snd kv\<rparr>" using Cons.prems(1) by simp
  have ge: "\<forall>kv'\<in>set (kvs @ rest). ck kv \<le> ck kv'" using Cons.prems(2) by auto
  have below: "rec_key (recs ! i) < ck kv" if "i < ?i" for i
    using skipRecords_below [of idx i recs "ck kv"] Cons.prems(7,8) that by (cases "idx \<le> i") auto
  then have below': "\<forall>i<?i. \<forall>kv'\<in>set (kvs @ rest). rec_key (recs ! i) < ck kv'" using ge by (meson order.strict_trans2)
  note IH = Cons.IH [OF _ _ Cons.prems(3-5) _ skipRecords_bounds(2) [OF Cons.prems(7)] below']
  show ?case
  proof (cases "?i = length recs")
    case True
    have "mergeChunks f recs (map Inr (kv # kvs) @ tail) idx bufs = Ok bufs" using parse True by (simp add: Let_def)
    moreover have "filter (\<lambda>kv'. ck kv' = rec_key (recs ! i)) ((kv # kvs) @ rest) = []" if "i < length recs" for i
      unfolding filter_empty_conv using that below [of i] below' True by (metis append_Cons less_irrefl set_ConsD)
    ultimately show ?thesis using Cons.prems(6) by (simp add: joined_def)
  next
    case False
    then have lt: "?i < length recs" using skipRecords_bounds(2) [OF Cons.prems(7), of "ck kv"] by simp
    then have stop: "\<not> rec_key (recs ! ?i) < ck kv" using skipRecords_stop Cons.prems(7) by blast
    have above: "rec_key (recs ! ?i) < rec_key (recs ! i)" if "?i < i" "i < length recs" for i
      using Cons.prems(3) that by (auto simp: sorted_wrt_iff_nth_less)
    have only: "i = ?i" if "i < length recs" "rec_key (recs ! i) = ck kv" for i
      using that below [of i] above [of i] stop by (metis less_irrefl not_less_iff_gr_or_eq)
    show ?thesis
    proof (cases "r_Key ?r = ck kv \<and> r_LatestForKey ?r")
      case True
      have "mergeChunks f recs (map Inr (kv # kvs) @ tail) idx bufs = mergeChunks f recs (map Inr kvs @ tail) ?i (bufs[?i := bufs ! ?i @ snd kv])"
        using parse False True nth_mem [OF lt] Cons.prems(4) by (auto simp: Let_def not_less)
      moreover have "joined ck recs ((kv # kvs) @ rest) bufs bufs'"
        if "joined ck recs (kvs @ rest) (bufs[?i := bufs ! ?i @ snd kv]) bufs'" for bufs'
        using joined_hit [OF lt _ _ Cons.prems(6) _ that] True only by simp
      ultimately show ?thesis using IH [of "bufs[?i := bufs ! ?i @ snd kv]"] Cons.prems(1,2,6) by auto
    next
      case f: False
      have "mergeChunks f recs (map Inr (kv # kvs) @ tail) idx bufs = mergeChunks f recs (map Inr kvs @ tail) ?i bufs"
        using parse False f by (auto simp: Let_def)
      moreover have "\<forall>i<length recs. \<not> (ck kv = rec_key (recs ! i) \<and> r_LatestForKey (rr_Record (recs ! i)))"
        using f only by metis
      note miss = joined_miss [of recs ck kv "kvs @ rest" bufs, OF this]
      ultimately show ?thesis using IH [of bufs] miss Cons.prems(1,2,6) by auto
    qed
  qed
qed

section \<open>The chunks between two keys\<close>

lemma sorted_kvs_eq:
  fixes xs ys :: "kv list"
  assumes "sorted_wrt (<) (map fst xs)" "sorted_wrt (<) (map fst ys)" "set xs = set ys"
  shows "xs = ys"
proof -
  have "distinct (map fst ys)" using assms(2) by (simp add: strict_sorted_iff)
  then have "(k, v) \<in> set ys \<longleftrightarrow> map_of ys k = Some v \<and> True" for k v by simp
  then have "range_list (map_of ys) (\<lambda>_. True) = ys" "range_list (map_of ys) (\<lambda>_. True) = xs"
    using assms by (intro range_list_unique; simp add: finite_dom_map_of strict_sorted_iff)+
  then show ?thesis by simp
qed

definition chunk_key :: "('d, 't) FDB \<Rightarrow> kv \<Rightarrow> bytes" where
  "chunk_key f kv = (case ByKeyCurrent_parseKV f kv of Ok c \<Rightarrow> dc_key c | _ \<Rightarrow> [])"

abbreviation live_kvs :: "('d, 't) FDB \<Rightarrow> entry \<Rightarrow> kv list" where
  "live_kvs f e \<equiv> current_kvs (f_lib f) (f_byKeyCurrent f) (entry_key e, r_Value (snd e))"

lemma live_unique: "live h e \<Longrightarrow> live h e' \<Longrightarrow> entry_key e = entry_key e' \<Longrightarrow> e = e'"
  unfolding live_def entry_key_def by (metis option.inject)

lemma sound_live:
  assumes "hist_wf h" "e \<in> set h" "\<not> r_IsDelete (snd e)" "sound_flag (set h) {} (e, True)"
  shows "live h e"
proof -
  let ?es = "filter (\<lambda>x. r_Key (snd x) = r_Key (snd e)) h"
  have in_es: "e \<in> set ?es" using assms(2) by simp
  then obtain es x where es: "?es = es @ [x]" by (cases ?es rule: rev_cases) auto
  have "sorted_wrt (\<lambda>e e'. vs_key (fst e) < vs_key (fst e')) ?es"
    using assms(1) by (auto simp: hist_wf_def hist_sorted_def intro: sorted_wrt_filter)
  then have lt: "\<forall>y\<in>set es. vs_key (fst y) < vs_key (fst x)" unfolding es by (simp add: sorted_wrt_append)
  have "x \<in> set ?es" unfolding es by simp
  then have x: "x \<in> set h \<and> r_Key (snd x) = r_Key (snd e)" by simp
  have "e = x"
  proof (rule ccontr)
    assume "e \<noteq> x"
    with in_es es lt have "vs_key (fst e) < vs_key (fst x)" by simp
    with x assms(4) show False by (auto simp: sound_flag_def later_def entry_key_def)
  qed
  moreover have "last_entry h (r_Key (snd e)) = Some x" using es by (simp add: last_entry_def Let_def)
  ultimately show ?thesis using assms(3) by (simp add: live_def)
qed

context fdb_driver
begin

lemma live_kvs_facts:
  assumes "represents f m h" "live h e" "kv \<in> set (live_kvs f e)"
  shows "\<exists>a. elem_ok a \<and> fst kv = f_byKeyCurrent f @ tuple_Pack L [TString (entry_key e), a]"
    and "ByKeyCurrent_parseKV f kv = Ok \<lparr>dc_key = entry_key e, dc_value = snd kv\<rparr>" "chunk_key f kv = entry_key e"
    and "m (fst kv) = Some (snd kv)"
proof -
  have "length (r_Value (snd e)) < 2 ^ 62"
    using assms(1) live_in [OF assms(2)] by (simp add: represents_def entry_ok_def)
  then have len: "length (r_Value (snd e)) < 2 ^ 63" by simp
  show a: "\<exists>a. elem_ok a \<and> fst kv = f_byKeyCurrent f @ tuple_Pack L [TString (entry_key e), a]"
    using chunk_kvs_prefix [of "[TString (entry_key e)]", OF _ len] assms(3) by (simp add: current_kvs_def del: driver_simps(5))
  have kv: "kv \<in> set (current_kvs L (f_byKeyCurrent f) (entry_key e, r_Value (snd e)))"
    using assms(3) by (simp del: driver_simps(5))
  show p: "ByKeyCurrent_parseKV f kv = Ok \<lparr>dc_key = entry_key e, dc_value = snd kv\<rparr>"
    by (rule ByKeyCurrent_parseKV_chunk [OF kv len])
  then show "chunk_key f kv = entry_key e" by (simp add: chunk_key_def)
  from a have "prefix (f_byKeyCurrent f) (fst kv)" by auto
  with assms(1,2) kv show "m (fst kv) = Some (snd kv)"
    unfolding represents_def current_agrees_def driver_simps(1) entry_key_def by (metis prod.collapse)
qed

lemma live_kvs_less:
  assumes "represents f m h" "live h e" "kv \<in> set (live_kvs f e)" "live h e'" "kv' \<in> set (live_kvs f e')"
    and "entry_key e < entry_key e'"
  shows "fst kv < fst kv'"
proof -
  from live_kvs_facts(1) [OF assms(1-3)] live_kvs_facts(1) [OF assms(1,4,5)] obtain a a' where
    "elem_ok a" "fst kv = f_byKeyCurrent f @ tuple_Pack L [TString (entry_key e), a]"
    "elem_ok a'" "fst kv' = f_byKeyCurrent f @ tuple_Pack L [TString (entry_key e'), a']" by blast
  with assms(6) pack_less [of "TString (entry_key e)" "[a]" "TString (entry_key e')" "[a']"] show ?thesis
    by (simp del: driver_simps(5))
qed

text \<open>The range of the join: it holds the chunks of the live entries between the two keys, and only chunks of live entries.\<close>

lemma RangeForKeys_eq:
  obtains b where "ByKeyCurrent_RangeForKeys f k1 k2
      = Ok (FirstGreaterOrEqual (f_byKeyCurrent f @ tuple_Pack L [TString k1]), FirstGreaterOrEqual b)"
    and "\<And>k. (f_byKeyCurrent f @ tuple_Pack L [TString k2] \<le> k \<and> k < b)
      \<longleftrightarrow> prefix (f_byKeyCurrent f @ tuple_Pack L [TString k2]) k"
proof -
  from strinc_subspace [of "[TString k2]" "str ''byKeyCurrent''"] obtain b where
    b: "fdb_Strinc L (f_byKeyCurrent f @ tuple_Pack L [TString k2]) = Inr b" by auto
  show ?thesis
    by (rule that [of b]) (simp_all add: ByKeyCurrent_RangeForKeys_def spack_eq b strinc_range [OF b] del: driver_simps(5))
qed

lemma range_in_subspace:
  assumes "f_byKeyCurrent f @ tuple_Pack L [TString k1] \<le> k" "k < b"
    and b: "\<And>k. (f_byKeyCurrent f @ tuple_Pack L [TString k2] \<le> k \<and> k < b)
      \<longleftrightarrow> prefix (f_byKeyCurrent f @ tuple_Pack L [TString k2]) k"
  shows "prefix (f_byKeyCurrent f) k"
proof (cases "f_byKeyCurrent f @ tuple_Pack L [TString k2] \<le> k")
  case True
  with b [of k] assms(2) show ?thesis by (auto intro: append_prefixD simp del: driver_simps(5))
next
  case False
  show ?thesis
    by (rule prefix_convex [OF _ _ assms(1), of _ "f_byKeyCurrent f @ tuple_Pack L [TString k2]"])
      (use False in \<open>simp_all del: driver_simps(5)\<close>)
qed

lemma live_kvs_in_range:
  assumes rep: "represents f m h" "live h e" "kv \<in> set (live_kvs f e)" and "k1 \<le> entry_key e" "entry_key e \<le> k2"
    and b: "\<And>k. (f_byKeyCurrent f @ tuple_Pack L [TString k2] \<le> k \<and> k < b)
      \<longleftrightarrow> prefix (f_byKeyCurrent f @ tuple_Pack L [TString k2]) k"
  shows "f_byKeyCurrent f @ tuple_Pack L [TString k1] \<le> fst kv" "fst kv < b"
proof -
  let ?p = "f_byKeyCurrent f"
  from live_kvs_facts(1) [OF rep] obtain a where
    a: "elem_ok a" "fst kv = ?p @ tuple_Pack L [TString (entry_key e), a]" by blast
  have pre: "prefix (?p @ tuple_Pack L [TString (entry_key e)]) (fst kv)"
    using a pack_Cons [of "TString (entry_key e)" "[a]"] by (simp del: driver_simps(5))
  show "?p @ tuple_Pack L [TString k1] \<le> fst kv"
  proof (cases "k1 = entry_key e")
    case True
    with pre show ?thesis using prefix_imp_le by blast
  next
    case False
    with assms(4) a pack_less [of "TString k1" "[]" "TString (entry_key e)" "[a]"] show ?thesis
      by (simp add: less_imp_le del: driver_simps(5))
  qed
  show "fst kv < b"
  proof (cases "entry_key e = k2")
    case True
    with pre b [of "fst kv"] show ?thesis by (simp del: driver_simps(5))
  next
    case False
    with assms(5) a pack_less [of "TString (entry_key e)" "[a]" "TString k2" "[]"]
    have "fst kv < ?p @ tuple_Pack L [TString k2]" by (simp del: driver_simps(5))
    with b [of "?p @ tuple_Pack L [TString k2]"] show ?thesis by auto
  qed
qed

lemma current_range:
  assumes rep: "represents f m h" and "finite (dom m)"
    and b: "\<And>k. (f_byKeyCurrent f @ tuple_Pack L [TString k2] \<le> k \<and> k < b)
      \<longleftrightarrow> prefix (f_byKeyCurrent f @ tuple_Pack L [TString k2]) k"
    and kvs: "kvs = sel_range m (FirstGreaterOrEqual (f_byKeyCurrent f @ tuple_Pack L [TString k1])) (FirstGreaterOrEqual b)"
  shows "\<forall>kv\<in>set kvs. \<exists>e. live h e \<and> kv \<in> set (live_kvs f e)" "sorted (map (chunk_key f) kvs)"
    and "live h e \<Longrightarrow> k1 \<le> entry_key e \<Longrightarrow> entry_key e \<le> k2 \<Longrightarrow> filter (\<lambda>kv. chunk_key f kv = entry_key e) kvs = live_kvs f e"
proof -
  have in_kvs: "kv \<in> set kvs \<longleftrightarrow> m (fst kv) = Some (snd kv) \<and> f_byKeyCurrent f @ tuple_Pack L [TString k1] \<le> fst kv \<and> fst kv < b" for kv
    using set_range_list [OF assms(2)] by (cases kv) (simp add: kvs sel_range_def del: driver_simps(5))
  show chunks: "\<forall>kv\<in>set kvs. \<exists>e. live h e \<and> kv \<in> set (live_kvs f e)"
  proof
    fix kv assume "kv \<in> set kvs"
    then have kv: "m (fst kv) = Some (snd kv)" "f_byKeyCurrent f @ tuple_Pack L [TString k1] \<le> fst kv" "fst kv < b"
      using in_kvs by blast+
    have "prefix (f_byKeyCurrent f) (fst kv)" by (rule range_in_subspace [OF kv(2,3) b])
    with rep kv(1) obtain e where "live h e" "(fst kv, snd kv) \<in> set (current_kvs L (f_byKeyCurrent f) (r_Key (snd e), r_Value (snd e)))"
      unfolding represents_def current_agrees_def driver_simps(1) by blast
    then show "\<exists>e. live h e \<and> kv \<in> set (live_kvs f e)" unfolding entry_key_def driver_simps(1) prod.collapse by blast
  qed
  have strict: "sorted_wrt (<) (map fst kvs)"
    using range_list_sorted range_list_distinct by (auto simp: kvs sel_range_def strict_sorted_iff simp del: driver_simps(5))
  have "chunk_key f kv \<le> chunk_key f kv'" if kv: "kv \<in> set kvs" "kv' \<in> set kvs" "fst kv < fst kv'" for kv kv'
  proof -
    from chunks kv obtain e e' where e: "live h e" "kv \<in> set (live_kvs f e)" "live h e'" "kv' \<in> set (live_kvs f e')" by blast
    from live_kvs_less [OF rep e(3,4,1,2)] kv(3) have "\<not> entry_key e' < entry_key e" by (auto simp del: driver_simps(5))
    with live_kvs_facts(3) [OF rep e(1,2)] live_kvs_facts(3) [OF rep e(3,4)] show ?thesis by simp
  qed
  then have "sorted_wrt (\<lambda>kv kv'. chunk_key f kv \<le> chunk_key f kv') kvs"
    by (rule sorted_wrt_mono_rel [OF _ strict [unfolded sorted_wrt_map]])
  then show "sorted (map (chunk_key f) kvs)" by (simp add: sorted_wrt_map)
  assume e: "live h e" "k1 \<le> entry_key e" "entry_key e \<le> k2"
  show "filter (\<lambda>kv. chunk_key f kv = entry_key e) kvs = live_kvs f e"
  proof (rule sorted_kvs_eq)
    show "sorted_wrt (<) (map fst (filter (\<lambda>kv. chunk_key f kv = entry_key e) kvs))"
      using strict unfolding sorted_wrt_map by (rule sorted_wrt_filter)
    have "length (r_Value (snd e)) < 2 ^ 62" using rep live_in [OF e(1)] by (simp add: represents_def entry_ok_def)
    then show "sorted_wrt (<) (map fst (live_kvs f e))"
      using chunk_kvs_sorted [of "[TString (entry_key e)]"] by (simp add: current_kvs_def del: driver_simps(5))
    have "chunk_key f kv = entry_key e \<and> kv \<in> set kvs \<longleftrightarrow> kv \<in> set (live_kvs f e)" for kv
      using chunks live_unique [OF _ e(1)] live_kvs_facts [OF rep] live_kvs_in_range [OF rep e(1) _ e(2,3) b] in_kvs [of kv] e(1)
      by (metis (no_types, lifting))
    then show "set (filter (\<lambda>kv. chunk_key f kv = entry_key e) kvs) = set (live_kvs f e)"
      unfolding set_filter by blast
  qed
qed

end

section \<open>A batch of the list collector\<close>

abbreviation batch_record :: "entry \<times> bool \<Rightarrow> RevRecord" where
  "batch_record cb \<equiv> \<lparr>rr_Rev = fst (fst cb), rr_Record = bk_Value (mark cb)\<rparr>"

text \<open>
  A record shows an entry: its revision and its content, with some value; \<open>sure\<close> findings with the value of the
  entry, or none if only keys were asked for.
\<close>

definition shows_value :: "bytes \<Rightarrow> entry \<Rightarrow> RevRecord \<Rightarrow> bool" where
  "shows_value v e r \<longleftrightarrow> rr_Rev r = fst e \<and>
     (\<exists>u b. rr_Record r = (snd e)\<lparr>r_Value := v, r_WriteUUID := u, r_LatestForKey := b\<rparr>)"

definition shows_known :: "bool \<Rightarrow> finding \<Rightarrow> RevRecord \<Rightarrow> bool" where
  "shows_known keysOnly k r \<longleftrightarrow>
     (\<exists>v. shows_value v (fst k) r \<and> (snd k \<longrightarrow> v = (if keysOnly then [] else r_Value (snd (fst k)))))"

lemma mark_value:
  "bk_Value (mark cb) = (snd (fst cb))\<lparr>r_Value := [], r_LatestForKey := snd cb\<rparr>"
  by (simp add: mark_def setLatestForKey_def index_record_def)

lemma shows_value_mark:
  "shows_value v (fst cb) \<lparr>rr_Rev = fst (fst cb), rr_Record = (bk_Value (mark cb))\<lparr>r_Value := v\<rparr>\<rparr>"
  unfolding shows_value_def by (auto intro!: exI [of _ "r_WriteUUID (snd (fst cb))"] exI [of _ "snd cb"] simp: mark_value)

lemma joinedRecord_eq:
  "r_ValueSize (snd (fst cb)) = int (length v) \<Longrightarrow> v = [] \<or> buf = v \<Longrightarrow>
    joinedRecord (batch_record cb) buf = \<lparr>rr_Rev = fst (fst cb), rr_Record = (bk_Value (mark cb))\<lparr>r_Value := v\<rparr>\<rparr>"
  by (auto simp: joinedRecord_def mark_value)

text \<open>What the fetch by revision leaves of the records: \<open>ent i\<close> is the entry of record \<open>i\<close>.\<close>

definition fetched :: "(nat \<Rightarrow> entry) \<Rightarrow> nat set \<Rightarrow> RevRecord list \<Rightarrow> RevRecord list \<Rightarrow> bool" where
  "fetched ent I recs recs' \<longleftrightarrow>
     length recs' = length recs \<and>
     (\<forall>i<length recs. recs' ! i =
        (if i \<in> I then \<lparr>rr_Rev = fst (ent i), rr_Record = by_revision_record (snd (ent i))\<rparr> else recs ! i))"

lemma fetched_trans: "fetched ent I recs recs1 \<Longrightarrow> fetched ent J recs1 recs2 \<Longrightarrow> fetched ent (I \<union> J) recs recs2"
  by (auto simp: fetched_def)

lemma fetched_refl: "fetched ent {} recs recs"
  by (simp add: fetched_def)

lemma fetched_revs:
  "fetched ent I recs recs' \<Longrightarrow> \<forall>i<length recs. rr_Rev (recs ! i) = fst (ent i) \<Longrightarrow> \<forall>i<length recs'. rr_Rev (recs' ! i) = fst (ent i)"
  by (auto simp: fetched_def)

definition iterator_of :: "('d, 't) FDB \<Rightarrow> entry \<Rightarrow> iter \<Rightarrow> bool" where
  "iterator_of f e it \<longleftrightarrow>
     (\<exists>it'. ByRevision_GetFromIterator f it = Ok (Some (fst e, by_revision_record (snd e)), it')) \<or>
     (\<exists>err. ByRevision_GetFromIterator f it = Err err)"

text \<open>The buffers of the join, for the records whose flag is right.\<close>

definition right_buffer :: "entry list \<Rightarrow> entry \<times> bool \<Rightarrow> bytes \<Rightarrow> bool" where
  "right_buffer h cb buf \<longleftrightarrow>
     (sound_flag (set h) {} cb \<longrightarrow> buf = (if snd cb then r_Value (snd (fst cb)) else []))"

context fdb_driver
begin

lemma getIterators_sound:
  assumes "db_holds f d h R" "reads L t d" "\<forall>i\<in>set is. rr_Rev (recs ! i) = fst (ent i) \<and> ent i \<in> set h"
  shows "\<exists>its. getIterators f t recs is = Ok its \<and> map fst its = is \<and> (\<forall>(i, it)\<in>set its. iterator_of f (ent i) it)"
  using assms(3)
proof (induction "is")
  case Nil
  then show ?case by simp
next
  case (Cons i "is")
  have "represents f (tr_view L t) h" "tr_pending L t = []" using assms(1,2) by (simp_all add: db_holds_def reads_def)
  moreover have "(rr_Rev (recs ! i), snd (ent i)) \<in> set h" using Cons.prems by simp
  ultimately obtain it where "ByRevision_GetIterator f t (rr_Rev (recs ! i)) = Ok it" "iterator_of f (ent i) it"
    using ByRevision_fetch Cons.prems unfolding iterator_of_def by (metis list.set_intros(1))
  with Cons show ?case by fastforce
qed

lemma drainIterators_sound:
  assumes "\<forall>(i, it)\<in>set its. i < length recs \<and> iterator_of f (ent i) it" "drainIterators f its recs = (r, recs')"
  shows "(\<exists>e. r = Err e) \<or> r = Ok () \<and> fetched ent (fst ` set its) recs recs'"
  using assms
proof (induction its arbitrary: recs)
  case Nil
  then show ?case by (simp add: fetched_refl)
next
  case (Cons x its)
  obtain i it where x: "x = (i, it)" by (cases x)
  from Cons.prems(1) x have i: "i < length recs" "iterator_of f (ent i) it" by auto
  let ?recs = "recs[i := \<lparr>rr_Rev = fst (ent i), rr_Record = by_revision_record (snd (ent i))\<rparr>]"
  from i(2) consider (ok) it' where "ByRevision_GetFromIterator f it = Ok (Some (fst (ent i), by_revision_record (snd (ent i))), it')"
    | (err) e where "ByRevision_GetFromIterator f it = Err e" unfolding iterator_of_def by blast
  then show ?case
  proof cases
    case ok
    with Cons.prems(2) x have "drainIterators f its ?recs = (r, recs')" by simp
    with Cons.IH [of ?recs] Cons.prems(1) have "(\<exists>e. r = Err e) \<or> r = Ok () \<and> fetched ent (fst ` set its) ?recs recs'" by auto
    moreover have "fetched ent {i} recs ?recs" using i(1) by (auto simp: fetched_def nth_list_update)
    ultimately show ?thesis using fetched_trans x by fastforce
  next
    case err
    with Cons.prems(2) x show ?thesis by auto
  qed
qed

lemma fetchLegacy_sound:
  assumes "db_holds f d h R" "reads L t d" "\<forall>i<length recs. rr_Rev (recs ! i) = fst (ent i) \<and> ent i \<in> set h"
    and "\<forall>i\<in>set is. i < length recs" "listCollector_fetchLegacy f t is recs = (r, recs')"
  shows "(\<exists>e. r = Err e) \<or> r = Ok () \<and> fetched ent (set is) recs recs'"
  using assms(3-)
proof (induction "length is" arbitrary: "is" recs rule: less_induct)
  case less
  show ?case
  proof (cases "is = []")
    case True
    with less.prems(3) show ?thesis by (subst (asm) listCollector_fetchLegacy.simps) (simp add: fetched_refl)
  next
    case False
    let ?n = secondaryFetchPipeline
    have "\<forall>i\<in>set (take ?n is). rr_Rev (recs ! i) = fst (ent i) \<and> ent i \<in> set h"
      using less.prems(1,2) by (auto dest: in_set_takeD)
    from getIterators_sound [OF assms(1,2) this] obtain its where
      its: "getIterators f t recs (take ?n is) = Ok its" "map fst its = take ?n is" "\<forall>(i, it)\<in>set its. iterator_of f (ent i) it" by blast
    obtain r1 recs1 where d1: "drainIterators f its recs = (r1, recs1)" by fastforce
    have dom: "fst ` set its = set (take ?n is)" by (metis its(2) list.set_map)
    then have "\<forall>(i, it)\<in>set its. i < length recs \<and> iterator_of f (ent i) it"
      using its(3) less.prems(2) by (force dest: in_set_takeD)
    from drainIterators_sound [OF this d1] show ?thesis
    proof (elim disjE exE conjE)
      fix e assume "r1 = Err e"
      with less.prems(3) False its(1) d1 show ?thesis by (subst (asm) listCollector_fetchLegacy.simps) auto
    next
      assume ok: "r1 = Ok ()" "fetched ent (fst ` set its) recs recs1"
      with less.prems(3) False its(1) d1 have rest: "listCollector_fetchLegacy f t (drop ?n is) recs1 = (r, recs')"
        by (subst (asm) listCollector_fetchLegacy.simps) auto
      have "length (drop ?n is) < length is" using False by (simp add: secondaryFetchPipeline_def)
      moreover have "\<forall>i<length recs1. rr_Rev (recs1 ! i) = fst (ent i) \<and> ent i \<in> set h" "\<forall>i\<in>set (drop ?n is). i < length recs1"
        using ok(2) less.prems(1,2) by (auto simp: fetched_def dest: in_set_dropD)
      ultimately have "(\<exists>e. r = Err e) \<or> r = Ok () \<and> fetched ent (set (drop ?n is)) recs1 recs'" using less.hyps rest by blast
      moreover have "set (take ?n is) \<union> set (drop ?n is) = set is" by (metis append_take_drop_id set_append)
      ultimately show ?thesis using fetched_trans [OF ok(2)] dom by metis
    qed
  qed
qed

lemma join_iterator:
  assumes holds: "db_holds f d h R" and rd: "reads L t d"
  obtains b e kvs n tail where "ByKeyCurrent_RangeForKeys f k1 k2 = Ok (b, e)"
    and "tr_GetRange L True t b e \<lparr>ro_Limit = 0, ro_Mode = StreamingModeWantAll, ro_Reverse = False\<rparr> = map Inr (take n kvs) @ tail"
    and "tail = [] \<and> drop n kvs = [] \<or> (\<exists>err. tail = [Inl err])"
    and "\<forall>kv\<in>set kvs. ByKeyCurrent_parseKV f kv = Ok \<lparr>dc_key = chunk_key f kv, dc_value = snd kv\<rparr>" "sorted (map (chunk_key f) kvs)"
    and "\<And>e. live h e \<Longrightarrow> k1 \<le> entry_key e \<Longrightarrow> entry_key e \<le> k2 \<Longrightarrow> filter (\<lambda>kv. chunk_key f kv = entry_key e) kvs = live_kvs f e"
proof -
  have rep: "represents f (db_view L d) h" using holds by (simp add: db_holds_def)
  have t: "tr_view L t = db_view L d" "tr_pending L t = []" using rd by (simp_all add: reads_def)
  let ?b = "FirstGreaterOrEqual (f_byKeyCurrent f @ tuple_Pack L [TString k1])"
  obtain e where e: "ByKeyCurrent_RangeForKeys f k1 k2 = Ok (?b, FirstGreaterOrEqual e)"
    and e2: "\<And>k. (f_byKeyCurrent f @ tuple_Pack L [TString k2] \<le> k \<and> k < e)
      \<longleftrightarrow> prefix (f_byKeyCurrent f @ tuple_Pack L [TString k2]) k" by (rule RangeForKeys_eq [of k1 k2]) blast
  define kvs where "kvs = sel_range (db_view L d) ?b (FirstGreaterOrEqual e)"
  note cr = current_range [OF rep finite_view [of t, unfolded t(1)] e2 kvs_def]
  have parse: "\<forall>kv\<in>set kvs. ByKeyCurrent_parseKV f kv = Ok \<lparr>dc_key = chunk_key f kv, dc_value = snd kv\<rparr>"
    using cr(1) live_kvs_facts(2,3) [OF rep] by metis
  let ?o = "\<lparr>ro_Limit = 0, ro_Mode = StreamingModeWantAll, ro_Reverse = False\<rparr>"
  from range_sound [OF t(2), of ?o ?b "FirstGreaterOrEqual e" True]
  have "tr_GetRange L True t ?b (FirstGreaterOrEqual e) ?o = map Inr kvs \<or>
      (\<exists>n err. tr_GetRange L True t ?b (FirstGreaterOrEqual e) ?o = map Inr (take n kvs) @ [Inl err])"
    by (simp add: Let_def limited_def kvs_def t(1) del: driver_simps(5))
  then show ?thesis
    using that [OF e _ _ parse cr(2,3), of "length kvs" "[]"] that [OF e _ _ parse cr(2,3)] by auto
qed

lemma join_batch:
  assumes holds: "db_holds f d h R" and rd: "reads L t d" and ne: "ems \<noteq> []"
    and in_h: "\<forall>cb\<in>set ems. fst cb \<in> set h \<and> \<not> r_IsDelete (snd (fst cb))"
    and sorted: "sorted_wrt (<) (map (entry_key \<circ> fst) ems)"
    and recs: "recs = map batch_record ems"
    and X: "X = res_bind (ByKeyCurrent_RangeForKeys f (r_Key (rr_Record (hd recs))) (r_Key (rr_Record (last recs)))) (\<lambda>(b, e).
               mergeChunks f recs
                 (tr_GetRange L True t b e \<lparr>ro_Limit = 0, ro_Mode = StreamingModeWantAll, ro_Reverse = False\<rparr>)
                 0 (replicate (length recs) []))"
  shows "(\<exists>e. X = Err e) \<or> (\<exists>bufs. X = Ok bufs \<and> list_all2 (right_buffer h) ems bufs)"
proof -
  let ?k1 = "entry_key (fst (hd ems))" and ?k2 = "entry_key (fst (last ems))"
  have k: "r_Key (rr_Record (hd recs)) = ?k1" "r_Key (rr_Record (last recs)) = ?k2"
    using ne by (simp_all add: recs hd_map last_map mark_value entry_key_def)
  from holds rd obtain b e kvs n tail where rng: "ByKeyCurrent_RangeForKeys f ?k1 ?k2 = Ok (b, e)"
    and it: "tr_GetRange L True t b e \<lparr>ro_Limit = 0, ro_Mode = StreamingModeWantAll, ro_Reverse = False\<rparr> = map Inr (take n kvs) @ tail"
    and tail: "tail = [] \<and> drop n kvs = [] \<or> (\<exists>err. tail = [Inl err])"
    and parse: "\<forall>kv\<in>set kvs. ByKeyCurrent_parseKV f kv = Ok \<lparr>dc_key = chunk_key f kv, dc_value = snd kv\<rparr>"
    and cks: "sorted (map (chunk_key f) kvs)"
    and val: "\<And>e. live h e \<Longrightarrow> ?k1 \<le> entry_key e \<Longrightarrow> entry_key e \<le> ?k2 \<Longrightarrow>
      filter (\<lambda>kv. chunk_key f kv = entry_key e) kvs = live_kvs f e"
    by (rule join_iterator [of d h R t ?k1 ?k2]) blast
  have X': "X = mergeChunks f recs (map Inr (take n kvs) @ tail) 0 (replicate (length recs) [])"
    unfolding X k rng by (simp add: it)
  have sizes: "\<forall>r\<in>set recs. 0 \<le> r_ValueSize (rr_Record r)"
    using in_h db_holds_wf(2) [OF holds] by (fastforce simp: recs mark_value entry_wf_def rec_wf_def)
  have srt: "sorted_wrt (<) (map rec_key recs)" using sorted by (simp add: recs comp_def mark_value entry_key_def)
  have "(\<exists>e. X = Err e) \<or> (\<exists>bufs. X = Ok bufs \<and> joined (chunk_key f) recs kvs (replicate (length recs) []) bufs)"
    using mergeChunks_joined [of "take n kvs" f "chunk_key f" "drop n kvs" recs tail "replicate (length recs) []" 0]
      parse cks srt sizes tail unfolding X' append_take_drop_id by (auto dest: in_set_takeD)
  moreover have "list_all2 (right_buffer h) ems bufs" if j: "joined (chunk_key f) recs kvs (replicate (length recs) []) bufs" for bufs
    unfolding list_all2_conv_all_nth
  proof (intro conjI allI impI)
    show "length ems = length bufs" using j by (simp add: joined_def recs)
    fix i assume i: "i < length ems"
    let ?cb = "ems ! i"
    have buf: "bufs ! i = (if snd ?cb then concat (map snd (filter (\<lambda>kv. chunk_key f kv = entry_key (fst ?cb)) kvs)) else [])"
      using j i by (simp add: joined_def recs mark_value entry_key_def)
    have srt': "sorted (map (entry_key \<circ> fst) ems)" using sorted by (simp add: strict_sorted_iff)
    have "?k1 \<le> entry_key (fst ?cb)" "entry_key (fst ?cb) \<le> ?k2"
      using sorted_nth_mono [OF srt', of 0 i] sorted_nth_mono [OF srt', of i "length ems - 1"] i ne
      by (simp_all add: hd_conv_nth last_conv_nth)
    moreover have "live h (fst ?cb)" if "snd ?cb" "sound_flag (set h) {} ?cb"
      using sound_live [of h "fst ?cb"] that in_h i db_holds_wf(1) [OF holds] by (metis nth_mem prod.collapse)
    ultimately show "right_buffer h ?cb (bufs ! i)"
      unfolding right_buffer_def buf using val [of "fst ?cb"] by (auto simp: current_kvs_def chunk_kvs_values simp del: driver_simps(5))
  qed
  ultimately show ?thesis by blast
qed

text \<open>The end of a batch: every record whose flag was right shows its entry.\<close>

lemma batch_values:
  assumes holds: "db_holds f d h R" and rd: "reads L t d"
    and in_h: "\<forall>cb\<in>set ems. fst cb \<in> set h \<and> \<not> r_IsDelete (snd (fst cb))"
    and bufs: "list_all2 (right_buffer h) ems bufs" and recs: "recs = map batch_record ems"
    and fetch: "listCollector_fetchLegacy f t (legacyIndices recs bufs) (map2 joinedRecord recs bufs) = (r, recs')"
  shows "(\<exists>e. r = Err e) \<or> r = Ok () \<and> list_all2 (shows_known False) (map (known h) ems) recs'"
proof -
  have len: "length bufs = length ems" using bufs by (simp add: list_all2_lengthD)
  let ?J = "map2 joinedRecord recs bufs" and ?ent = "\<lambda>i. fst (ems ! i)"
  have revs: "\<forall>i<length ?J. rr_Rev (?J ! i) = fst (?ent i) \<and> ?ent i \<in> set h"
    using in_h len by (auto simp: recs joinedRecord_def)
  have idx: "\<forall>i\<in>set (legacyIndices recs bufs). i < length ?J" using len by (auto simp: legacyIndices_def recs)
  from fetchLegacy_sound [OF holds rd revs idx fetch] show ?thesis
  proof (elim disjE conjE)
    assume ok: "r = Ok ()" "fetched ?ent (set (legacyIndices recs bufs)) ?J recs'"
    have "shows_known False (known h (ems ! i)) (recs' ! i)" if i: "i < length ems" for i
    proof -
      let ?cb = "ems ! i" and ?e = "fst (ems ! i)"
      have size: "r_ValueSize (snd ?e) = int (length (r_Value (snd ?e)))"
        using in_h i db_holds_wf(2) [OF holds] by (auto simp: entry_wf_def rec_wf_def)
      have rec: "recs' ! i = (if i \<in> set (legacyIndices recs bufs) then \<lparr>rr_Rev = fst ?e, rr_Record = by_revision_record (snd ?e)\<rparr>
          else joinedRecord (batch_record ?cb) (bufs ! i))"
        using ok(2) i len by (simp add: fetched_def recs)
      have idx: "i \<in> set (legacyIndices recs bufs) \<longleftrightarrow> r_Value (snd ?e) \<noteq> [] \<and> length (bufs ! i) \<noteq> length (r_Value (snd ?e))"
        using i size by (auto simp: legacyIndices_def recs mark_value)
      show ?thesis
      proof (cases "i \<in> set (legacyIndices recs bufs)")
        case True
        have "shows_value (r_Value (snd ?e)) ?e \<lparr>rr_Rev = fst ?e, rr_Record = by_revision_record (snd ?e)\<rparr>"
          by (auto simp: shows_value_def by_revision_record_def)
        with True rec show ?thesis by (auto simp: shows_known_def known_def)
      next
        case False
        let ?v = "if r_Value (snd ?e) = [] then [] else bufs ! i"
        have "joinedRecord (batch_record ?cb) (bufs ! i) = \<lparr>rr_Rev = fst ?e, rr_Record = (bk_Value (mark ?cb))\<lparr>r_Value := ?v\<rparr>\<rparr>"
          using False idx size by (intro joinedRecord_eq) auto
        then have "shows_value ?v ?e (recs' ! i)" using False rec shows_value_mark [of ?v ?cb] by simp
        moreover have "?v = r_Value (snd ?e)" if "sound_flag (set h) {} ?cb"
        proof -
          have "right_buffer h ?cb (bufs ! i)" using bufs i by (simp add: list_all2_nthD)
          with that False idx show ?thesis by (auto simp: right_buffer_def split: if_splits)
        qed
        ultimately show ?thesis by (auto simp: shows_known_def known_def)
      qed
    qed
    with ok len show ?thesis by (simp add: list_all2_conv_all_nth fetched_def recs)
  qed blast
qed

end

end
