(* ===== verification/FDB_List.thy ===== *)
theory FDB_List
  imports FDB_Values
begin

text \<open>
  Listing, getting and counting keys as reads of one snapshot of the history: the collectors of the read path as
  instances of \<open>inner_collector\<close>, the range of a call, and the listing as a function of the history.
\<close>

section \<open>The listing of a history\<close>

definition at_revision :: "int64 \<Rightarrow> entry list \<Rightarrow> entry list" where
  "at_revision M h = (if M = 0 then h else filter (\<lambda>e. rev_int (fst e) \<le> M) h)"

definition snapshot :: "(bytes \<Rightarrow> bool) \<Rightarrow> entry list \<Rightarrow> entry list" where
  "snapshot K h = sort_key entry_key (filter (\<lambda>e. K (entry_key e) \<and> live h e) h)"

lemma set_newest_iff:
  assumes "sorted_wrt index_less es"
  shows "e \<in> set (newest es) \<longleftrightarrow> e \<in> set es \<and> \<not> r_IsDelete (snd e) \<and> (\<forall>e'\<in>set es. \<not> later e' e)"
  using assms
proof (induction es)
  case (Cons x es)
  have less: "\<forall>y\<in>set es. index_less x y" and srt: "sorted_wrt index_less es" using Cons.prems by auto
  note IH = Cons.IH [OF srt]
  have irr: "\<not> later x x" by (simp add: later_def)
  have up: "\<forall>y\<in>set es. \<not> later x y" using less by (auto simp: index_less_def later_def)
  show ?case
  proof (cases "es \<noteq> [] \<and> entry_key (hd es) = entry_key x")
    case True
    then have hd: "hd es \<in> set es" by simp
    with less have "index_less x (hd es)" by blast
    with True have "later (hd es) x" by (simp add: index_less_def)
    with hd have "\<not> (\<forall>e'\<in>set es. \<not> later e' x)" by blast
    moreover have "newest (x # es) = newest es" using True by simp
    ultimately show ?thesis using IH up irr unfolding list.set(2) by (metis insert_iff)
  next
    case False
    have "sorted (map entry_key (x # es))" by (rule sorted_index_keys [OF Cons.prems])
    then have "entry_key x < entry_key y" if "y \<in> set es" for y
      using False that by (cases es) (auto intro: order.strict_trans2)
    then have "\<forall>y\<in>set es. \<not> later y x \<and> y \<noteq> x" unfolding later_def by (metis less_irrefl)
    moreover have "newest (x # es) = (if r_IsDelete (snd x) then [] else [x]) @ newest es" using False by auto
    ultimately show ?thesis using IH irr up by (cases "r_IsDelete (snd x)") (simp_all, blast+)
  qed
qed simp

lemma live_later:
  assumes "hist_wf h"
  shows "live h e \<longleftrightarrow> e \<in> set h \<and> \<not> r_IsDelete (snd e) \<and> (\<forall>e'\<in>set h. \<not> later e' e)"
proof
  assume l: "live h e"
  let ?es = "of_key (r_Key (snd e)) h"
  have "?es \<noteq> []" "last ?es = e" using l by (auto simp: live_def last_entry_def Let_def split: if_splits)
  then obtain es where es: "?es = es @ [e]" by (metis append_butlast_last_id)
  have "sorted_wrt (\<lambda>e e'. vs_key (fst e) < vs_key (fst e')) ?es"
    using assms by (auto simp: hist_wf_def hist_sorted_def intro: sorted_wrt_filter)
  then have "\<forall>y\<in>set es. \<not> vs_key (fst e) < vs_key (fst y)" unfolding es by (auto simp: sorted_wrt_append)
  then have "\<forall>y\<in>set (es @ [e]). \<not> vs_key (fst e) < vs_key (fst y)" by simp
  then have "\<forall>y\<in>set ?es. \<not> vs_key (fst e) < vs_key (fst y)" unfolding es .
  then have "\<forall>e'\<in>set h. \<not> later e' e" unfolding later_def entry_key_def set_filter by blast
  with l live_in [OF l] show "e \<in> set h \<and> \<not> r_IsDelete (snd e) \<and> (\<forall>e'\<in>set h. \<not> later e' e)" by (simp add: live_def)
next
  assume "e \<in> set h \<and> \<not> r_IsDelete (snd e) \<and> (\<forall>e'\<in>set h. \<not> later e' e)"
  then show "live h e" using sound_live [OF assms] by (auto simp: sound_flag_def)
qed

lemma at_revision_wf: "hist_wf h \<Longrightarrow> hist_wf (at_revision M h)"
  by (auto simp: at_revision_def hist_wf_def hist_sorted_def intro: sorted_wrt_filter)

context fdb_driver
begin

lemma snapshot_unique:
  assumes "hist_wf h" "sorted_wrt (<) (map entry_key es)" "set es = {e \<in> set h. K (entry_key e) \<and> live h e}"
  shows "snapshot K h = es"
proof -
  let ?s = "snapshot K h"
  have set_s: "set ?s = set es" using assms(3) by (auto simp: snapshot_def)
  have inj: "inj_on entry_key (set es)" using assms(3) live_unique by (auto intro!: inj_onI)
  have "distinct ?s" using hist_distinct assms(1) by (simp add: snapshot_def hist_wf_def)
  then have "distinct (map entry_key ?s)" using inj set_s by (simp add: distinct_map)
  moreover have "sorted (map entry_key ?s)" by (simp add: snapshot_def)
  ultimately have "map entry_key ?s = map entry_key es"
    using assms(2) set_s by (intro strict_sorted_equal) (simp_all add: strict_sorted_iff)
  then show ?thesis using inj set_s by (metis map_inj_on Un_absorb)
qed

text \<open>What the collectors are to collect is the snapshot of the requested revision.\<close>

lemma listing_snapshot:
  assumes "split_at f V F d h0 h' R" "0 < F"
  shows "listing f K M F h0 = snapshot K (at_revision M h0)"
proof -
  let ?h = "at_revision M h0" and ?Q = "\<lambda>e. K (entry_key e)"
  have "hist_wf (h0 @ h')" using assms(1) db_holds_wf(1) unfolding split_at_def by blast
  then have wf: "hist_wf h0" by (simp add: hist_wf_def hist_sorted_def sorted_wrt_append)
  note wfM = at_revision_wf [OF wf, of M]
  have "filter (\<lambda>e. visible M F e \<and> ?Q e) h0 = filter ?Q ?h"
    using assms by (auto simp: at_revision_def visible_def split_at_def intro!: filter_cong)
  then have "listing f K M F h0 = newest (scan f ?Q ?h)"
    by (simp add: listing_def filter_scan) (simp add: scan_def)
  moreover have "snapshot K ?h = newest (scan f ?Q ?h)"
  proof (rule snapshot_unique [OF wfM])
    note srt = scan_sorted [OF wfM, of ?Q]
    show "sorted_wrt (<) (map entry_key (newest (scan f ?Q ?h)))" by (rule newest_sorted [OF sorted_index_keys [OF srt]])
    show "set (newest (scan f ?Q ?h)) = {e \<in> set ?h. K (entry_key e) \<and> live ?h e}"
    proof (rule set_eqI)
      fix e
      have "K (entry_key e) \<Longrightarrow> later e' e \<Longrightarrow> K (entry_key e')" for e' by (simp add: later_def)
      then show "e \<in> set (newest (scan f ?Q ?h)) \<longleftrightarrow> e \<in> {e \<in> set ?h. K (entry_key e) \<and> live ?h e}"
        unfolding set_newest_iff [OF srt] mem_Collect_eq set_scan live_later [OF wfM] by blast
    qed
  qed
  ultimately show ?thesis by simp
qed

end

section \<open>The collectors\<close>

definition count_per :: "countCollector \<Rightarrow> finding list \<Rightarrow> bool" where
  "count_per c out \<longleftrightarrow> cc_totalCount c = wrap64 (int (length out))"

definition count_batch :: "countCollector \<Rightarrow> finding list \<Rightarrow> 'a list \<Rightarrow> bool" where
  "count_batch c out xs \<longleftrightarrow> count_per c out \<and> cc_batchCount c = wrap64 (int (length xs))"

lemma wrap64_add: "wrap64 (wrap64 a + wrap64 b) = wrap64 (a + b)" "wrap64 (wrap64 a + b) = wrap64 (a + b)" "wrap64 (a + wrap64 b) = wrap64 (a + b)"
  by (simp_all add: wrap64_def) 

lemma wrap64_0: "wrap64 0 = 0"
  by (simp add: wrap64_def)

sublocale fdb_driver \<subseteq> counting: inner_collector L cfg dir f countProcessor count_per count_batch count_batch "\<lambda>_. True"
proof (unfold_locales, goal_cases)
  case (1 s out)
  then show ?case by (simp add: count_batch_def count_per_def countProcessor_def countCollector_startBatch_def wrap64_0)
next
  case (2 s out ems t cb)
  then show ?case
    by (simp add: count_batch_def count_per_def countProcessor_def countCollector_next_def wrap64_add add.commute)
next
  case (3 s out ems d h R t isLast r s')
  then show ?case by (simp add: count_batch_def countProcessor_def countCollector_endBatch_def)
next
  case (4 s out ems)
  then show ?case by (simp add: count_batch_def)
next
  case (5 s out es)
  then show ?case by (simp add: count_batch_def count_per_def countProcessor_def countCollector_postBatch_def wrap64_add)
qed

text \<open>The list collector, with the values of the records or without.\<close>

definition list_per :: "int64 \<Rightarrow> bool \<Rightarrow> listCollector \<Rightarrow> finding list \<Rightarrow> bool" where
  "list_per limit keysOnly c out \<longleftrightarrow>
     lc_limit c = limit \<and> lc_keysOnly c = keysOnly \<and> list_all2 (shows_known keysOnly) out (lc_records c)"

definition list_col :: "int64 \<Rightarrow> bool \<Rightarrow> listCollector \<Rightarrow> finding list \<Rightarrow> (entry \<times> bool) list \<Rightarrow> bool" where
  "list_col limit keysOnly c out ems \<longleftrightarrow> list_per limit keysOnly c out \<and> lc_batchRecords c = map batch_record ems"

definition list_fin :: "int64 \<Rightarrow> bool \<Rightarrow> listCollector \<Rightarrow> finding list \<Rightarrow> finding list \<Rightarrow> bool" where
  "list_fin limit keysOnly c out es \<longleftrightarrow> list_per limit keysOnly c out \<and> list_all2 (shows_known keysOnly) es (lc_batchRecords c)"

definition list_more :: "int64 \<Rightarrow> nat \<Rightarrow> bool" where
  "list_more limit n \<longleftrightarrow> limit = 0 \<or> int n < limit"

context fdb_driver
begin

lemma list_endBatch:
  assumes "list_col limit keysOnly c out ems" "db_holds f d h R" "reads L t d"
    and "\<forall>cb\<in>set ems. fst cb \<in> set h \<and> \<not> r_IsDelete (snd (fst cb))" "sorted_wrt (<) (map (entry_key \<circ> fst) ems)"
    and "listCollector_endBatch f t isLast c = (r, c')"
  shows "(\<exists>e. r = Err e) \<and> list_per limit keysOnly c' out \<or> r = Ok t \<and> list_fin limit keysOnly c' out (map (known h) ems)"
proof -
  let ?recs = "map batch_record ems"
  have c: "lc_batchRecords c = ?recs" "lc_keysOnly c = keysOnly" "list_per limit keysOnly c out"
    using assms(1) by (auto simp: list_col_def list_per_def)
  show ?thesis
  proof (cases "keysOnly \<or> ems = []")
    case True
    have "shows_known True (known h cb) (batch_record cb)" for cb
    proof -
      have "(bk_Value (mark cb))\<lparr>r_Value := []\<rparr> = bk_Value (mark cb)" unfolding mark_value by (cases "snd (fst cb)") simp
      with shows_value_mark [of "[]" cb] have "shows_value [] (fst cb) (batch_record cb)" by simp
      then show ?thesis by (auto simp: shows_known_def known_def)
    qed
    then have "list_all2 (shows_known keysOnly) (map (known h) ems) ?recs"
      using True by (auto simp: list_all2_map1 list_all2_map2 list_all2_same)
    with True c assms(6) show ?thesis by (auto simp: listCollector_endBatch_def Let_def list_fin_def)
  next
    case False
    define X where "X = res_bind (ByKeyCurrent_RangeForKeys f (r_Key (rr_Record (hd ?recs))) (r_Key (rr_Record (last ?recs)))) (\<lambda>(b, e).
               mergeChunks f ?recs (tr_GetRange L True t b e \<lparr>ro_Limit = 0, ro_Mode = StreamingModeWantAll, ro_Reverse = False\<rparr>)
                 0 (replicate (length ?recs) []))"
    have guard: "(lc_keysOnly c \<or> lc_batchRecords c = []) = False" using False c by simp
    have end_eq: "(r, c') = (case X of Err e \<Rightarrow> (Err e, c) | Panic p \<Rightarrow> (Panic p, c)
        | Ok bufs \<Rightarrow> (case listCollector_fetchLegacy f t (legacyIndices ?recs bufs) (map2 joinedRecord ?recs bufs) of
               (r, recs1) \<Rightarrow> (map_res (\<lambda>_. t) r, c\<lparr>lc_batchRecords := recs1\<rparr>)))"
      using assms(6) unfolding listCollector_endBatch_def X_def Let_def c(1) [symmetric] guard driver_simps(1) if_False by simp
    from False have "ems \<noteq> []" by simp
    from join_batch [OF assms(2,3) this assms(4,5) refl X_def] consider (err) e where "X = Err e"
      | (ok) bufs where "X = Ok bufs" "list_all2 (right_buffer h) ems bufs" by blast
    then show ?thesis
    proof cases
      case err
      with end_eq c(3) show ?thesis by simp
    next
      case (ok bufs)
      obtain r1 recs1 where fetch: "listCollector_fetchLegacy f t (legacyIndices ?recs bufs) (map2 joinedRecord ?recs bufs) = (r1, recs1)"
        by fastforce
      with end_eq ok(1) have r: "r = map_res (\<lambda>_. t) r1" "c' = c\<lparr>lc_batchRecords := recs1\<rparr>" by auto
      have per: "list_per limit keysOnly c' out" using c(3) r(2) by (simp add: list_per_def)
      from batch_values [OF assms(2-4) ok(2) refl fetch] r per False show ?thesis by (auto simp: list_fin_def)
    qed
  qed
qed

end

sublocale fdb_driver \<subseteq> listing: inner_collector L cfg dir f "listProcessor f limit" "list_per limit keysOnly"
    "list_col limit keysOnly" "list_fin limit keysOnly" "list_more limit" for limit keysOnly
proof (unfold_locales, goal_cases)
  case (1 s out)
  then show ?case by (simp add: list_col_def list_per_def listProcessor_def listCollector_startBatch_def)
next
  case (2 s out ems t cb)
  then show ?case
    by (auto simp: list_col_def list_per_def listProcessor_def listCollector_next_def Let_def listCollector_needMore_def list_more_def
        dest: list_all2_lengthD)
next
  case (3 s out ems d h R t isLast r s')
  then show ?case using list_endBatch [of limit keysOnly s out ems d h R t isLast r s'] by (simp add: listProcessor_def)
next
  case (4 s out ems)
  then show ?case by (simp add: list_col_def)
next
  case (5 s out es)
  then show ?case by (simp add: list_fin_def)
next
  case (6 s out es)
  then show ?case
    by (simp add: list_fin_def list_per_def listProcessor_def listCollector_postBatch_def list_all2_appendI)
qed

end
