(* ===== verification/FDB_Lists.thy ===== *)
theory FDB_Lists
  imports FDB_List
begin

text \<open>
  The range of a call (\<^verbatim>\<open>listWithCollector\<close>) and the results of \<^verbatim>\<open>List\<close>, \<^verbatim>\<open>Get\<close> and \<^verbatim>\<open>Count\<close>.
\<close>

section \<open>The keys of a call\<close>

text \<open>
  The keys a call reads: under a prefix that ends in a slash, those after the start key and not after the
  prefix's last key; the start key itself only if it is the prefix. Otherwise the one key.
\<close>

definition list_keys :: "bytes \<Rightarrow> bytes \<Rightarrow> bytes \<Rightarrow> bool" where
  "list_keys pre startKey key \<longleftrightarrow>
     (if suffix (str ''/'') pre
      then (if pre \<noteq> startKey then startKey < key else startKey \<le> key) \<and> (key < pre \<or> prefix pre key)
      else key = pre)"

lemma listRange_no_panic: "listRange f pre startKey \<noteq> Panic p"
  by (auto simp: listRange_def Let_def wrap_err_def res_of_sum_def res_bind_def split: sum.splits res.splits prod.splits if_splits)

lemma between_strinc:
  fixes p q1 q2 k b :: bytes
  assumes "prefix p q1" "prefix p q2" "q1 \<le> k" "k < b" "\<And>k. (q2 \<le> k \<and> k < b) \<longleftrightarrow> prefix q2 k"
  shows "prefix p k"
proof (cases "q2 \<le> k")
  case True
  with assms(2,4) assms(5) [of k] show ?thesis by (metis prefix_order.trans)
next
  case False
  with assms(1-3) show ?thesis by (intro prefix_convex [of p q1 q2 k]) auto
qed

lemma above_iff:
  fixes p b x :: bytes
  assumes "p < b" "p \<le> x \<and> x < b \<longleftrightarrow> P"
  shows "b \<le> x \<longleftrightarrow> p \<le> x \<and> \<not> P"
  using assms by auto

context fdb_driver
begin

abbreviation packed :: "bytes \<Rightarrow> bytes" where
  "packed k \<equiv> f_byKeyAndRevision f @ tuple_Pack L [TString k]"

lemma packed_le_iff:
  assumes "entry_wf e" "entry_ok L e"
  shows "packed k \<le> index_key f e \<longleftrightarrow> k \<le> entry_key e"
    and "prefix (packed k) (index_key f e) \<longleftrightarrow> k = entry_key e"
proof -
  let ?t = "[TVersionstamp (fst e)]"
  have ok: "tuple_ok (TString (entry_key e) # ?t)" using assms(1) by (simp add: entry_wf_def)
  have key: "index_key f e = f_byKeyAndRevision f @ tuple_Pack L (TString (entry_key e) # ?t)"
    by (simp add: index_kv_def entry_key_def)
  show pre: "prefix (packed k) (index_key f e) \<longleftrightarrow> k = entry_key e"
    unfolding key same_prefix_prefix using assms ok
    by (subst pack_string_prefix_eq) (auto simp: entry_ok_def entry_key_def)
  show "packed k \<le> index_key f e \<longleftrightarrow> k \<le> entry_key e"
  proof (cases k "entry_key e" rule: linorder_cases)
    case less
    with pack_less [of "TString k" "[]" "TString (entry_key e)" ?t] ok show ?thesis
      unfolding key by (simp add: less_imp_le del: driver_simps(4))
  next
    case equal
    with pre show ?thesis using prefix_imp_le by simp
  next
    case greater
    with pack_less [of "TString (entry_key e)" ?t "TString k" "[]"] ok show ?thesis
      unfolding key by (auto simp del: driver_simps(4))
  qed
qed

lemma strinc_packed:
  assumes "fdb_Strinc L (packed k) = Inr b" "entry_wf e" "entry_ok L e"
  shows "b \<le> index_key f e \<longleftrightarrow> k < entry_key e"
proof -
  have "packed k < b" using strinc_range [OF assms(1), of "packed k"] by simp
  from above_iff [OF this strinc_range [OF assms(1), of "index_key f e"]] show ?thesis
    unfolding packed_le_iff [OF assms(2,3)] by auto
qed

lemma strinc_prefix:
  assumes "fdb_Strinc L (butlast (packed pre)) = Inr b" "entry_wf e" "entry_ok L e"
  shows "index_key f e < b \<longleftrightarrow> entry_key e < pre \<or> prefix pre (entry_key e)"
proof -
  let ?t = "[TVersionstamp (fst e)]"
  have ne: "tuple_Pack L [TString pre] \<noteq> []" using pack_singleton_nonempty [of "TString pre"] by simp
  have q: "butlast (packed pre) = f_byKeyAndRevision f @ butlast (tuple_Pack L [TString pre])"
    using ne by (simp add: butlast_append del: driver_simps(4))
  have pre: "prefix (butlast (packed pre)) (index_key f e) \<longleftrightarrow> prefix pre (entry_key e)"
    unfolding q using pack_string_prefix [of ?t pre "entry_key e"] assms(2)
    by (simp add: index_kv_def entry_key_def entry_wf_def del: driver_simps(4))
  have snoc: "packed pre = butlast (packed pre) @ [last (packed pre)]" using ne by (intro append_butlast_last_id [symmetric]) simp
  have le: "butlast (packed pre) \<le> packed pre" using snoc by (metis prefix_imp_le prefixI)
  note r = strinc_range [OF assms(1)]
  show ?thesis
  proof (cases "butlast (packed pre) \<le> index_key f e")
    case True
    have "prefix (butlast (packed pre)) (index_key f e)" if "index_key f e < packed pre"
      using prefix_convex [OF _ _ True, of "butlast (packed pre)" "packed pre"] snoc that by (metis less_imp_le prefixI prefix_order.refl)
    then have "entry_key e < pre \<longrightarrow> prefix pre (entry_key e)"
      using pre packed_le_iff(1) [OF assms(2,3), of pre] by (simp add: not_le [symmetric])
    with True r [of "index_key f e"] pre show ?thesis by blast
  next
    case False
    then have "index_key f e < packed pre" using le by simp
    then have "entry_key e < pre" using packed_le_iff(1) [OF assms(2,3), of pre] by (simp add: not_le [symmetric])
    moreover have "index_key f e < b" using False r [of "butlast (packed pre)"] by simp
    ultimately show ?thesis by blast
  qed
qed

lemma butlast_packed: "prefix (f_byKeyAndRevision f) (butlast (packed pre))"
  using pack_singleton_nonempty [of "TString pre"] by (simp add: butlast_append del: driver_simps(4))

lemma listRange_keys:
  assumes "listRange f pre startKey = Ok sel"
  shows "range_of f sel (list_keys pre startKey) None"
proof (cases "suffix (str ''/'') pre")
  case True
  let ?q = "packed startKey"
  from assms True obtain b e where sel: "sel = (FirstGreaterOrEqual b, FirstGreaterOrEqual e)"
    and b: "if pre \<noteq> startKey then fdb_Strinc L ?q = Inr b else b = ?q"
    and e: "fdb_Strinc L (butlast (packed pre)) = Inr e"
    by (auto simp: listRange_def Let_def spack_eq wrap_err_def res_of_sum_Ok_iff go_simps simp del: driver_simps(4)
        split: if_splits res.splits)
  have qb: "?q \<le> b" using b strinc_range [of ?q b ?q] by (auto split: if_splits)
  show ?thesis
    unfolding range_of_def
  proof (intro conjI allI impI)
    fix x assume "sel_from (fst sel) x \<and> sel_upto (snd sel) x"
    then have x: "?q \<le> x" "x < e" using qb by (auto simp: sel)
    show "prefix (f_byKeyAndRevision f) x"
      by (rule between_strinc [OF _ butlast_packed x strinc_range [OF e]]) simp
  next
    fix x assume x: "entry_wf x \<and> entry_ok (f_lib f) x"
    then have "b \<le> index_key f x \<longleftrightarrow> (if pre \<noteq> startKey then startKey < entry_key x else startKey \<le> entry_key x)"
      using b strinc_packed [of startKey b x] packed_le_iff(1) [of x startKey] by (auto split: if_splits)
    moreover have "index_key f x < e \<longleftrightarrow> entry_key x < pre \<or> prefix pre (entry_key x)"
      using strinc_prefix [OF e, of x] x by simp
    ultimately show "sel_from (fst sel) (index_key f x) \<and> sel_upto (snd sel) (index_key f x)
        \<longleftrightarrow> list_keys pre startKey (entry_key x) \<and> after f None x"
      using True by (simp add: sel list_keys_def del: driver_simps(4))
  qed
next
  case False
  with assms have sel: "sel = (FirstGreaterOrEqual (packed pre @ [0]), FirstGreaterOrEqual (packed pre @ [255]))"
    by (auto simp: listRange_def Let_def sub_eq range_keys_eq simp del: driver_simps(4) split: if_splits)
  show ?thesis
    unfolding range_of_def
  proof (intro conjI allI impI)
    fix x assume "sel_from (fst sel) x \<and> sel_upto (snd sel) x"
    then have "prefix (packed pre) x" using range_keys_prefix [of "packed pre" x] by (simp add: sel del: driver_simps(4) append_assoc)
    then show "prefix (f_byKeyAndRevision f) x" by (rule append_prefixD)
  next
    fix x assume x: "entry_wf x \<and> entry_ok (f_lib f) x"
    then have "packed pre @ [0] \<le> index_key f x \<and> index_key f x < packed pre @ [255] \<longleftrightarrow> pre = entry_key x"
      using range_keys_elem_iff [of "TString pre" "TString (entry_key x)" "TVersionstamp (fst x)" "[]" "f_byKeyAndRevision f"]
      by (simp add: index_kv_def entry_key_def entry_wf_def del: driver_simps(4))
    then show "sel_from (fst sel) (index_key f x) \<and> sel_upto (snd sel) (index_key f x)
        \<longleftrightarrow> list_keys pre startKey (entry_key x) \<and> after f None x"
      using False by (auto simp: sel list_keys_def simp del: driver_simps(4) append_assoc)
  qed
qed

end

section \<open>The calls\<close>

text \<open>
  What a read returns: the version \<open>F\<close> of the first batch, and the listing of the history \<open>h0\<close> that held then: \<open>h\<close> and what
  came after version \<open>V\<close>. \<open>h'\<close> is what came later.
\<close>

definition read_at :: "('d, 't) FDB \<Rightarrow> int64 \<Rightarrow> int64 \<Rightarrow> entry list \<Rightarrow> int64 \<Rightarrow> int64 \<Rightarrow> 'd \<Rightarrow> entry list \<Rightarrow> entry list \<Rightarrow> bool" where
  "read_at f V M h R F d h0 h' \<longleftrightarrow>
     extends V h h0 \<and> split_at f V F d h0 h' R \<and> 0 < F \<and> M \<le> F \<and> (0 < M \<longrightarrow> R \<le> M)"

context inner_collector
begin

lemma listWithCollector_read:
  assumes "\<not> UseSequentialId cfg" "\<forall>script\<in>set scripts. \<forall>a\<in>set script. appending f a"
    and "db_holds f d h R" "per s []" "more 0"
    and "listWithCollector f inner pre startKey M scripts d s = Some (r, d', s')"
  shows "moved f (db_version L d) h R d' \<and> ((\<exists>e. r = Err e) \<or>
    (\<exists>F h0 h' outs. r = Ok F \<and> read_at f (db_version L d) M h R F d' h0 h' \<and> per s' outs \<and> fst ` set outs \<subseteq> set (h0 @ h') \<and>
       collected more (snapshot (list_keys pre startKey) (at_revision M h0)) outs))"
proof (cases "listRange f pre startKey")
  case (Ok sel)
  from assms(6) Ok obtain x st c where run:
    "processRange f (recordProcessor f inner) sel scripts d (newRecordCollector M s) = Some (x, st, d', c)"
    and r: "(r, s') = (case x of Ok _ \<Rightarrow> (if M > rc_firstRev c then Err ErrFutureRev else Ok (rc_firstRev c), rc_inner c)
      | Err e \<Rightarrow> (Err e, rc_inner c) | Panic p \<Rightarrow> (Panic p, rc_inner c))"
    by (auto simp: listWithCollector_def split: option.splits res.splits prod.splits)
  from snapshot_range [OF assms(1-3) listRange_keys [OF Ok] assms(4,5) run] show ?thesis
  proof (elim conjE disjE exE)
    assume mv: "moved f (db_version L d) h R d'" and x: "x = Ok ()" "snap_result f (db_version L d) per more (list_keys pre startKey) M h R d' c"
    then obtain h0 h' outs where o: "split_at f (db_version L d) (rc_firstRev c) d' h0 h' R" "0 < rc_firstRev c" "extends (db_version L d) h h0" "per (rc_inner c) outs"
        "collected more (listing f (list_keys pre startKey) M (rc_firstRev c) h0) outs" "0 < M \<longrightarrow> R \<le> M"
        "fst ` set outs \<subseteq> set (h0 @ h')"
      unfolding snap_result_def by blast
    show ?thesis
    proof (cases "M > rc_firstRev c")
      case False
      with r x(1) have "r = Ok (rc_firstRev c)" "s' = rc_inner c" by simp_all
      with mv o False listing_snapshot [OF o(1,2)] show ?thesis unfolding read_at_def by (metis not_less)
    qed (use r x mv in simp)
  next
    fix e assume "moved f (db_version L d) h R d'" "x = Err e"
    with r show ?thesis by simp
  qed
qed (use assms(6) listRange_no_panic [of f pre startKey] moved_refl [OF assms(3), unfolded driver_simps(1)] in \<open>auto simp: listWithCollector_def\<close>)

end

section \<open>What kine gets\<close>

definition list_kv :: "('d, 't) FDB \<Rightarrow> bool \<Rightarrow> entry \<Rightarrow> KeyValue" where
  "list_kv f keysOnly e = (if keysOnly then (entry_kv f e)\<lparr>kv_Value := []\<rparr> else entry_kv f e)"

definition shown_kv :: "('d, 't) FDB \<Rightarrow> bool \<Rightarrow> finding \<Rightarrow> KeyValue \<Rightarrow> bool" where
  "shown_kv f keysOnly k kv \<longleftrightarrow>
     (\<exists>v. kv = (entry_kv f (fst k))\<lparr>kv_Value := v\<rparr>) \<and>
     (snd k \<and> \<not> r_IsDelete (snd (fst k)) \<longrightarrow> kv = list_kv f keysOnly (fst k))"

lemma live_entry_iff: "live_entry h key = Some e \<longleftrightarrow> entry_key e = key \<and> live h e"
  using last_entry_Some(2) [of h key e]
  by (auto simp: live_entry_def live_def entry_key_def split: option.split)

lemma snapshot_subset: "set (snapshot K h) \<subseteq> {e \<in> set h. K (entry_key e) \<and> live h e}"
  by (auto simp: snapshot_def)

lemma at_revision_subset: "set (at_revision M h) \<subseteq> set h"
  by (auto simp: at_revision_def)

text \<open>The result of a list: the first entries of the snapshot, all of them if there is no limit, and at most one more.\<close>

definition listed :: "('d, 't) FDB \<Rightarrow> bool \<Rightarrow> int64 \<Rightarrow> entry list \<Rightarrow> KeyValue list \<Rightarrow> bool" where
  "listed f keysOnly limit es kvs \<longleftrightarrow>
     kvs = map (list_kv f keysOnly) es \<or>
     0 < limit \<and> int (length kvs) \<le> limit + 1 \<and> limit \<le> int (length es) \<and>
     take (nat limit) kvs = map (list_kv f keysOnly) (take (nat limit) es)"

context fdb_driver
begin

lemma shows_value_event:
  assumes "shows_value v e r" "entry_ok L e"
  shows "\<exists>ev. revRecordToEvent f r = Ok ev \<and> ev_KV ev = (entry_kv f e)\<lparr>kv_Value := (if APITest cfg \<and> r_IsDelete (snd e) then [] else v)\<rparr>"
proof -
  from assms(1) obtain u b where r: "rr_Rev r = fst e" "rr_Record r = (snd e)\<lparr>r_Value := v, r_WriteUUID := u, r_LatestForKey := b\<rparr>"
    by (auto simp: shows_value_def)
  have r': "r = \<lparr>rr_Rev = fst e, rr_Record = (snd e)\<lparr>r_Value := v, r_WriteUUID := u, r_LatestForKey := b\<rparr>\<rparr>" using r by (cases r) simp
  show ?thesis
    using assms(2) unfolding r'
    by (auto simp: revRecordToEvent_def RevRecord_GetCreateRevision_def entry_kv_def create_revision_def entry_ok_def
        rev_or_dummy_to_int64 Let_def)
qed

lemma revRecordsToKVs_shown:
  assumes "list_all2 (shows_known keysOnly) outs rs" "\<forall>k\<in>set outs. entry_ok L (fst k)"
  shows "\<exists>kvs. revRecordsToKVs f rs = Ok kvs \<and>
    list_all2 (shown_kv f keysOnly) outs kvs"
  using assms
proof (induction rule: list_all2_induct)
  case Nil
  then show ?case by simp
next
  case (Cons k outs r rs)
  from Cons.hyps(1) obtain v where v: "shows_value v (fst k) r" "snd k \<longrightarrow> v = (if keysOnly then [] else r_Value (snd (fst k)))"
    by (auto simp: shows_known_def)
  from shows_value_event [OF v(1)] Cons.prems obtain ev where
    ev: "revRecordToEvent f r = Ok ev" "ev_KV ev = (entry_kv f (fst k))\<lparr>kv_Value := (if APITest cfg \<and> r_IsDelete (snd (fst k)) then [] else v)\<rparr>" by auto
  have "shown_kv f keysOnly k (ev_KV ev)"
    using ev(2) v(2) by (auto simp: shown_kv_def list_kv_def entry_kv_def)
  with ev(1) Cons show ?case by auto
qed

lemma collected_listed:
  assumes "collected (list_more limit) es outs" "0 \<le> limit" "\<forall>e\<in>set es. \<not> r_IsDelete (snd e)"
    and "list_all2 (shown_kv f keysOnly) outs kvs"
  shows "listed f keysOnly limit es kvs"
proof -
  have all: "kvs = map (list_kv f keysOnly) es'" if "list_all2 (shown_kv f keysOnly) (map sure es') kvs" "set es' \<subseteq> set es" for es' kvs
    using that assms(3) by (induction es' arbitrary: kvs) (auto simp: sure_def list_all2_Cons1 shown_kv_def)
  from assms(1) consider "outs = map sure es"
    | n x where "\<not> list_more limit n" "list_more limit (n - 1)" "n \<le> length es" "length x \<le> 1" "outs = map sure (take n es) @ x"
    unfolding collected_def by blast
  then show ?thesis
  proof cases
    case 1
    with all [of es kvs] assms(4) show ?thesis by (simp add: listed_def)
  next
    case (2 n x)
    then have n: "0 < limit" "nat limit = n" using assms(2) by (auto simp: list_more_def)
    from assms(4) [unfolded 2(5) list_all2_append1] obtain us vs where kvs: "kvs = us @ vs" "list_all2 (shown_kv f keysOnly) (map sure (take n es)) us"
        "list_all2 (shown_kv f keysOnly) x vs" by blast
    have us: "us = map (list_kv f keysOnly) (take n es)" by (rule all [OF kvs(2)]) (rule set_take_subset)
    moreover have "length vs \<le> 1" using list_all2_lengthD [OF kvs(3)] 2(4) by simp
    ultimately show ?thesis using kvs(1) n 2(3) by (auto simp: listed_def)
  qed
qed

lemma listKeyValue_read:
  assumes "\<not> UseSequentialId cfg" "\<forall>script\<in>set scripts. \<forall>a\<in>set script. appending f a" "db_holds f d h R" "0 \<le> limit"
    and "listKeyValue f pre startKey limit M keysOnly scripts d = Some (r, d')"
  shows "moved f (db_version L d) h R d' \<and> ((\<exists>e. r = Err e) \<or>
    (\<exists>F kvs h0 h'. r = Ok (F, kvs) \<and> read_at f (db_version L d) M h R F d' h0 h' \<and>
       listed f keysOnly limit (snapshot (list_keys pre startKey) (at_revision M h0)) kvs))"
proof -
  let ?c = "\<lparr>lc_limit = limit, lc_keysOnly = keysOnly, lc_records = [], lc_batchRecords = []\<rparr>"
  from assms(4,5) obtain r0 c where run: "listWithCollector f (listProcessor f limit) pre startKey M scripts d ?c = Some (r0, d', c)"
    and r: "r = res_bind r0 (\<lambda>rev. map_res (Pair rev) (revRecordsToKVs f (lc_records c)))"
    by (auto simp: listKeyValue_def newListCollector_def)
  have "list_per limit keysOnly ?c []" "list_more limit 0" using assms(4) by (auto simp: list_per_def list_more_def)
  from listing.listWithCollector_read [OF assms(1-3) this run] show ?thesis
  proof (elim conjE disjE exE)
    fix F h0 h' outs assume mv: "moved f (db_version L d) h R d'" and o: "r0 = Ok F" "read_at f (db_version L d) M h R F d' h0 h'" "list_per limit keysOnly c outs" "fst ` set outs \<subseteq> set (h0 @ h')"
      "collected (list_more limit) (snapshot (list_keys pre startKey) (at_revision M h0)) outs"
    let ?es = "snapshot (list_keys pre startKey) (at_revision M h0)"
    have "db_holds f d' (h0 @ h') R" using o(2) by (simp add: read_at_def split_at_def)
    then have "\<forall>k\<in>set outs. entry_ok L (fst k)" using o(4) db_holds_wf(3) by blast
    from revRecordsToKVs_shown [OF _ this] o(3) obtain kvs where kvs: "revRecordsToKVs f (lc_records c) = Ok kvs"
      "list_all2 (shown_kv f keysOnly) outs kvs"
      unfolding list_per_def by blast
    have "\<forall>e\<in>set ?es. \<not> r_IsDelete (snd e)" using snapshot_subset by (force simp: live_def)
    from collected_listed [OF o(5) assms(4) this kvs(2)] o(1,2) r kvs(1) mv show ?thesis by auto
  qed (use r in simp)
qed

lemma List_result:
  assumes "\<not> UseSequentialId cfg" "\<forall>script\<in>set scripts. \<forall>a\<in>set script. appending f a" "db_holds f (d_db s) h R" "0 \<le> limit"
    and "List f pre startKey limit M keysOnly scripts s = Some (r, s')"
  shows "s' = s\<lparr>d_db := d_db s'\<rparr> \<and> moved f (db_version L (d_db s)) h R (d_db s') \<and>
    ((\<exists>e. r = Err e) \<or>
     (\<exists>F kvs h0 h'. r = Ok (F, kvs) \<and> read_at f (db_version L (d_db s)) M h R F (d_db s') h0 h' \<and>
        listed f keysOnly limit (snapshot (list_keys pre startKey) (at_revision M h0)) kvs))"
proof -
  from assms(5) obtain d' where run: "listKeyValue f pre startKey limit M keysOnly scripts (d_db s) = Some (r, d')"
    and s': "s' = s\<lparr>d_db := d'\<rparr>" by (auto simp: List_def)
  from listKeyValue_read [OF assms(1-4) run] s' show ?thesis by simp
qed

lemma snapshot_key: "hist_wf h \<Longrightarrow> snapshot (\<lambda>k. k = key) h = (case live_entry h key of None \<Rightarrow> [] | Some e \<Rightarrow> [e])"
proof (rule snapshot_unique)
  have "{e \<in> set h. entry_key e = key \<and> live h e} = {e. live_entry h key = Some e}"
    unfolding live_entry_iff using live_in by blast
  then show "set (case live_entry h key of None \<Rightarrow> [] | Some e \<Rightarrow> [e]) = {e \<in> set h. entry_key e = key \<and> live h e}"
    by (cases "live_entry h key") auto
qed (simp_all split: option.split)

lemma Get_result:
  assumes "\<not> UseSequentialId cfg" "\<forall>script\<in>set scripts. \<forall>a\<in>set script. appending f a" "db_holds f (d_db s) h R"
    and "\<not> suffix (str ''/'') key" "Get f key [] M keysOnly scripts s = Some (r, s')"
  shows "s' = s\<lparr>d_db := d_db s'\<rparr> \<and> moved f (db_version L (d_db s)) h R (d_db s') \<and>
    ((\<exists>e. r = Err e) \<or>
     (\<exists>F h0 h'. read_at f (db_version L (d_db s)) M h R F (d_db s') h0 h' \<and>
        r = Ok (F, map_option (list_kv f keysOnly) (live_entry (at_revision M h0) key))))"
proof -
  from assms(5) obtain r0 d' where run: "listKeyValue f key key 1 M keysOnly scripts (d_db s) = Some (r0, d')"
    and s': "s' = s\<lparr>d_db := d'\<rparr>" and r: "r = map_res (\<lambda>(rev, kvs). (rev, if kvs = [] then None else Some (hd kvs))) r0"
    by (auto simp: Get_def)
  have K: "list_keys key key = (\<lambda>k. k = key)" using assms(4) by (auto simp: list_keys_def fun_eq_iff)
  from listKeyValue_read [OF assms(1-3) zero_le_one run] show ?thesis
  proof (elim conjE disjE exE)
    fix F kvs h0 h' assume mv: "moved f (db_version L (d_db s)) h R d'" and o: "r0 = Ok (F, kvs)" "read_at f (db_version L (d_db s)) M h R F d' h0 h'" "listed f keysOnly 1 (snapshot (list_keys key key) (at_revision M h0)) kvs"
    have "hist_wf (h0 @ h')" using o(2) db_holds_wf(1) unfolding read_at_def split_at_def by blast
    then have "hist_wf h0" by (simp add: hist_wf_def hist_sorted_def sorted_wrt_append)
    from o(3) [unfolded K snapshot_key [OF at_revision_wf [OF this]]]
    have "(if kvs = [] then None else Some (hd kvs)) = map_option (list_kv f keysOnly) (live_entry (at_revision M h0) key)"
      by (cases "live_entry (at_revision M h0) key"; cases kvs) (auto simp: listed_def)
    with mv o s' r show ?thesis by auto
  qed (use r s' in auto)
qed

lemma Count_scan:
  assumes "\<not> UseSequentialId cfg" "\<forall>script\<in>set scripts. \<forall>a\<in>set script. appending f a" "db_holds f d h R"
    and "listWithCollector f countProcessor pre startKey M scripts d \<lparr>cc_totalCount = 0, cc_batchCount = 0\<rparr> = Some (r, d', c)"
  shows "moved f (db_version L d) h R d' \<and> ((\<exists>e. r = Err e) \<or>
     (\<exists>F h0 h'. r = Ok F \<and> read_at f (db_version L d) M h R F d' h0 h' \<and>
        cc_totalCount c = wrap64 (int (length (snapshot (list_keys pre startKey) (at_revision M h0))))))"
proof -
  have "count_per \<lparr>cc_totalCount = 0, cc_batchCount = 0\<rparr> []" by (simp add: count_per_def wrap64_0)
  from counting.listWithCollector_read [OF assms(1-3) this TrueI assms(4)] show ?thesis
  proof (elim conjE disjE exE)
    fix F h0 h' outs assume o: "moved f (db_version L d) h R d'" "r = Ok F" "read_at f (db_version L d) M h R F d' h0 h'" "count_per c outs"
      "collected (\<lambda>_. True) (snapshot (list_keys pre startKey) (at_revision M h0)) outs"
    then have "cc_totalCount c = wrap64 (int (length (snapshot (list_keys pre startKey) (at_revision M h0))))"
      by (auto simp: collected_def count_per_def)
    with o show ?thesis by auto
  qed auto
qed

lemma Count_result:
  assumes "\<not> UseSequentialId cfg" "\<forall>script\<in>set scripts. \<forall>a\<in>set script. appending f a" "db_holds f (d_db s) h R"
    and "M \<noteq> 0 \<or> pre \<noteq> startKey \<or> \<not> d_pollActive s"
    and "Count f pre startKey M scripts meanwhile s = Some (r, s')"
  shows "\<exists>d'. s' = meanwhile (s\<lparr>d_db := d'\<rparr>) \<and> moved f (db_version L (d_db s)) h R d' \<and>
    ((\<exists>e. r = Err e) \<or>
     (\<exists>F h0 h'. read_at f (db_version L (d_db s)) M h R F d' h0 h' \<and>
        r = Ok (F, wrap64 (int (length (snapshot (list_keys pre startKey) (at_revision M h0)))))))"
proof -
  have guard: "(M = 0 \<and> pre = startKey \<and> d_pollActive s) = False" using assms(4) by auto
  from assms(5) obtain r0 d' c where run:
      "listWithCollector f countProcessor pre startKey M scripts (d_db s) \<lparr>cc_totalCount = 0, cc_batchCount = 0\<rparr> = Some (r0, d', c)"
    and r: "s' = meanwhile (s\<lparr>d_db := d'\<rparr>)" "r = map_res (\<lambda>rev. (rev, cc_totalCount c)) r0"
    unfolding Count_def Let_def guard by (auto split: option.splits res.splits prod.splits)
  from Count_scan [OF assms(1-3) run] show ?thesis
  proof (elim conjE disjE exE)
    fix F h0 h' assume "moved f (db_version L (d_db s)) h R d'" "r0 = Ok F" "read_at f (db_version L (d_db s)) M h R F d' h0 h'"
      "cc_totalCount c = wrap64 (int (length (snapshot (list_keys pre startKey) (at_revision M h0))))"
    with r show ?thesis by (metis map_res_simps(1))
  qed (use r in auto)
qed

end

end
