(* ===== verification/FDB_Compaction.thy ===== *)
theory FDB_Compaction
  imports FDB_Removal FDB_Lists
begin

text \<open>
  What \<^verbatim>\<open>Compact\<close> (\<^verbatim>\<open>src/pkg/drivers/fdb/fdb_compact.go\<close>) leaves, over its batches, under retries and while other clients append: a part
  of the history with the same live entries, all entries after the revision compacted to, and of the others, once it is done, none but
  live ones.
\<close>

section \<open>The range of a compaction\<close>

text \<open>From the position \<open>p\<close> on, to the record of revision \<open>n\<close>, without its chunks.\<close>

definition compact_range :: "('d, 't) FDB \<Rightarrow> int64 \<Rightarrow> selector \<times> selector \<Rightarrow> int64 \<Rightarrow> bool" where
  "compact_range f n sel p \<longleftrightarrow>
     log_range f (fst sel, FirstGreaterOrEqual (f_byRevision f @ [255])) p \<and>
     snd sel = FirstGreaterThan (f_byRevision f @ tuple_Pack (f_lib f) [TVersionstamp (int64ToVersionstamp n)])"

definition same_kind :: "entry \<Rightarrow> Record \<Rightarrow> bool" where
  "same_kind e r \<longleftrightarrow> r_Key r = entry_key e \<and> r_IsDelete r = r_IsDelete (snd e)"

lemma range_list_filter:
  assumes "finite (dom m)"
  shows "range_list m (\<lambda>k. P k \<and> Q k) = filter (\<lambda>kv. Q (fst kv)) (range_list m P)"
proof -
  have "sorted_list_of_set {k \<in> dom m. P k \<and> Q k} = filter Q (sorted_list_of_set {k \<in> dom m. P k})"
  proof (rule sorted_distinct_set_unique)
    have "finite {k \<in> dom m. P k}" "finite {k \<in> dom m. P k \<and> Q k}" using assms by (auto intro: finite_subset)
    then show "set (sorted_list_of_set {k \<in> dom m. P k \<and> Q k}) = set (filter Q (sorted_list_of_set {k \<in> dom m. P k}))" by auto
  qed (simp_all add: sorted_wrt_filter)
  then show ?thesis by (simp add: range_list_def filter_map comp_def)
qed

lemma since_between:
  assumes "rising h" "lo \<le> hi"
  shows "since lo h = between lo hi h @ since hi h"
  using assms(1)
proof (induction h)
  case (Cons e h)
  have "between lo hi h = []" if "hi < rev_int (fst e)"
    using that Cons.prems by (auto simp: between_def filter_empty_conv dest: less_trans)
  with Cons assms(2) show ?case by (cases "rev_int (fst e) \<le> hi") (auto simp: between_def since_def)
qed (simp add: between_def since_def)

lemma rising_const: "rising h \<Longrightarrow> \<forall>e\<in>set h. rev_int (fst e) = n \<Longrightarrow> h = [] \<or> (\<exists>e. h = [e])"
  by (cases h; cases "tl h") auto

context fdb_driver
begin

lemma header_bound:
  assumes "entry_wf e" "entry_ok L e" "kv \<in> set (rev_kvs L (f_byRevision f) e)" "revision_ok n"
  shows "fst kv \<le> f_byRevision f @ tuple_Pack L [TVersionstamp (int64ToVersionstamp n)] \<longleftrightarrow>
    rev_int (fst e) < n \<or> rev_int (fst e) = n \<and> kv = hd (rev_kvs L (f_byRevision f) e)"
proof -
  let ?p = "f_byRevision f" and ?v = "int64ToVersionstamp n"
  have v: "is_revision ?v" "rev_int ?v = n" using is_revision_int64 assms(4) by (simp_all add: revision_ok_def)
  have e: "is_revision (fst e)" using assms(2) by (simp add: entry_ok_def)
  have ok: "elem_ok (TVersionstamp (fst e))" "elem_ok (TVersionstamp ?v)" using assms(1) is_revision_elem_ok [OF v(1)] by (auto simp: entry_wf_def)
  from rev_kvs_keys [OF assms(1,3)] obtain s where s: "tuple_ok s" "fst kv = ?p @ tuple_Pack L (TVersionstamp (fst e) # s)" by blast
  consider "rev_int (fst e) < n" | "n < rev_int (fst e)" | "rev_int (fst e) = n" by linarith
  then show ?thesis
  proof cases
    case 1
    then have "vs_key (fst e) < vs_key ?v" using rev_int_less_iff [OF e v(1)] v(2) by simp
    then have "fst kv < ?p @ tuple_Pack L [TVersionstamp ?v]" unfolding s(2) by (intro pack_head_less) (use ok s in auto)
    with 1 show ?thesis by (simp del: driver_simps(3))
  next
    case 2
    then have "vs_key ?v < vs_key (fst e)" using rev_int_less_iff [OF v(1) e] v(2) by simp
    then have "?p @ tuple_Pack L [TVersionstamp ?v] < fst kv" unfolding s(2) by (intro pack_head_less) (use ok s in auto)
    with 2 show ?thesis by (auto simp del: driver_simps(3))
  next
    case 3
    then have ev: "fst e = ?v" using revision_int64(1) [OF e] by simp
    have hd: "fst (hd (rev_kvs L ?p e)) = ?p @ tuple_Pack L [TVersionstamp ?v]" by (simp add: rev_kvs_def ev)
    have "fst (hd (rev_kvs L ?p e)) < fst kv" if "kv \<noteq> hd (rev_kvs L ?p e)"
      using rev_kvs_sorted [OF assms(1), of ?p] assms(3) that by (simp add: rev_kvs_def)
    then have "fst kv \<le> fst (hd (rev_kvs L ?p e)) \<longleftrightarrow> kv = hd (rev_kvs L ?p e)" by (metis leD order_refl)
    with 3 hd show ?thesis by simp
  qed
qed

lemma compact_sel_range:
  assumes "represents f m g" "finite (dom m)" "compact_range f n sel p" "revision_ok n"
  shows "sel_range m (fst sel) (snd sel) = concat (map (\<lambda>e. filter (\<lambda>kv. rev_int (fst e) < n \<or> rev_int (fst e) = n \<and>
      kv = hd (rev_kvs L (f_byRevision f) e)) (rev_kvs L (f_byRevision f) e)) (since p g))"
proof -
  let ?p = "f_byRevision f" and ?stop = "f_byRevision f @ tuple_Pack L [TVersionstamp (int64ToVersionstamp n)]"
  have "elem_ok (TVersionstamp (int64ToVersionstamp n))" using is_revision_int64(1) is_revision_elem_ok assms(4) by (simp add: revision_ok_def)
  then have "?stop < ?p @ [255]" by (intro range_keys_contain(2)) simp
  then have le: "k \<le> ?stop \<Longrightarrow> k < ?p @ [255]" for k by (rule le_less_trans [rotated])
  have "(\<lambda>k. sel_from (fst sel) k \<and> sel_upto (snd sel) k) = (\<lambda>k. (sel_from (fst sel) k \<and> k < ?p @ [255]) \<and> k \<le> ?stop)"
    using assms(3) le by (auto simp: compact_range_def fun_eq_iff simp del: driver_simps(3))
  then have "sel_range m (fst sel) (snd sel) = filter (\<lambda>kv. fst kv \<le> ?stop) (sel_range m (fst sel) (FirstGreaterOrEqual (?p @ [255])))"
    unfolding sel_range_def by (simp add: range_list_filter [OF assms(2)] del: driver_simps(3))
  also have "\<dots> = concat (map (\<lambda>e. filter (\<lambda>kv. fst kv \<le> ?stop) (rev_kvs L ?p e)) (since p g))"
    using sel_range_log [OF assms(1,2), of "(fst sel, FirstGreaterOrEqual (?p @ [255]))" p] assms(3)
    by (simp add: compact_range_def filter_concat comp_def del: driver_simps(3))
  also have "\<dots> = concat (map (\<lambda>e. filter (\<lambda>kv. rev_int (fst e) < n \<or> rev_int (fst e) = n \<and> kv = hd (rev_kvs L ?p e)) (rev_kvs L ?p e)) (since p g))"
  proof (intro arg_cong [where f = concat] map_cong refl filter_cong)
    fix e kv assume e: "e \<in> set (since p g)" "kv \<in> set (rev_kvs L ?p e)"
    then have "entry_wf e" "entry_ok L e" using assms(1) by (auto simp: since_def represents_def hist_wf_def)
    from header_bound [OF this e(2) assms(4)] show "(fst kv \<le> ?stop) = (rev_int (fst e) < n \<or> rev_int (fst e) = n \<and> kv = hd (rev_kvs L ?p e))" .
  qed
  finally show ?thesis .
qed

text \<open>The records of the log, and the last one by its header alone.\<close>

lemma header_iter:
  assumes "entry_wf e" "truncated [hd (rev_kvs L (f_byRevision f) e)] it"
  shows "iter_over f same_kind it [e]"
proof -
  obtain v r where e: "e = (v, r)" by (cases e)
  let ?hd = "hd (rev_kvs L (f_byRevision f) e)"
  have size: "r_ValueSize r = int (length (r_Value r))" using assms(1) by (simp add: e entry_wf_def rec_wf_def)
  have get: "ByRevision_GetFromIterator f (Inr ?hd # it') = res_bind (ByRevision_getBlob it' (replicate (length (r_Value r)) 0) 0)
      (\<lambda>(buf, it2). Ok (Some (v, r\<lparr>r_WriteUUID := zeroUUID, r_LatestForKey := False, r_Value := buf\<rparr>), it2))" for it'
    using ByRevision_ParseKV_header [OF assms(1) [unfolded e]] size
    by (simp add: e ByRevision_GetFromIterator_def rev_kvs_def it_Advance_def del: driver_simps(3))
  have "it = [Inr ?hd] \<or> (\<exists>err. it = [Inl err]) \<or> (\<exists>err. it = [Inr ?hd, Inl err])"
    using assms(2) [unfolded truncated_def]
  proof (elim disjE exE)
    fix k err assume it: "it = map Inr (take k [?hd]) @ [Inl err]"
    show ?thesis unfolding it by (cases k) (simp_all del: driver_simps(3))
  qed simp
  then consider "it = [Inr ?hd]" | err where "it = [Inl err]" | err where "it = [Inr ?hd, Inl err]" by blast
  then show ?thesis
    by cases (auto simp: get [unfolded e] GetFromIterator_end same_kind_def entry_key_def e simp del: driver_simps(3))
qed

lemma compact_iterator:
  assumes "represents f (tr_view L t) g" "tr_pending L t = []" "rising g" "compact_range f n sel p" "revision_ok n" "p \<le> n"
  shows "iter_over f same_kind (tr_GetRange L snap t (fst sel) (snd sel) \<lparr>ro_Limit = 0, ro_Mode = mode, ro_Reverse = False\<rparr>) (between p n g)"
proof -
  let ?p = "f_byRevision f" and ?it = "tr_GetRange L snap t (fst sel) (snd sel) \<lparr>ro_Limit = 0, ro_Mode = mode, ro_Reverse = False\<rparr>"
  let ?m = "max p (n - 1)" and ?F = "\<lambda>e. filter (\<lambda>kv. rev_int (fst e) < n \<or> rev_int (fst e) = n \<and> kv = hd (rev_kvs L ?p e)) (rev_kvs L ?p e)"
  have wf: "\<forall>e\<in>set g. entry_wf e" using assms(1) by (auto simp: represents_def hist_wf_def)
  have bt: "between p n g = between p ?m g @ between ?m n g" by (rule between_split [OF assms(3)]) (use assms(6) in auto)
  have F1: "concat (map ?F (between p ?m g)) = concat (map (rev_kvs L ?p) (between p ?m g))"
  proof (intro arg_cong [where f = concat] map_cong refl)
    fix e assume "e \<in> set (between p ?m g)"
    then have "rev_int (fst e) < n" by (auto simp: between_def)
    then show "?F e = rev_kvs L ?p e" by (simp del: driver_simps(3))
  qed
  have F2: "concat (map ?F (between ?m n g)) = concat (map (\<lambda>e. [hd (rev_kvs L ?p e)]) (between ?m n g))"
  proof (intro arg_cong [where f = concat] map_cong refl)
    fix e assume "e \<in> set (between ?m n g)"
    then have e: "rev_int (fst e) = n" "entry_wf e" using wf by (auto simp: between_def)
    have "distinct (rev_kvs L ?p e)" using sorted_keys_distinct [OF rev_kvs_sorted [OF e(2)]] by (simp add: distinct_map)
    with e(1) show "?F e = [hd (rev_kvs L ?p e)]"
      by (auto simp: rev_kvs_def filter_empty_conv simp del: driver_simps(3))
  qed
  have F3: "concat (map ?F (since n g)) = []" by (auto simp: since_def filter_empty_conv)
  have range: "sel_range (tr_view L t) (fst sel) (snd sel)
      = concat (map (rev_kvs L ?p) (between p ?m g)) @ concat (map (\<lambda>e. [hd (rev_kvs L ?p e)]) (between ?m n g))"
    using compact_sel_range [OF assms(1) finite_view assms(4,5)] F1 F2 F3 since_between [OF assms(3,6)] bt by (simp del: driver_simps(3))
  have tr: "truncated (sel_range (tr_view L t) (fst sel) (snd sel)) ?it"
    using range_sound [OF assms(2), of "\<lparr>ro_Limit = 0, ro_Mode = mode, ro_Reverse = False\<rparr>" "fst sel" "snd sel" snap]
    by (simp add: truncated_def limited_def Let_def)
  have "rising (between ?m n g)" unfolding between_def by (rule sorted_wrt_filter [OF assms(3)])
  moreover have "\<forall>e\<in>set (between ?m n g). rev_int (fst e) = n" unfolding between_def by simp
  ultimately consider (none) "between ?m n g = []" | (one) e where "between ?m n g = [e]" using rising_const by blast
  then have tail: "iter_over f same_kind it (between ?m n g)" if "truncated (concat (map (\<lambda>e. [hd (rev_kvs L ?p e)]) (between ?m n g))) it" for it
  proof cases
    case none
    with that show ?thesis by (auto simp: truncated_def GetFromIterator_end)
  next
    case (one e)
    then have "entry_wf e" using wf by (metis between_def filter_is_subset list.set_intros(1) subsetD)
    with header_iter [of e it] that one show ?thesis by simp
  qed
  have "\<forall>e\<in>set (between p ?m g). entry_wf e" "\<forall>e\<in>set (between p ?m g). same_kind e (by_revision_record (snd e))"
    using wf by (auto simp: between_def same_kind_def by_revision_record_def entry_key_def)
  from iter_over_ok [OF this tail] tr show ?thesis unfolding range bt by blast
qed

end

section \<open>One batch\<close>

text \<open>A transaction that holds the history \<open>g\<close>, began at version \<open>v\<close> and sees the mark \<open>w\<close> of the last compaction.\<close>

definition compact_tr :: "('d, 't) FDB \<Rightarrow> bytes option \<Rightarrow> int64 \<Rightarrow> 't \<Rightarrow> entry list \<Rightarrow> bool" where
  "compact_tr f w v t g \<longleftrightarrow>
     represents f (tr_view (f_lib f) t) g \<and> tr_pending (f_lib f) t = [] \<and> tr_version (f_lib f) t = v \<and>
     tr_view (f_lib f) t (f_compactRev f) = w"

text \<open>
  What the loop of a batch gives: it stops at a position \<open>p1\<close>, the end or the last entry it looked at, which \<^verbatim>\<open>batchCompacted\<close> names.
\<close>

definition compact_batch ::
    "('d, 't) FDB \<Rightarrow> int64 \<Rightarrow> entry list \<Rightarrow> entry list \<Rightarrow> bytes option \<Rightarrow> int64 \<Rightarrow> int64 \<Rightarrow> 't compactProcessor
     \<Rightarrow> batchResult \<Rightarrow> 't \<Rightarrow> 't compactProcessor \<Rightarrow> bool" where
  "compact_batch f n h H w v p s res t1 s' \<longleftrightarrow>
     (\<exists>g1 p1. compact_tr f w v t1 g1 \<and> compacting n h H g1 p1 \<and> p \<le> p1 \<and>
        (if br_collectorNeedsMore res then br_lastReadKey res = Some (afterKey f (cp_batchCompacted s'))
         else between p1 n g1 = []) \<and>
        (s' = s \<and> p1 = p \<and> \<not> br_collectorNeedsMore res \<or>
         is_revision (cp_batchCompacted s') \<and> rev_int (cp_batchCompacted s') = p1 \<and>
         s' = s\<lparr>cp_batchCompacted := cp_batchCompacted s'\<rparr>))"

lemma compact_batch_step:
  assumes "compact_batch f n h H w v (rev_int x) s1 res t1 s'" "is_revision x" "p \<le> rev_int x" "s1 = s\<lparr>cp_batchCompacted := x\<rparr>"
  shows "compact_batch f n h H w v p s res t1 s'"
proof -
  from assms(1) obtain g1 p1 where *: "compact_tr f w v t1 g1" "compacting n h H g1 p1" "rev_int x \<le> p1"
      "if br_collectorNeedsMore res then br_lastReadKey res = Some (afterKey f (cp_batchCompacted s')) else between p1 n g1 = []"
      "s' = s1 \<and> p1 = rev_int x \<and> \<not> br_collectorNeedsMore res \<or>
         is_revision (cp_batchCompacted s') \<and> rev_int (cp_batchCompacted s') = p1 \<and> s' = s1\<lparr>cp_batchCompacted := cp_batchCompacted s'\<rparr>"
    unfolding compact_batch_def by blast
  have "is_revision (cp_batchCompacted s')" "rev_int (cp_batchCompacted s') = p1" using *(5) assms(2,4) by auto
  moreover have "s' = s\<lparr>cp_batchCompacted := cp_batchCompacted s'\<rparr>"
    using *(5) assms(4) by (cases s; cases s') auto
  moreover have "p \<le> p1" using assms(3) *(3) by simp
  ultimately show ?thesis using *(1,2,4) unfolding compact_batch_def by blast
qed

context fdb_driver
begin

lemma compactRev_not_prefix:
  assumes "p = f_byRevision f \<or> p = f_byKeyAndRevision f \<or> p = f_byKeyCurrent f" "prefix p k"
  shows "k \<noteq> f_compactRev f"
proof
  assume k: "k = f_compactRev f"
  have "prefix (f_compactRev f) k" by (simp add: k)
  moreover have "\<not> prefix (dir @ tuple_Pack L [TString (str ''compactRevision'')]) k"
    if "s \<in> {str ''byRevision'', str ''byKeyAndRevision'', str ''byKeyCurrent''}"
      "prefix (dir @ tuple_Pack L [TString s]) k" for s
    by (rule subspace_disjoint [OF _ _ _ that(2)]) (use that(1) in \<open>auto simp: str_def\<close>)
  ultimately show False using assms by auto
qed

lemma compact_delete:
  assumes tr: "compact_tr f w v t g" and e: "e \<in> set g" and live: "\<And>x. live (filter (\<lambda>x. x \<noteq> e) g) x \<longleftrightarrow> live g x"
  shows "\<exists>t1. ByRevision_Delete f (ByKeyAndRevision_Delete f \<lparr>kr_Key = entry_key e, kr_Rev = fst e\<rparr> t) (fst e) = Ok t1 \<and>
    compact_tr f w v t1 (filter (\<lambda>x. x \<noteq> e) g)"
proof -
  let ?p = "f_byRevision f" and ?ix = "fst (index_kv L (f_byKeyAndRevision f) e)"
  have rep: "represents f (tr_view L t) g" using tr by (simp add: compact_tr_def)
  then have wf: "entry_wf e" using e by (auto simp: represents_def hist_wf_def)
  obtain b where b: "fdb_PrefixRange L (?p @ tuple_Pack L [TVersionstamp (fst e)]) = Inr (?p @ tuple_Pack L [TVersionstamp (fst e)], b)"
    "\<And>k. (?p @ tuple_Pack L [TVersionstamp (fst e)] \<le> k \<and> k < b) \<longleftrightarrow> prefix (?p @ tuple_Pack L [TVersionstamp (fst e)]) k"
    by (rule prefix_range_subspace [of "[TVersionstamp (fst e)]" ?p "str ''byRevision''"]) (use wf in \<open>auto simp: entry_wf_def\<close>)
  let ?t1 = "tr_ClearRange L (?p @ tuple_Pack L [TVersionstamp (fst e)]) b (tr_Clear L ?ix t)"
  have del: "ByRevision_Delete f (ByKeyAndRevision_Delete f \<lparr>kr_Key = entry_key e, kr_Rev = fst e\<rparr> t) (fst e) = Ok ?t1"
    using b(1) by (simp add: ByRevision_Delete_def ByKeyAndRevision_Delete_def spack_eq index_kv_def entry_key_def del: driver_simps(3,4))
  have view: "tr_view L ?t1 = (\<lambda>k. if prefix (?p @ tuple_Pack L [TVersionstamp (fst e)]) k then None else if k = ?ix then None else tr_view L t k)"
    by (simp add: clear_range_view clear_view b(2) fun_eq_iff del: driver_simps(3,4))
  have ix: "prefix (f_byKeyAndRevision f) ?ix" by (rule subspace_keys)
  have q: "\<not> prefix (?p @ s) k" if "\<not> prefix ?p k" for k s using that by (meson append_prefixD)
  have "represents f (tr_view L ?t1) (filter (\<lambda>x. x \<noteq> e) g)"
  proof (rule represents_remove [OF rep e live])
    fix k
    show "tr_view L ?t1 k = (if prefix (?p @ tuple_Pack L [TVersionstamp (fst e)]) k then None else tr_view L t k)" if "prefix ?p k"
      using subspaces_disjoint(1) [OF that] ix unfolding view by metis
    show "tr_view L ?t1 k = (if k = ?ix then None else tr_view L t k)" if "prefix (f_byKeyAndRevision f) k"
      using q [OF subspaces_disjoint(3) [OF that]] unfolding view by metis
    show "tr_view L ?t1 k = tr_view L t k" if "prefix (f_byKeyCurrent f) k"
      using q [OF subspaces_disjoint(5) [OF that]] subspaces_disjoint(6) [OF that] ix unfolding view by metis
  qed
  moreover have "tr_view L ?t1 (f_compactRev f) = tr_view L t (f_compactRev f)"
    using compactRev_not_prefix [of ?p "f_compactRev f"] compactRev_not_prefix [OF _ ix] q [of "f_compactRev f"] unfolding view by metis
  ultimately have "compact_tr f w v ?t1 (filter (\<lambda>x. x \<noteq> e) g)"
    using tr unfolding compact_tr_def driver_simps(1) by (simp add: frame_simps version_frame del: driver_simps)
  with del show ?thesis by blast
qed

lemma compact_next:
  assumes tr: "compact_tr f w v t g" and c: "compacting n h H g p" and b: "between p n g = e # es"
    and it: "ByRevision_GetFromIterator f it = Ok (Some (fst e, r), it')" "same_kind e r"
    and nxt: "compactProcessor_next f t it s = (res, s')"
  shows "(\<exists>err. res = Err err) \<or>
    (\<exists>t1 g1. res = Ok (Some (afterKey f (fst e)), True, t1, it') \<and> s' = s\<lparr>cp_batchCompacted := fst e\<rparr> \<and>
       compact_tr f w v t1 g1 \<and> compacting n h H g1 (rev_int (fst e)) \<and> between (rev_int (fst e)) n g1 = es)"
proof -
  have rep: "represents f (tr_view L t) g" "tr_pending L t = []" using tr by (simp_all add: compact_tr_def)
  have e: "e \<in> set g" using b by (metis between_def filter_is_subset list.set_intros(1) subsetD)
  note nx = compacting_next [OF c b]
  from getLast_sound [OF rep, of "entry_key e"] show ?thesis
  proof (elim disjE exE)
    fix err assume "getLast f t (entry_key e) = Err err"
    with nxt it show ?thesis by (auto simp: compactProcessor_next_def same_kind_def)
  next
    assume last: "getLast f t (entry_key e) = Ok (map_option index_record (last_entry g (entry_key e)))"
    obtain l where l: "last_entry g (entry_key e) = Some l"
      using e last_entry_None [of g "entry_key e"] by (auto simp: entry_key_def)
    have "l \<in> set g" using last_entry_Some(1) [OF l] .
    then have "fst l = fst e \<longleftrightarrow> l = e" using hist_rev_inj [of g l e] e rep(1) by (auto simp: represents_def hist_wf_def)
    then have dead: "(fst l \<noteq> fst e \<or> r_IsDelete (snd e)) = (\<not> live g e)" using l by (auto simp: live_def entry_key_def)
    have "r_Key r = entry_key e" "r_IsDelete r = r_IsDelete (snd e)" using it(2) by (simp_all add: same_kind_def)
    then have "compactProcessor_next f t it s = (case (if fst l \<noteq> fst e \<or> r_IsDelete (snd e) then ByRevision_Delete f (ByKeyAndRevision_Delete f \<lparr>kr_Key = entry_key e, kr_Rev = fst e\<rparr> t) (fst e)
        else Ok t) of Err er \<Rightarrow> (Err er, s) | Panic q \<Rightarrow> (Panic q, s)
      | Ok t1 \<Rightarrow> (Ok (Some (afterKey f (fst e)), True, t1, it'), s\<lparr>cp_batchCompacted := fst e\<rparr>))"
      by (simp add: compactProcessor_next_def it(1) last l index_record_def)
    note step = this [unfolded nxt dead]
    show ?thesis
    proof (cases "live g e")
      case True
      with step nx(1,3) tr show ?thesis by auto
    next
      case False
      have "live (filter (\<lambda>x. x \<noteq> e) g) x \<longleftrightarrow> live g x" for x
        using compacting_live [OF nx(2) [OF False]] compacting_live [OF c] by simp
      from compact_delete [OF tr e this] step False nx(2,4) show ?thesis by auto
    qed
  qed
qed

lemma compact_loop:
  assumes "iter_over f same_kind it (between p n g)" "compact_tr f w v t g" "compacting n h H g p"
    and "processBatch_loop (compactRange f) slow i t it s = (r, s')"
  shows "(\<exists>err. r = Err err) \<or> (\<exists>res t1. r = Ok (res, t1) \<and> compact_batch f n h H w v p s res t1 s')"
  using assms
proof (induction "between p n g" arbitrary: it t g p i s)
  case Nil
  then have b: "between p n g = []" by simp
  with Nil(2) consider it' where "ByRevision_GetFromIterator f it = Ok (None, it')" | err where "ByRevision_GetFromIterator f it = Err err" by auto
  then show ?case
  proof cases
    case 1
    then have "p_next (compactRange f) t it s = (Ok (None, False, t, it'), s)" by (simp add: compactRange_def compactProcessor_next_def)
    from Nil(5) [unfolded processBatch_loop_stop [OF this]] have "r = Ok (\<lparr>br_lastReadKey = None, br_collectorNeedsMore = False\<rparr>, t)" "s' = s" by simp_all
    with Nil(3,4) b show ?thesis by (auto simp: compact_batch_def)
  next
    case 2
    then have "p_next (compactRange f) t it s = (Err err, s)" by (simp add: compactRange_def compactProcessor_next_def)
    from Nil(5) [unfolded processBatch_loop_error [OF this]] show ?thesis by auto
  qed
next
  case (Cons e es)
  note b = Cons(2) [symmetric]
  from Cons.prems(1) [unfolded b] consider (fail) err where "ByRevision_GetFromIterator f it = Err err"
    | (get) x it' where "ByRevision_GetFromIterator f it = Ok (Some (fst e, x), it')" "same_kind e x"
        "length it' < length it" "iter_over f same_kind it' es" by auto
  then show ?case
  proof cases
    case fail
    then have "p_next (compactRange f) t it s = (Err err, s)" by (simp add: compactRange_def compactProcessor_next_def)
    from Cons.prems(4) [unfolded processBatch_loop_error [OF this]] show ?thesis by auto
  next
    case get
    obtain res1 s1 where nx: "compactProcessor_next f t it s = (res1, s1)" by fastforce
    have rep: "represents f (tr_view L t) g" using Cons.prems(2) by (simp add: compact_tr_def)
    have "e \<in> set g" using b by (metis between_def filter_is_subset list.set_intros(1) subsetD)
    then have rev: "is_revision (fst e)" using rep by (auto simp: represents_def entry_ok_def)
    have le: "p \<le> rev_int (fst e)" using between_Cons(1) [OF compactingD(5) [OF Cons.prems(3)] b] by simp
    from compact_next [OF Cons.prems(2,3) b get(1,2) nx] show ?thesis
    proof (elim disjE exE conjE)
      fix err assume "res1 = Err err"
      with nx have "p_next (compactRange f) t it s = (Err err, s1)" by (simp add: compactRange_def)
      from Cons.prems(4) [unfolded processBatch_loop_error [OF this]] show ?thesis by auto
    next
      fix t1 g1 assume *: "res1 = Ok (Some (afterKey f (fst e)), True, t1, it')" "s1 = s\<lparr>cp_batchCompacted := fst e\<rparr>"
        "compact_tr f w v t1 g1" "compacting n h H g1 (rev_int (fst e))" "between (rev_int (fst e)) n g1 = es"
      with nx have "p_next (compactRange f) t it s = (Ok (Some (afterKey f (fst e)), True, t1, it'), s1)" by (simp add: compactRange_def)
      from Cons.prems(4) [unfolded processBatch_loop_step [OF this get(3)]] have loop:
        "(r, s') = (if slow i then (Ok (\<lparr>br_lastReadKey = Some (afterKey f (fst e)), br_collectorNeedsMore = True\<rparr>, t1), s1)
          else processBatch_loop (compactRange f) slow (Suc i) t1 it' s1)" by simp
      show ?thesis
      proof (cases "slow i")
        case True
        with loop * rev le show ?thesis by (auto simp: compact_batch_def)
      next
        case False
        with loop have "processBatch_loop (compactRange f) slow (Suc i) t1 it' s1 = (r, s')" by simp
        from Cons(1) [OF *(5) [symmetric] _ *(3,4) this] get(4) *(5) have "(\<exists>err. r = Err err) \<or>
            (\<exists>res t1. r = Ok (res, t1) \<and> compact_batch f n h H w v (rev_int (fst e)) s1 res t1 s')" by simp
        then show ?thesis using compact_batch_step [OF _ rev le *(2)] by blast
      qed
    qed
  qed
qed

end

section \<open>What a compaction keeps\<close>

lemma compacting_filter:
  assumes "compacting n h H g p" "\<And>e. e \<in> set H \<Longrightarrow> P e \<Longrightarrow> e \<in> set g"
  shows "filter P g = filter P H"
proof -
  have "g = filter (\<lambda>e. e \<in> set g) H" using assms(1) by (simp add: compacting_def)
  then have "filter P g = filter (\<lambda>e. e \<in> set g \<and> P e) H" by (metis filter_filter)
  also have "\<dots> = filter P H" using assms(2) by (intro filter_cong) auto
  finally show ?thesis .
qed

lemma compacting_snapshot:
  assumes "compacting n h H g p"
  shows "snapshot K g = snapshot K H"
  unfolding snapshot_def compacting_live [OF assms]
  by (rule arg_cong [where f = "sort_key entry_key"], rule compacting_filter [OF assms]) (use compactingD(6) [OF assms] in blast)

lemma compacting_since:
  assumes "compacting n h H g p"
  shows "since n g = since n H"
  unfolding since_def by (rule compacting_filter [OF assms]) (use compactingD(6) [OF assms] in blast)

lemma compacting_extends:
  assumes "compacting n h H g p" "extends V g g'" "rising g'" "\<forall>e\<in>set H. rev_int (fst e) \<le> V" "n \<le> V"
  shows "\<exists>H'. extends V H H' \<and> compacting n h H' g' p"
proof -
  from assms(2) obtain h' where g': "g' = g @ h'" "\<forall>e\<in>set h'. V < rev_int (fst e)" by (auto simp: extends_def)
  have "compacting n h (H @ h') (g @ h') p"
    by (rule compacting_env [OF assms(1)]) (use assms(3-5) g' in \<open>auto simp: sorted_wrt_append intro: le_less_trans\<close>)
  moreover have "extends V H (H @ h')" using g'(2) by (auto simp: extends_def)
  ultimately show ?thesis using g'(1) by blast
qed

section \<open>The whole compaction\<close>

text \<open>
  The database while \<open>h\<close>, held at version \<open>V\<close> under the mark \<open>R0\<close>, is compacted to \<open>n\<close>, with everything up to \<open>p\<close> done.
\<close>

definition compacted :: "('d, 't) FDB \<Rightarrow> int64 \<Rightarrow> entry list \<Rightarrow> int64 \<Rightarrow> int64 \<Rightarrow> int64 \<Rightarrow> 'd \<Rightarrow> bool" where
  "compacted f n h V R0 p d \<longleftrightarrow>
     (\<exists>H g R. db_holds f d g R \<and> compacting n h H g p \<and> (\<forall>e\<in>set H. rev_int (fst e) \<le> db_version (f_lib f) d) \<and>
        extends V h H \<and> V \<le> db_version (f_lib f) d \<and> (R = R0 \<or> R \<le> n))"

definition compact_inv ::
    "('d, 't) FDB \<Rightarrow> int64 \<Rightarrow> entry list \<Rightarrow> int64 \<Rightarrow> int64 \<Rightarrow> selector \<times> selector \<Rightarrow> 'd \<Rightarrow> 't compactProcessor \<Rightarrow> bool" where
  "compact_inv f n h V R0 sel d c \<longleftrightarrow> (\<exists>p. compacted f n h V R0 p d \<and> compact_range f n sel p)"

definition compact_post ::
    "('d, 't) FDB \<Rightarrow> int64 \<Rightarrow> entry list \<Rightarrow> int64 \<Rightarrow> int64 \<Rightarrow> batchResult \<Rightarrow> 'd \<Rightarrow> 't compactProcessor \<Rightarrow> bool" where
  "compact_post f n h V R0 res d c \<longleftrightarrow>
     (if br_collectorNeedsMore res
      then \<exists>x. is_revision x \<and> br_lastReadKey res = Some (afterKey f x) \<and> compacted f n h V R0 (rev_int x) d
      else compacted f n h V R0 n d \<and> cp_lastTr c \<noteq> None)"

lemma compacted_back: "compacted f n h V R0 p d \<Longrightarrow> p' \<le> p \<Longrightarrow> compacted f n h V R0 p' d"
  unfolding compacted_def using compacting_back by blast

context fdb_driver
begin

lemma represents_other:
  assumes "\<And>k. prefix (f_byRevision f) k \<or> prefix (f_byKeyAndRevision f) k \<or> prefix (f_byKeyCurrent f) k \<Longrightarrow> m' k = m k" "represents f m h"
  shows "represents f m' h"
  using assms by (auto simp: represents_def agree_on_def current_agrees_def simp del: driver_simps(3-5))

lemma compact_env:
  assumes "appending f a" "n \<le> V" "compacted f n h V R0 p d"
  shows "compacted f n h V R0 p (at_before a d)"
proof -
  from assms(3) obtain H g R where i: "db_holds f d g R" "compacting n h H g p" "\<forall>e\<in>set H. rev_int (fst e) \<le> db_version L d"
      "extends V h H" "V \<le> db_version L d" "R = R0 \<or> R \<le> n"
    unfolding compacted_def driver_simps(1) by blast
  from assms(1) i(1) obtain h' where h': "db_holds f (at_before a d) (g @ h') R" "db_version L d \<le> db_version L (at_before a d)"
      "\<forall>e\<in>set h'. db_version L d < rev_int (fst e)"
    unfolding appending_def driver_simps(1) by blast
  have "compacting n h (H @ h') (g @ h') p"
  proof (rule compacting_env [OF i(2)])
    show "rising h'" using db_holds_sorted [OF h'(1)] by (simp add: sorted_wrt_append)
  qed (use i(3,5) h'(3) assms(2) in force)+
  moreover have "\<forall>e\<in>set (H @ h'). rev_int (fst e) \<le> db_version L (at_before a d)"
    using i(3) h'(1,2) by (auto simp: db_holds_def)
  moreover have "extends V h (H @ h')" by (rule extends_append [OF i(4,5) h'(3)])
  moreover have "V \<le> db_version L (at_before a d)" using i(5) h'(2) by simp
  ultimately show ?thesis using h'(1) i(6) unfolding compacted_def driver_simps(1) by blast
qed

text \<open>The commit of a batch, with the mark moved to the last entry looked at.\<close>

lemma compact_commit:
  assumes "compact_tr f (db_view L d (f_compactRev f)) (db_version L d) t g" "compacting n h H g p" "db_holds f d g0 R"
    and "\<forall>e\<in>set H. rev_int (fst e) \<le> db_version L d" "extends V h H" "V \<le> db_version L d" "R = R0 \<or> R \<le> n"
    and "is_revision x \<Longrightarrow> rev_int x \<le> n" "w \<longrightarrow> is_revision x"
  shows "compacted f n h V R0 p (tr_Commit L st (if w then CompactRevision_Write f x t else t))"
proof -
  let ?t = "if w then CompactRevision_Write f x t else t" and ?d = "tr_Commit L st (if w then CompactRevision_Write f x t else t)"
  have view: "tr_view L ?t = (if w then (tr_view L t)(f_compactRev f \<mapsto> tuple_Pack L [TVersionstamp x]) else tr_view L t)"
    by (simp add: CompactRevision_Write_def set_view del: driver_simps(7))
  have t: "tr_pending L ?t = []" "tr_version L ?t = db_version L d" "represents f (tr_view L t) g"
      "tr_view L t (f_compactRev f) = db_view L d (f_compactRev f)"
    using assms(1) by (simp_all add: compact_tr_def CompactRevision_Write_def frame_simps version_frame del: driver_simps(7))
  have d: "db_view L ?d = tr_view L ?t" "db_version L d \<le> db_version L ?d"
    using t(1,2) commit_version(1) [of ?t st] by (simp_all only: commit_view stamp_all_def foldl_Nil)
  have "represents f (tr_view L ?t) g"
    by (rule represents_other [OF _ t(3)]) (use compactRev_not_prefix in \<open>auto simp: view simp del: driver_simps(3-5,7)\<close>)
  moreover have "watermark f (tr_view L ?t) (if w then rev_int x else R)"
    using assms(3,9) t(4) unfolding view by (auto simp: db_holds_def watermark_def simp del: driver_simps(7) split: option.splits)
  moreover have "\<forall>e\<in>set H. rev_int (fst e) \<le> db_version L ?d" "V \<le> db_version L ?d" "0 < db_version L ?d"
    using assms(3,4,6) d(2) by (auto simp: db_holds_def)
  moreover have "set g \<subseteq> set H" by (rule compactingD(4) [OF assms(2)])
  ultimately have "db_holds f ?d g (if w then rev_int x else R)" unfolding db_holds_def driver_simps(1) d(1) by blast
  moreover have "(if w then rev_int x else R) = R0 \<or> (if w then rev_int x else R) \<le> n" using assms(7-9) by simp
  ultimately show ?thesis
    using assms(2,5) \<open>\<forall>e\<in>set H. rev_int (fst e) \<le> db_version L ?d\<close> \<open>V \<le> db_version L ?d\<close> unfolding compacted_def driver_simps(1) by blast
qed

lemma compactRange_simps [simp]:
  "p_streamingMode (compactRange f) = StreamingModeIterator" "p_snapshotReads (compactRange f) = False"
  "p_startBatch (compactRange f) = compactProcessor_startBatch f" "p_endBatch (compactRange f) = compactProcessor_endBatch f"
  "p_postBatch (compactRange f) = compactProcessor_postBatch"
  by (simp_all add: compactRange_def)

lemma compact_body:
  assumes "revision_ok n" "compacted f n h V R0 p d" "compact_range f n sel p" "reads L t d"
    and "processBatch_body f (compactRange f) sel a t s = (r, s')"
  shows "(\<exists>err. r = Err err) \<or> (\<exists>res t'. r = Ok (res, t') \<and> compacted f n h V R0 p (tr_Commit L (at_stamp a) t') \<and>
    compact_post f n h V R0 res (tr_Commit L (at_stamp a) t') s')"
proof -
  from assms(2) obtain H g R where i: "db_holds f d g R" "compacting n h H g p" "\<forall>e\<in>set H. rev_int (fst e) \<le> db_version L d"
      "extends V h H" "V \<le> db_version L d" "R = R0 \<or> R \<le> n"
    unfolding compacted_def driver_simps(1) by blast
  let ?w = "db_view L d (f_compactRev f)" and ?v = "db_version L d" and ?s = "compactProcessor_startBatch f s"
  let ?it = "tr_GetRange L False t (fst sel) (snd sel) \<lparr>ro_Limit = 0, ro_Mode = StreamingModeIterator, ro_Reverse = False\<rparr>"
  have t: "compact_tr f ?w ?v t g" using i(1) assms(4) by (simp add: compact_tr_def reads_def db_holds_def)
  then have it: "iter_over f same_kind ?it (between p n g)"
    by (intro compact_iterator [OF _ _ compactingD(5) [OF i(2)] assms(3,1) compactingD(3) [OF i(2)]]) (simp_all add: compact_tr_def)
  obtain r1 s1 where loop: "processBatch_loop (compactRange f) (at_slow a) 0 t ?it ?s = (r1, s1)" by fastforce
  from compact_loop [OF it t i(2) loop] show ?thesis
  proof (elim disjE exE conjE)
    fix err assume "r1 = Err err"
    with assms(5) loop show ?thesis by (auto simp: processBatch_body_def)
  next
    fix res t1 assume r1: "r1 = Ok (res, t1)" and "compact_batch f n h H ?w ?v p ?s res t1 s1"
    then obtain g1 p1 where b: "compact_tr f ?w ?v t1 g1" "compacting n h H g1 p1" "p \<le> p1"
        "if br_collectorNeedsMore res then br_lastReadKey res = Some (afterKey f (cp_batchCompacted s1)) else between p1 n g1 = []"
        "s1 = ?s \<and> p1 = p \<and> \<not> br_collectorNeedsMore res \<or> is_revision (cp_batchCompacted s1) \<and> rev_int (cp_batchCompacted s1) = p1"
      unfolding compact_batch_def by blast
    define x w where "x = cp_batchCompacted s1" and "w = (cp_batchCompacted s1 \<noteq> dummyVersionstamp f)"
    have dummy: "\<not> is_revision (dummyVersionstamp f)" using dummy_not_revision by simp
    have w: "w \<longrightarrow> is_revision x" "is_revision x \<Longrightarrow> rev_int x = p1"
      using b(5) dummy by (auto simp: x_def w_def compactProcessor_startBatch_def)
    let ?d = "tr_Commit L (at_stamp a) (if w then CompactRevision_Write f x t1 else t1)"
    have p1: "compacted f n h V R0 p1 ?d"
      by (rule compact_commit [OF b(1,2) i(1,3-6)]) (use w compactingD(3) [OF b(2)] in auto)
    have r: "r = Ok (res, if w then CompactRevision_Write f x t1 else t1)"
      "s' = (if br_collectorNeedsMore res then s1 else s1\<lparr>cp_lastTr := Some (if w then CompactRevision_Write f x t1 else t1)\<rparr>)"
      using assms(5) loop r1 by (auto simp: processBatch_body_def compactProcessor_endBatch_def Let_def x_def w_def)
    have "compact_post f n h V R0 res ?d s'"
    proof (cases "br_collectorNeedsMore res")
      case True
      with b(4,5) p1 show ?thesis unfolding compact_post_def by auto
    next
      case False
      with compacting_done [OF b(2)] b(4) have "compacting n h H g1 n" by simp
      from compact_commit [OF b(1) this i(1,3-6), where x = x and w = w] w compactingD(3) [OF b(2)] have "compacted f n h V R0 n ?d" by simp
      with False r(2) show ?thesis by (simp add: compact_post_def)
    qed
    with r(1) compacted_back [OF p1 b(3)] show ?thesis by blast
  qed
qed

lemma compact_attempt:
  assumes "revision_ok n" "n \<le> V" "appending f a"
  shows "attempt_ok L (compact_inv f n h V R0 sel) (\<lambda>res st. compact_post f n h V R0 res) (processBatch_body f (compactRange f) sel) a"
  unfolding attempt_ok_def
proof (intro conjI allI impI)
  fix d c assume "compact_inv f n h V R0 sel d c"
  then show "compact_inv f n h V R0 sel (at_before a d) c" using compact_env [OF assms(3,2)] unfolding compact_inv_def by blast
next
  fix d c t r c' assume *: "compact_inv f n h V R0 sel d c \<and> reads L t d \<and> processBatch_body f (compactRange f) sel a t c = (r, c')"
  then show "compact_inv f n h V R0 sel d c'" unfolding compact_inv_def by blast
  from * obtain p where "compacted f n h V R0 p d" "compact_range f n sel p" unfolding compact_inv_def by blast
  with compact_body [OF assms(1) this] * show "(\<exists>e. r = Err e) \<or> (\<exists>x t'. r = Ok (x, t') \<and>
      compact_inv f n h V R0 sel (tr_Commit L (at_stamp a) t') c' \<and> compact_post f n h V R0 x (tr_Commit L (at_stamp a) t') c')"
    unfolding compact_inv_def by blast
qed

lemma compact_next_range:
  assumes "compact_post f n h V R0 res d c" "br_collectorNeedsMore res"
    and "stop = FirstGreaterThan (f_byRevision f @ tuple_Pack L [TVersionstamp (int64ToVersionstamp n)])"
  shows "\<exists>k. br_lastReadKey res = Some k \<and> compact_inv f n h V R0 (FirstGreaterThan k, stop) d c'"
  using assms log_range_after by (auto simp: compact_post_def compact_inv_def compact_range_def simp del: driver_simps(3))

lemma Compact_result:
  assumes "\<not> UseSequentialId cfg" "revision_ok n" "n \<le> db_version L (d_db s)" "db_holds f (d_db s) h R"
    and "\<forall>script\<in>set scripts. \<forall>a\<in>set script. appending f a" "Compact f n scripts s = Some (r, s')"
  shows "s' = s\<lparr>d_db := d_db s'\<rparr>" "\<exists>p. compacted f n h (db_version L (d_db s)) R p (d_db s') \<and> ((\<exists>err. r = Err err) \<or> (\<exists>x. r = Ok x) \<and> p = n)"
proof -
  let ?V = "db_version L (d_db s)" and ?b = "FirstGreaterOrEqual (f_byRevision f @ [0])"
    and ?e = "FirstGreaterThan (f_byRevision f @ tuple_Pack L [TVersionstamp (int64ToVersionstamp n)])"
  let ?Inv = "compact_inv f n h ?V R" and ?Post = "\<lambda>sel res st. compact_post f n h ?V R res"
  have range: "compact_range f n (?b, ?e) (- 1)" using log_range_all by (simp add: compact_range_def del: driver_simps(3))
  have n: "0 \<le> n" using assms(2) by (simp add: revision_ok_def)
  have "\<forall>e\<in>set h. - 1 < rev_int (fst e)" using db_holds_wf(4) [OF assms(4)] revision_int64(2) by force
  then have "compacting n h h h (- 1)" using n by (intro compacting_start [OF db_holds_sorted [OF assms(4)]]) auto
  then have start: "?Inv (?b, ?e) (d_db s) newCompactProcessor"
    using range assms(4) extends_refl unfolding compact_inv_def compacted_def db_holds_def driver_simps(1) by blast
  from assms(6) obtain pr st d c where p: "processRange f (compactRange f) (?b, ?e) scripts (d_db s) newCompactProcessor = Some (pr, st, d, c)"
    and r: "r = res_bind pr (\<lambda>_. case cp_lastTr c of None \<Rightarrow> Panic (RuntimePanic ''nil pointer dereference'')
         | Some t \<Rightarrow> res_of_sum (tr_GetCommittedVersion (f_lib f) st t))" "s' = s\<lparr>d_db := d\<rparr>"
    using assms(1) by (auto simp: Compact_def Let_def range_keys_eq spack_eq simp del: driver_simps(3))
  then show "s' = s\<lparr>d_db := d_db s'\<rparr>" by simp
  have step: "attempt_ok L (?Inv sel) (?Post sel) (processBatch_body f (compactRange f) sel) a"
    if "script \<in> set scripts" "a \<in> set script" for sel script a
    using compact_attempt [OF assms(2,3)] assms(5) that by blast
  have more: "\<exists>k. br_lastReadKey res = Some k \<and> ?Inv (FirstGreaterThan k, ?e) d1 (p_postBatch (compactRange f) c1)"
    if "?Post sel res st1 d1 c1" "br_collectorNeedsMore res" for sel res st1 d1 c1
    using that by (rule compact_next_range) (rule refl)
  have "(\<exists>e sel1 s1. pr = Err e \<and> c = p_postBatch (compactRange f) s1 \<and> ?Inv sel1 d s1) \<or>
    (\<exists>sel1 res s1. pr = Ok () \<and> c = p_postBatch (compactRange f) s1 \<and> snd sel1 = ?e \<and>
      compact_post f n h ?V R res d s1 \<and> \<not> br_collectorNeedsMore res)"
    using processRange_keeps [where Inv = ?Inv and Post = ?Post and stop = ?e, OF _ _ start _ p] step more by simp
  then show "\<exists>p. compacted f n h ?V R p (d_db s') \<and> ((\<exists>err. r = Err err) \<or> (\<exists>x. r = Ok x) \<and> p = n)"
  proof (elim disjE exE conjE)
    fix e sel1 s1 assume "pr = Err e" "?Inv sel1 d s1"
    with r show ?thesis by (auto simp: compact_inv_def)
  next
    fix sel1 res s1 assume *: "pr = Ok ()" "c = p_postBatch (compactRange f) s1" "?Post sel1 res st d s1" "\<not> br_collectorNeedsMore res"
    then have c: "compacted f n h ?V R n d" "cp_lastTr c \<noteq> None" by (simp_all add: compact_post_def compactProcessor_postBatch_def)
    then obtain t where "r = res_of_sum (tr_GetCommittedVersion (f_lib f) st t)" using r(1) *(1) by auto
    then have "(\<exists>err. r = Err err) \<or> (\<exists>x. r = Ok x)" by (cases "tr_GetCommittedVersion (f_lib f) st t") simp_all
    with c(1) r(2) show ?thesis by auto
  qed
qed

lemma Compact_kept:
  assumes "\<not> UseSequentialId cfg" "revision_ok n" "n \<le> db_version L (d_db s)" "db_holds f (d_db s) h R"
    and "\<forall>script\<in>set scripts. \<forall>a\<in>set script. appending f a" "Compact f n scripts s = Some (r, s')"
  shows "s' = s\<lparr>d_db := d_db s'\<rparr> \<and>
    (\<exists>H g R'. extends (db_version L (d_db s)) h H \<and> db_holds f (d_db s') g R' \<and> (R' = R \<or> R' \<le> n) \<and>
       g = filter (\<lambda>e. e \<in> set g) H \<and> (\<forall>K. snapshot K g = snapshot K H) \<and> since n g = since n H \<and>
       ((\<exists>err. r = Err err) \<or> (\<exists>v. r = Ok v) \<and> (\<forall>e\<in>set g. rev_int (fst e) \<le> n \<longrightarrow> live h e)))"
proof -
  from Compact_result(2) [OF assms] obtain p where "compacted f n h (db_version L (d_db s)) R p (d_db s')"
    and r: "(\<exists>err. r = Err err) \<or> (\<exists>v. r = Ok v) \<and> p = n" by blast
  then obtain H g R' where c: "db_holds f (d_db s') g R'" "compacting n h H g p" "extends (db_version L (d_db s)) h H" "R' = R \<or> R' \<le> n"
    unfolding compacted_def driver_simps(1) by blast
  have "g = filter (\<lambda>e. e \<in> set g) H" using c(2) by (simp add: compacting_def)
  moreover have "\<forall>K. snapshot K g = snapshot K H" "since n g = since n H" by (simp_all add: compacting_snapshot [OF c(2)] compacting_since [OF c(2)])
  moreover have "\<forall>e\<in>set g. rev_int (fst e) \<le> n \<longrightarrow> live h e" if "p = n" using compactingD(7) [OF c(2)] that by blast
  ultimately show ?thesis using c(1,3,4) r Compact_result(1) [OF assms] by blast
qed

text \<open>Lists after a compaction are those of the history as if there had been none.\<close>

lemma Compact_List:
  assumes "\<not> UseSequentialId cfg" "revision_ok n" "n \<le> db_version L (d_db s)" "db_holds f (d_db s) h R"
    and "\<forall>script\<in>set scripts. \<forall>a\<in>set script. appending f a" "Compact f n scripts s = Some (r, s1)"
    and "\<forall>script\<in>set scripts'. \<forall>a\<in>set script. appending f a" "0 \<le> limit"
    and "List f pre startKey limit 0 keysOnly scripts' s1 = Some (Ok (F, kvs), s2)"
  shows "\<exists>H g R'. extends (db_version L (d_db s)) h H \<and> listed f keysOnly limit (snapshot (list_keys pre startKey) H) kvs \<and>
    db_holds f (d_db s2) g R' \<and> prefix (since n H) (since n g)"
proof -
  from Compact_result(2) [OF assms(1-6)] obtain p where "compacted f n h (db_version L (d_db s)) R p (d_db s1)" by blast
  then obtain H g R' where c: "db_holds f (d_db s1) g R'" "compacting n h H g p" "extends (db_version L (d_db s)) h H"
      "\<forall>e\<in>set H. rev_int (fst e) \<le> db_version L (d_db s1)" "db_version L (d_db s) \<le> db_version L (d_db s1)"
    unfolding compacted_def driver_simps(1) by blast
  from List_result [OF assms(1,7) c(1) assms(8,9)] obtain h0 h' where l: "read_at f (db_version L (d_db s1)) 0 g R' F (d_db s2) h0 h'"
      "listed f keysOnly limit (snapshot (list_keys pre startKey) h0) kvs"
    unfolding at_revision_def by auto
  then have e: "extends (db_version L (d_db s1)) g h0" and h0: "db_holds f (d_db s2) (h0 @ h') R'" by (auto simp: read_at_def split_at_def)
  have "rising h0" using db_holds_sorted [OF h0] by (simp add: sorted_wrt_append)
  from compacting_extends [OF c(2) e this c(4)] assms(3) c(5) obtain H0 where
    H0: "extends (db_version L (d_db s1)) H H0" "compacting n h H0 h0 p" by auto
  have "prefix (since n H0) (since n (h0 @ h'))" by (simp add: since_append compacting_since [OF H0(2)])
  then show ?thesis using l(2) extends_trans [OF c(3,5) H0(1)] h0 unfolding compacting_snapshot [OF H0(2)] by blast
qed

end

end
