(* ===== verification/FDB_Counts.thy ===== *)
theory FDB_Counts
  imports FDB_Poll FDB_Lists
begin

text \<open>
  The count tracker (\<^verbatim>\<open>src/pkg/drivers/fdb/fdb_count.go\<close>): fed with the events of the log from the revision it was seeded at, its
  count of a prefix is the number of live keys a scan would find.
\<close>

section \<open>Histories of writes\<close>

text \<open>
  An entry creates its key exactly if the key is not there; a creation is no deletion. Of a history, this is said of the entries after
  a revision \<open>c\<close>: before it, compaction may have removed what they refer to.
\<close>

definition succeeds :: "entry list \<Rightarrow> entry \<Rightarrow> bool" where
  "succeeds h e \<longleftrightarrow> (r_IsCreate (snd e) \<longleftrightarrow> live_entry h (entry_key e) = None) \<and> (r_IsCreate (snd e) \<longrightarrow> \<not> r_IsDelete (snd e))"

definition alternates :: "int64 \<Rightarrow> entry list \<Rightarrow> bool" where
  "alternates c h \<longleftrightarrow> (\<forall>h1 e h2. h = h1 @ e # h2 \<longrightarrow> c < rev_int (fst e) \<longrightarrow> succeeds h1 e)"

lemma alternates_append: "alternates c (h @ h') \<Longrightarrow> alternates c h"
  unfolding alternates_def by (metis append_Cons append_assoc)

lemma alternates_mono: "c \<le> c' \<Longrightarrow> alternates c h \<Longrightarrow> alternates c' h"
  unfolding alternates_def using le_less_trans by blast

lemma alternates_snoc:
  assumes "alternates c h" "succeeds h e"
  shows "alternates c (h @ [e])"
  unfolding alternates_def
proof (intro allI impI)
  fix h1 e' h2 assume *: "h @ [e] = h1 @ e' # h2" "c < rev_int (fst e')"
  show "succeeds h1 e'"
  proof (cases h2 rule: rev_cases)
    case Nil
    with * assms(2) show ?thesis by simp
  next
    case (snoc ys y)
    with *(1) have "h = h1 @ e' # ys" by simp
    with * assms(1) show ?thesis unfolding alternates_def by blast
  qed
qed

text \<open>The three writes keep this.\<close>

lemma mvcc_follows:
  "mvcc_create f key val lease u h = Some r \<Longrightarrow> succeeds h (v, r)"
  "mvcc_update key val revision lease u h = Some r \<Longrightarrow> succeeds h (v, r)"
  "mvcc_delete key revision u h = Some r \<Longrightarrow> succeeds h (v, r)"
  using last_entry_Some(2) [of h key]
  by (auto simp: mvcc_create_def mvcc_update_def mvcc_delete_def succeeds_def live_entry_def entry_key_def Let_def
      split: option.splits if_splits)

text \<open>Calls of the three writes of a key.\<close>

inductive write_call :: "('d, 't) FDB \<Rightarrow> bytes \<Rightarrow> bytes \<Rightarrow> 'd attempt list \<Rightarrow> 'd driver \<Rightarrow> 'd driver \<Rightarrow> bool"
    for f key uuid script s s' where
  write_create: "input_ok key val lease \<Longrightarrow> Create f key val lease uuid script s = Some (r, s') \<Longrightarrow> write_call f key uuid script s s'"
| write_update: "input_ok key val lease \<Longrightarrow> Update f key val revision lease uuid script s = Some (r, s') \<Longrightarrow> write_call f key uuid script s s'"
| write_delete: "Delete f key revision uuid script s = Some (r, s') \<Longrightarrow> write_call f key uuid script s s'"

context fdb_driver
begin

lemma mvcc_key:
  "mvcc_create f key val lease u h = Some r \<Longrightarrow> r_Key r = key"
  "mvcc_update key val revision lease u h = Some r \<Longrightarrow> r_Key r = key"
  "mvcc_delete key revision u h = Some r \<Longrightarrow> r_Key r = key"
  using last_entry_Some(2) [of h key]
  by (auto simp: mvcc_create_def mvcc_update_def mvcc_delete_def Let_def split: option.splits if_splits)

lemma call_result_alternates:
  assumes "call_result f key U spec answer h res s'" "alternates c (of_key key h)"
    and "\<And>u r v. spec u h = Some r \<Longrightarrow> succeeds h (v, r) \<and> r_Key r = key"
  shows "\<exists>h'. represents f (db_view L (d_db s')) h' \<and> alternates c (of_key key h')"
proof -
  from assms(1) obtain h' a where h': "represents f (db_view L (d_db s')) h'"
      "of_key key h' = of_key key h @ (case a of None \<Rightarrow> [] | Some e \<Rightarrow> [e])"
      "case a of None \<Rightarrow> True | Some e \<Rightarrow> \<exists>u\<in>U. spec u h = Some (snd e)"
    unfolding call_result_def driver_simps(1) by blast
  have "alternates c (of_key key h')"
  proof (cases a)
    case None
    with h'(2) assms(2) show ?thesis by simp
  next
    case (Some e)
    with h'(3) assms(3) [of _ "snd e" "fst e"] have e: "succeeds h e" "r_Key (snd e) = key" by auto
    have "live_entry (of_key key h) key = live_entry h key"
      unfolding live_entry_def by (subst last_entry_local [of key "of_key key h" h]) simp_all
    with e have "succeeds (of_key key h) e" by (simp add: succeeds_def entry_key_def)
    with Some h'(2) assms(2) show ?thesis by (simp add: alternates_snoc)
  qed
  with h'(1) show ?thesis by blast
qed

lemma write_call_alternates:
  assumes "\<not> UseSequentialId cfg" "starts f key lo uuid script s h" "alternates c (of_key key h)" "write_call f key uuid script s s'"
  shows "\<exists>h'. represents f (db_view L (d_db s')) h' \<and> alternates c (of_key key h')"
  using assms(4)
proof cases
  case (write_create val lease r)
  from call_result_alternates [OF Create_result [OF assms(1) write_create(1) assms(2) write_create(2)] assms(3)] show ?thesis
    using mvcc_follows(1) mvcc_key(1) by blast
next
  case (write_update val lease revision r)
  from call_result_alternates [OF Update_result [OF assms(1) write_update(1) assms(2) write_update(2)] assms(3)] show ?thesis
    using mvcc_follows(2) mvcc_key(2) by blast
next
  case (write_delete revision r)
  from call_result_alternates [OF Delete_result [OF assms(1,2) write_delete] assms(3)] show ?thesis
    using mvcc_follows(3) mvcc_key(3) by blast
qed

end

section \<open>The number of live keys\<close>

definition live_keys :: "(bytes \<Rightarrow> bool) \<Rightarrow> entry list \<Rightarrow> bytes set" where
  "live_keys K h = {k. K k \<and> live_entry h k \<noteq> None}"

lemma live_entry_snoc:
  "live_entry (h @ [e]) k = (if k = entry_key e then if r_IsDelete (snd e) then None else Some e else live_entry h k)"
  by (auto simp: live_entry_def last_entry_snoc entry_key_def)

lemma live_keys_finite: "finite (live_keys K h)"
proof (rule finite_subset)
  show "live_keys K h \<subseteq> entry_key ` set h"
    using live_in by (force simp: live_keys_def live_entry_iff)
qed simp

lemma live_keys_snoc:
  assumes "succeeds h e"
  shows "int (card (live_keys K (h @ [e]))) = int (card (live_keys K h)) +
    (if K (entry_key e) then if r_IsCreate (snd e) then 1 else if r_IsDelete (snd e) then - 1 else 0 else 0)"
proof -
  let ?k = "entry_key e" and ?l = "live_keys K h"
  note fin = live_keys_finite [of K h]
  have mem: "?k \<in> ?l \<longleftrightarrow> K ?k \<and> \<not> r_IsCreate (snd e)" using assms by (auto simp: live_keys_def succeeds_def)
  consider (other) "\<not> K ?k" | (create) "K ?k" "r_IsCreate (snd e)" "\<not> r_IsDelete (snd e)"
    | (delete) "K ?k" "\<not> r_IsCreate (snd e)" "r_IsDelete (snd e)" | (update) "K ?k" "\<not> r_IsCreate (snd e)" "\<not> r_IsDelete (snd e)"
    using assms by (auto simp: succeeds_def)
  then show ?thesis
  proof cases
    case other
    then have "live_keys K (h @ [e]) = ?l" by (auto simp: live_keys_def live_entry_snoc)
    with other show ?thesis by simp
  next
    case create
    then have "live_keys K (h @ [e]) = insert ?k ?l" by (auto simp: live_keys_def live_entry_snoc)
    with create mem fin show ?thesis by simp
  next
    case delete
    then have "live_keys K (h @ [e]) = ?l - {?k}" by (auto simp: live_keys_def live_entry_snoc)
    moreover have "?k \<in> ?l" using delete mem by simp
    ultimately show ?thesis using delete fin card_Suc_Diff1 [OF fin, of ?k] by simp
  next
    case update
    then have "live_keys K (h @ [e]) = insert ?k ?l" by (auto simp: live_keys_def live_entry_snoc)
    with update mem fin show ?thesis by (simp add: insert_absorb)
  qed
qed

context fdb_driver
begin

lemma length_snapshot:
  assumes "hist_wf h"
  shows "length (snapshot K h) = card (live_keys K h)"
proof -
  have "set (snapshot K h) = {e \<in> set h. K (entry_key e) \<and> live h e}" by (auto simp: snapshot_def)
  then have "entry_key ` set (snapshot K h) = live_keys K h"
    using live_in by (auto simp: live_keys_def live_entry_iff image_iff)
  moreover have "inj_on entry_key (set (snapshot K h))" using live_unique by (auto simp: snapshot_def intro!: inj_onI)
  moreover have "distinct (snapshot K h)" using hist_distinct assms by (simp add: snapshot_def hist_wf_def)
  ultimately show ?thesis by (metis card_image distinct_card)
qed

end

section \<open>The tracker\<close>

definition until :: "int64 \<Rightarrow> entry list \<Rightarrow> entry list" where
  "until n h = filter (\<lambda>e. rev_int (fst e) \<le> n) h"

lemma until_extends: "extends V h H \<Longrightarrow> n \<le> V \<Longrightarrow> until n H = until n h"
proof -
  assume "extends V h H" "n \<le> V"
  then obtain h' where h': "H = h @ h'" "\<forall>e\<in>set h'. \<not> rev_int (fst e) \<le> n" by (fastforce simp: extends_def)
  then show ?thesis by (simp add: until_def)
qed

lemma list_keys_prefix: "list_keys pre pre key \<longleftrightarrow> doesEventHavePrefix key pre"
  using prefix_imp_le [of pre key] by (auto simp: list_keys_def doesEventHavePrefix_def)

text \<open>
  At cursor \<open>c\<close>, the entry of a prefix counts the live keys at the cursor, or at the revision of the scan it was seeded from while
  the cursor is behind it.
\<close>

definition counted :: "entry list \<Rightarrow> int64 \<Rightarrow> bytes \<Rightarrow> countEntry \<Rightarrow> bool" where
  "counted H c pre e \<longleftrightarrow>
     ce_count e = wrap64 (int (card (live_keys (\<lambda>key. doesEventHavePrefix key pre) (until (max c (ce_seedRev e)) H))))"

definition counts_ok :: "int64 \<Rightarrow> entry list \<Rightarrow> int64 \<Rightarrow> countTracker \<Rightarrow> bool" where
  "counts_ok V H c t \<longleftrightarrow> (\<forall>pre e. t pre = Some e \<longrightarrow> counted H c pre e \<and> ce_seedRev e \<le> V)"

lemma counts_ok_extends:
  assumes "counts_ok V h c t" "extends V h H" "V \<le> V'" "c \<le> V"
  shows "counts_ok V' H c t"
  unfolding counts_ok_def
proof (intro allI impI)
  fix pre e assume "t pre = Some e"
  with assms(1) have e: "counted h c pre e" "ce_seedRev e \<le> V" by (auto simp: counts_ok_def)
  then have "until (max c (ce_seedRev e)) H = until (max c (ce_seedRev e)) h" using assms(4) by (intro until_extends [OF assms(2)]) simp
  with e assms(3) show "counted H c pre e \<and> ce_seedRev e \<le> V'" by (simp add: counted_def)
qed

lemma until_step:
  assumes "sorted_wrt (\<lambda>e e'. rev_int (fst e) < rev_int (fst e')) H" "between c (rev_int (fst e)) H = [e]" "c \<le> n" "n < rev_int (fst e)"
  shows "until (rev_int (fst e)) H = until n H @ [e]" "\<exists>h2. H = until n H @ e # h2"
proof -
  have "e \<in> set (between c (rev_int (fst e)) H)" using assms(2) by simp
  then have "e \<in> set H" by (simp add: between_def)
  then obtain P Q where H: "H = P @ e # Q" by (meson split_list)
  have PQ: "\<forall>x\<in>set P. rev_int (fst x) < rev_int (fst e)" "\<forall>x\<in>set Q. rev_int (fst e) < rev_int (fst x)"
    using assms(1) H by (auto simp: sorted_wrt_append)
  have "between c (rev_int (fst e)) P = []"
    using assms(2,3,4) H by (auto simp: between_def append_eq_Cons_conv)
  then have "\<forall>x\<in>set P. rev_int (fst x) \<le> c" using PQ(1) unfolding between_def filter_empty_conv by (meson less_imp_le not_le)
  then have "\<forall>x\<in>set P. rev_int (fst x) \<le> n" using assms(3) by (meson order_trans)
  moreover have "\<forall>x\<in>set Q. \<not> rev_int (fst x) \<le> rev_int (fst e)" "\<forall>x\<in>set Q. \<not> rev_int (fst x) \<le> n"
    using PQ(2) assms(4) by (meson not_le less_trans)+
  moreover have "\<forall>x\<in>set P. rev_int (fst x) \<le> rev_int (fst e)" using PQ(1) by (meson less_imp_le)
  ultimately have "until n H = P" "until (rev_int (fst e)) H = P @ [e]"
    using H assms(4) by (simp_all add: until_def)
  with H show "until (rev_int (fst e)) H = until n H @ [e]" "\<exists>h2. H = until n H @ e # h2" by auto
qed

lemma counted_apply:
  assumes "sorted_wrt (\<lambda>e e'. rev_int (fst e) < rev_int (fst e')) H" "alternates c H" "between c (rev_int (fst e)) H = [e]" "c < rev_int (fst e)"
    and "shows_event f h H' e ev" "counted H c pre ce"
  shows "counted H (rev_int (fst e)) pre (if ev_Create ev \<or> ev_Delete ev then countEntry_apply pre ev ce else ce)"
proof -
  let ?s = "ce_seedRev ce" and ?n = "max c (ce_seedRev ce)" and ?r = "rev_int (fst e)"
  let ?N = "\<lambda>h. card (live_keys (\<lambda>key. doesEventHavePrefix key pre) h)"
  note ev = shows_event_simps [OF assms(5)]
  have kv: "kv_ModRevision (ev_KV ev) = ?r" "kv_Key (ev_KV ev) = entry_key e" by (simp_all add: ev entry_kv_def entry_key_def)
  show ?thesis
  proof (cases "?r \<le> ?s")
    case True
    with assms(4,6) kv show ?thesis by (simp add: counted_def countEntry_apply_def max_absorb2)
  next
    case False
    then have n: "c \<le> ?n" "?n < ?r" "max ?r ?s = ?r" using assms(4) by auto
    note u = until_step [OF assms(1,3) n(1,2)]
    from u(2) assms(2,4) have fo: "succeeds (until ?n H) e" unfolding alternates_def by blast
    have "\<not> (r_IsCreate (snd e) \<and> r_IsDelete (snd e))" using fo by (auto simp: succeeds_def)
    with assms(6) live_keys_snoc [OF fo] show ?thesis
      unfolding counted_def ev(1,2) countEntry_apply_def kv
      using wrap64_add(2) [of _ "- 1"] by (auto simp: False n(3) u(1) wrap64_add(2))
  qed
qed

lemma counted_jump: "between c c' H = [] \<Longrightarrow> c \<le> c' \<Longrightarrow> counted H c pre e \<Longrightarrow> counted H c' pre e"
proof -
  assume b: "between c c' H = []" "c \<le> c'" "counted H c pre e"
  then have "\<forall>x\<in>set H. rev_int (fst x) \<le> max c' (ce_seedRev e) \<longleftrightarrow> rev_int (fst x) \<le> max c (ce_seedRev e)"
    unfolding between_def filter_empty_conv by (auto simp: le_max_iff_disj)
  then have "until (max c' (ce_seedRev e)) H = until (max c (ce_seedRev e)) H" unfolding until_def by (auto intro: filter_cong)
  with b(3) show ?thesis by (simp add: counted_def)
qed

lemma counts_ok_apply:
  assumes "sorted_wrt (\<lambda>e e'. rev_int (fst e) < rev_int (fst e')) H" "alternates c H"
    and "list_all2 (shows_event f h H') (between c c' H) evs" "c \<le> c'" "counts_ok V H c t"
  shows "counts_ok V H c' (countTracker_apply evs t)"
  using assms(2-5)
proof (induction evs arbitrary: c t rule: list.induct)
  case Nil
  then have "between c c' H = []" by simp
  from counted_jump [OF this Nil(3)] Nil(4) show ?case by (simp add: counts_ok_def)
next
  case (Cons ev evs)
  from Cons.prems(2) obtain e es where b: "between c c' H = e # es" "shows_event f h H' e ev" "list_all2 (shows_event f h H') es evs"
    by (auto simp: list_all2_Cons2)
  note c = between_Cons [OF assms(1) b(1)]
  let ?t = "\<lambda>pre. map_option (\<lambda>ce. if ev_Create ev \<or> ev_Delete ev then countEntry_apply pre ev ce else ce) (t pre)"
  have t: "countTracker_apply (ev # evs) t = countTracker_apply evs ?t" by (cases "ev_Create ev"; cases "ev_Delete ev") (simp_all add: option.map_ident)
  have seed: "ce_seedRev (countEntry_apply pre ev ce) = ce_seedRev ce" for pre ce by (simp add: countEntry_apply_def)
  have "counts_ok V H (rev_int (fst e)) ?t"
    unfolding counts_ok_def
  proof (intro allI impI)
    fix pre e' assume "?t pre = Some e'"
    then obtain ce where ce: "t pre = Some ce" "e' = (if ev_Create ev \<or> ev_Delete ev then countEntry_apply pre ev ce else ce)" by auto
    with Cons.prems(4) have "counted H c pre ce" "ce_seedRev ce \<le> V" by (auto simp: counts_ok_def)
    with counted_apply [OF assms(1) Cons.prems(1) c(3,1) b(2)] ce(2) seed show "counted H (rev_int (fst e)) pre e' \<and> ce_seedRev e' \<le> V" by auto
  qed
  from Cons.IH [OF alternates_mono [OF less_imp_le [OF c(1)] Cons.prems(1)] _ c(2) this] c(4) b(3) show ?case unfolding t by simp
qed

end
