(* ===== verification/FDB_Runs.thy ===== *)
theory FDB_Runs
  imports FDB_Counts
begin

text \<open>
  The driver over time: iterations of the poll loop, counts, and the writes of other clients are the steps of a relation. The
  batches the loop broadcasts are the events of the log, in order, each once, and the count tracker agrees with the log.
\<close>

section \<open>Steps and runs\<close>

text \<open>
  A step and the batch it broadcasts. The cursor is a signed 64-bit integer. A count that seeds the tracker is a step of its own here:
  the cursor does not move while it scans.
\<close>

inductive driver_step :: "('d, 't) FDB \<Rightarrow> 'd driver \<Rightarrow> Event list \<Rightarrow> 'd driver \<Rightarrow> bool" for f where
  others: "appending f a \<Longrightarrow> driver_step f s [] (s\<lparr>d_db := at_before a (d_db s)\<rparr>)"
| poll: "revision_ok (d_lastWatchRev s) \<Longrightarrow> \<forall>a\<in>set watchScript. appending f a \<Longrightarrow> \<forall>a\<in>set script. appending f a \<Longrightarrow>
    poll_iteration f watchScript script wake s = Some (r, s') \<Longrightarrow> driver_step f s (case r of Ok evs \<Rightarrow> evs | _ \<Rightarrow> []) s'"
| count: "\<forall>script\<in>set scripts. \<forall>a\<in>set script. appending f a \<Longrightarrow> Count f pre startKey M scripts id s = Some (r, s') \<Longrightarrow>
    driver_step f s [] s'"
| kick: "driver_step f s [] (kickPoll s)"

inductive driver_run :: "('d, 't) FDB \<Rightarrow> 'd driver \<Rightarrow> Event list list \<Rightarrow> 'd driver \<Rightarrow> bool" for f s where
  run_start: "driver_run f s [] s"
| run_step: "driver_run f s batches s1 \<Longrightarrow> driver_step f s1 evs s2 \<Longrightarrow> driver_run f s (if evs = [] then batches else batches @ [evs]) s2"

text \<open>What holds between two states of a run.\<close>

definition steps_ok :: "('d, 't) FDB \<Rightarrow> entry list \<Rightarrow> int64 \<Rightarrow> 'd driver \<Rightarrow> Event list \<Rightarrow> 'd driver \<Rightarrow> bool" where
  "steps_ok f h R s evs s' \<longleftrightarrow>
     (\<exists>H. let V = db_version (f_lib f) (d_db s); V' = db_version (f_lib f) (d_db s'); c = d_lastWatchRev s; c' = d_lastWatchRev s'
        in db_holds f (d_db s') H R \<and> extends V h H \<and> V \<le> V' \<and> c \<le> c' \<and> c' \<le> V' \<and>
           list_all2 (shows_event f h H) (between c c' H) evs \<and>
           (alternates c H \<and> counts_ok V h c (d_counts s) \<longrightarrow> counts_ok V' H c' (d_counts s')))"

context fdb_driver
begin

lemma alternates_extends: "extends V h H \<Longrightarrow> alternates c H \<Longrightarrow> alternates c h"
  using alternates_append by (auto simp: extends_def)

lemma between_same: "between c c H = []"
  by (auto simp: between_def filter_empty_conv)

text \<open>A step that moves the database and leaves the cursor and the tracker.\<close>

lemma steps_ok_moved:
  assumes "moved f (db_version L (d_db s)) h R (d_db s')" "d_lastWatchRev s \<le> db_version L (d_db s)"
    and "d_lastWatchRev s' = d_lastWatchRev s" "d_counts s' = d_counts s"
  shows "steps_ok f h R s [] s'"
proof -
  from assms(1) obtain H where H: "db_holds f (d_db s') H R" "extends (db_version L (d_db s)) h H" and V: "db_version L (d_db s) \<le> db_version L (d_db s')"
    unfolding moved_def driver_simps(1) by blast
  with counts_ok_extends [OF _ H(2) V assms(2)] assms(2-) show ?thesis
    unfolding steps_ok_def Let_def driver_simps(1) by (intro exI [of _ H]) (simp add: between_same)
qed

lemma step_others:
  assumes "db_holds f (d_db s) h R" "d_lastWatchRev s \<le> db_version L (d_db s)" "appending f a"
  shows "steps_ok f h R s [] (s\<lparr>d_db := at_before a (d_db s)\<rparr>)"
proof (rule steps_ok_moved)
  show "moved f (db_version L (d_db s)) h R (d_db (s\<lparr>d_db := at_before a (d_db s)\<rparr>))"
    using assms(1,3) unfolding moved_def appending_def extends_def driver_simps(1) by simp blast
qed (use assms(2) in simp_all)

lemma step_poll:
  assumes "\<not> UseSequentialId cfg" "0 < maxBatchSize cfg" "db_holds f (d_db s) h R" "d_lastWatchRev s \<le> db_version L (d_db s)"
    and "revision_ok (d_lastWatchRev s)" "\<forall>a\<in>set watchScript. appending f a" "\<forall>a\<in>set script. appending f a"
    and "poll_iteration f watchScript script wake s = Some (r, s')"
  shows "steps_ok f h R s (case r of Ok evs \<Rightarrow> evs | _ \<Rightarrow> []) s'"
proof -
  let ?V = "db_version L (d_db s)" and ?V' = "db_version L (d_db s')" and ?c = "d_lastWatchRev s" and ?c' = "d_lastWatchRev s'"
  from poll_iteration_result [OF assms(1,2,6,7,3,5,4,8)] obtain H where H: "db_holds f (d_db s') H R" "extends ?V h H" "?V \<le> ?V'" "?c \<le> ?c'" "?c' \<le> ?V'"
    and r: "(\<exists>e. r = Err e) \<and> s' = s\<lparr>d_db := d_db s'\<rparr> \<or> (\<exists>evs. r = Ok evs \<and>
      list_all2 (shows_event f h H) (between ?c ?c' H) evs \<and> d_counts s' = countTracker_apply evs (d_counts s))" by blast
  from r show ?thesis
  proof (elim disjE exE conjE)
    fix e assume e: "r = Err e" "s' = s\<lparr>d_db := d_db s'\<rparr>"
    have "d_lastWatchRev s' = ?c" "d_counts s' = d_counts s" by (subst e(2), simp)+
    moreover have "moved f ?V h R (d_db s')" using H by (auto simp: moved_def)
    ultimately show ?thesis using steps_ok_moved [of s h R s'] assms(4) e(1) by simp
  next
    fix evs assume e: "r = Ok evs" "list_all2 (shows_event f h H) (between ?c ?c' H) evs" "d_counts s' = countTracker_apply evs (d_counts s)"
    have "counts_ok ?V' H ?c' (d_counts s')" if "alternates ?c H" "counts_ok ?V h ?c (d_counts s)"
      unfolding e(3) by (rule counts_ok_apply [OF db_holds_sorted [OF H(1)] that(1) e(2) H(4) counts_ok_extends [OF that(2) H(2,3) assms(4)]])
    with H e show ?thesis unfolding steps_ok_def Let_def driver_simps(1) by (intro exI [of _ H]) simp
  qed
qed

text \<open>A scan at a revision the cursor has not passed seeds the tracker with the right count.\<close>

lemma seed_counted:
  assumes "read_at f V 0 h R F d h0 h'" "c \<le> F" "counts_ok (db_version L d) (h0 @ h') c t"
    and "n = wrap64 (int (length (snapshot (list_keys pre pre) (at_revision 0 h0))))"
  shows "counts_ok (db_version L d) (h0 @ h') c (countTracker_seed pre n F t)"
proof -
  have sp: "split_at f V F d h0 h' R" "0 < F" using assms(1) by (simp_all add: read_at_def)
  then have h: "\<forall>e\<in>set h0. rev_int (fst e) \<le> F" "\<forall>e\<in>set h'. \<not> rev_int (fst e) \<le> F" "hist_wf (h0 @ h')" "F \<le> db_version L d"
    using db_holds_wf(1) unfolding split_at_def driver_simps(1) by (auto simp: not_le)
  then have wf: "hist_wf h0" by (simp add: hist_wf_def hist_sorted_def sorted_wrt_append)
  have "until (max c F) (h0 @ h') = h0" using h(1,2) assms(2) by (simp add: until_def max_absorb2)
  moreover have "n = wrap64 (int (card (live_keys (\<lambda>key. doesEventHavePrefix key pre) h0)))"
    using assms(4) length_snapshot [OF wf] by (simp add: list_keys_prefix at_revision_def live_keys_def)
  ultimately have "counted (h0 @ h') c pre \<lparr>ce_count = n, ce_seedRev = F\<rparr>" by (simp add: counted_def)
  with assms(3) h(4) show ?thesis by (auto simp: counts_ok_def countTracker_seed_def split: option.splits)
qed

lemma step_count:
  assumes "\<not> UseSequentialId cfg" "db_holds f (d_db s) h R" "d_lastWatchRev s \<le> db_version L (d_db s)"
    and "\<forall>script\<in>set scripts. \<forall>a\<in>set script. appending f a" "Count f pre startKey M scripts id s = Some (r, s')"
  shows "steps_ok f h R s [] s'"
proof -
  let ?V = "db_version L (d_db s)" and ?c = "d_lastWatchRev s"
  let ?cacheable = "M = 0 \<and> pre = startKey \<and> d_pollActive s"
  from assms(5) consider "s' = s"
    | r0 d' c where "listWithCollector f countProcessor pre startKey M scripts (d_db s) \<lparr>cc_totalCount = 0, cc_batchCount = 0\<rparr> = Some (r0, d', c)"
        "s' = s\<lparr>d_db := d'\<rparr> \<or> (\<exists>F. r0 = Ok F \<and> ?cacheable \<and> s' = s\<lparr>d_db := d', d_counts := countTracker_seed pre (cc_totalCount c) F (d_counts s)\<rparr>)"
    unfolding Count_def Let_def by (auto split: option.splits res.splits prod.splits if_splits)
  then show ?thesis
  proof cases
    case 1
    with steps_ok_moved [of s h R s] moved_refl [OF assms(2)] assms(3) show ?thesis by simp
  next
    case (2 r0 d' c)
    note scan = Count_scan [OF assms(1,4,2) 2(1)]
    from 2(2) show ?thesis
    proof (elim disjE exE conjE)
      assume "s' = s\<lparr>d_db := d'\<rparr>"
      with scan assms(3) show ?thesis by (intro steps_ok_moved) auto
    next
      fix F assume s': "r0 = Ok F" "M = 0" "pre = startKey" "s' = s\<lparr>d_db := d', d_counts := countTracker_seed pre (cc_totalCount c) F (d_counts s)\<rparr>"
      with scan obtain h0 h' where rd: "read_at f ?V 0 h R F d' h0 h'"
        and n: "cc_totalCount c = wrap64 (int (length (snapshot (list_keys pre pre) (at_revision 0 h0))))" by auto
      have H: "db_holds f d' (h0 @ h') R" "?V \<le> F" "F \<le> db_version L d'" "extends ?V h (h0 @ h')"
        using rd by (auto simp: read_at_def split_at_def intro: extends_append)
      have "counts_ok (db_version L d') (h0 @ h') ?c (d_counts s')" if "counts_ok ?V h ?c (d_counts s)"
        using seed_counted [OF rd _ counts_ok_extends [OF that H(4) _ assms(3)] n] H(2,3) assms(3) s'(4) by simp
      with H s'(4) assms(3) show ?thesis
        unfolding steps_ok_def Let_def driver_simps(1) by (intro exI [of _ "h0 @ h'"]) (simp add: between_same)
    qed
  qed
qed

lemma step_ok:
  assumes "driver_step f s evs s'" "\<not> UseSequentialId cfg" "0 < maxBatchSize cfg" "db_holds f (d_db s) h R"
    and "d_lastWatchRev s \<le> db_version L (d_db s)"
  shows "steps_ok f h R s evs s'"
  using assms(1)
proof cases
  case (others a)
  then show ?thesis using step_others [OF assms(4,5)] by simp
next
  case (poll watchScript script wake r)
  then show ?thesis using step_poll [OF assms(2-5)] by blast
next
  case (count scripts pre startKey M r)
  then show ?thesis using step_count [OF assms(2,4,5)] by blast
next
  case kick
  then show ?thesis using steps_ok_moved [of s h R s'] moved_refl [OF assms(4)] assms(5) by (simp add: kickPoll_def)
qed

text \<open>Steps compose.\<close>

lemma steps_ok_trans:
  assumes "steps_ok f h R s evs s1" "\<And>H. db_holds f (d_db s1) H R \<Longrightarrow> steps_ok f H R s1 evs' s2"
  shows "steps_ok f h R s (evs @ evs') s2"
proof -
  let ?V = "\<lambda>s :: 'd driver. db_version L (d_db s)" and ?c = "\<lambda>s :: 'd driver. d_lastWatchRev s"
  from assms(1) obtain H1 where 1: "db_holds f (d_db s1) H1 R" "extends (?V s) h H1" "?V s \<le> ?V s1" "?c s \<le> ?c s1" "?c s1 \<le> ?V s1"
      "list_all2 (shows_event f h H1) (between (?c s) (?c s1) H1) evs"
      "alternates (?c s) H1 \<and> counts_ok (?V s) h (?c s) (d_counts s) \<longrightarrow> counts_ok (?V s1) H1 (?c s1) (d_counts s1)"
    unfolding steps_ok_def Let_def driver_simps(1) by blast
  from assms(2) [OF 1(1)] obtain H2 where 2: "db_holds f (d_db s2) H2 R" "extends (?V s1) H1 H2" "?V s1 \<le> ?V s2" "?c s1 \<le> ?c s2" "?c s2 \<le> ?V s2"
      "list_all2 (shows_event f H1 H2) (between (?c s1) (?c s2) H2) evs'"
      "alternates (?c s1) H2 \<and> counts_ok (?V s1) H1 (?c s1) (d_counts s1) \<longrightarrow> counts_ok (?V s2) H2 (?c s2) (d_counts s2)"
    unfolding steps_ok_def Let_def driver_simps(1) by blast
  obtain h' where h': "H2 = H1 @ h'" "\<forall>e\<in>set h'. ?V s1 < rev_int (fst e)" using 2(2) by (auto simp: extends_def)
  have ext: "extends (?V s) h H2" by (rule extends_trans [OF 1(2,3) 2(2)])
  have "between (?c s) (?c s1) h' = []"
    using h'(2) 1(5) unfolding between_def filter_empty_conv by (meson less_le_trans not_le)
  then have "between (?c s) (?c s1) H2 = between (?c s) (?c s1) H1" unfolding h'(1) between_append by simp
  moreover have "between (?c s) (?c s2) H2 = between (?c s) (?c s1) H2 @ between (?c s1) (?c s2) H2"
    by (rule between_split [OF db_holds_sorted [OF 2(1)] 1(4) 2(4)])
  moreover have "list_all2 (shows_event f h H2) (between (?c s) (?c s1) H1) evs"
    unfolding h'(1) by (rule shows_events_grow [OF 1(6)])
  moreover have "list_all2 (shows_event f h H2) (between (?c s1) (?c s2) H2) evs'"
    by (rule shows_events_older [OF 2(6)]) (use 1(2) in \<open>auto simp: extends_def\<close>)
  ultimately have "list_all2 (shows_event f h H2) (between (?c s) (?c s2) H2) (evs @ evs')" by (simp add: list_all2_appendI)
  with 1 2 ext alternates_extends [OF 2(2)] alternates_mono [OF 1(4), of H2] show ?thesis
    unfolding steps_ok_def Let_def driver_simps(1) by (intro exI [of _ H2]) auto
qed

lemma run_ok:
  assumes "driver_run f s batches s'" "\<not> UseSequentialId cfg" "0 < maxBatchSize cfg" "db_holds f (d_db s) h R"
    and "d_lastWatchRev s \<le> db_version L (d_db s)"
  shows "steps_ok f h R s (concat batches) s'"
  using assms(1)
proof induction
  case run_start
  show ?case using steps_ok_moved [of s h R s] moved_refl [OF assms(4)] assms(5) by simp
next
  case (run_step batches s1 evs s2)
  from run_step.IH have "d_lastWatchRev s1 \<le> db_version L (d_db s1)" unfolding steps_ok_def Let_def driver_simps(1) by blast
  with steps_ok_trans [OF run_step.IH step_ok [OF run_step.hyps(2) assms(2,3)]]
  have "steps_ok f h R s (concat batches @ evs) s2" by blast
  then show ?case by (cases "evs = []") simp_all
qed

end

section \<open>Counts\<close>

lemma poll_start_simps [simp]:
  "d_db (poll_start c s) = d_db s" "d_lastWatchRev (poll_start c s) = c" "d_counts (poll_start c s) = Map.empty"
  by (simp_all add: poll_start_def countTracker_reset_def)

lemma counts_ok_empty: "counts_ok V H c Map.empty"
  by (simp add: counts_ok_def)

context fdb_driver
begin

lemma until_wf: "hist_wf h \<Longrightarrow> hist_wf (until n h)"
  by (auto simp: hist_wf_def hist_sorted_def until_def intro: sorted_wrt_filter)

text \<open>A count of a prefix, cached or not, is that of the live keys at the revision it comes with.\<close>

lemma Count_exact:
  assumes "\<not> UseSequentialId cfg" "db_holds f (d_db s) h R" "counts_ok (db_version L (d_db s)) h (d_lastWatchRev s) (d_counts s)"
    and "\<forall>script\<in>set scripts. \<forall>a\<in>set script. appending f a" "Count f pre pre 0 scripts id s = Some (Ok (F, n), s')"
  shows "\<exists>H. db_holds f (d_db s') H R \<and> extends (db_version L (d_db s)) h H \<and>
    n = wrap64 (int (length (snapshot (list_keys pre pre) (until F H))))"
proof -
  from assms(5) consider (cached) e where "s' = s" "F = d_lastWatchRev s" "d_counts s pre = Some e" "n = ce_count e" "ce_seedRev e \<le> d_lastWatchRev s"
    | (scan) c where "listWithCollector f countProcessor pre pre 0 scripts (d_db s) \<lparr>cc_totalCount = 0, cc_batchCount = 0\<rparr> = Some (Ok F, d_db s', c)"
        "n = cc_totalCount c"
    unfolding Count_def Let_def countTracker_get_def by (fastforce split: option.splits res.splits prod.splits if_splits)
  then show ?thesis
  proof cases
    case cached
    with assms(3) have "n = wrap64 (int (card (live_keys (\<lambda>key. doesEventHavePrefix key pre) (until F h))))"
      by (auto simp: counts_ok_def counted_def max_absorb1)
    also have "\<dots> = wrap64 (int (length (snapshot (list_keys pre pre) (until F h))))"
      using length_snapshot [OF until_wf [OF db_holds_wf(1) [OF assms(2)]]] by (simp add: list_keys_prefix live_keys_def)
    finally show ?thesis using cached(1) assms(2) extends_refl by blast
  next
    case scan
    from Count_scan [OF assms(1,4,2) scan(1)] scan(2) obtain h0 h' where rd: "read_at f (db_version L (d_db s)) 0 h R F (d_db s') h0 h'"
      and n: "n = wrap64 (int (length (snapshot (list_keys pre pre) (at_revision 0 h0))))" by auto
    then have H: "db_holds f (d_db s') (h0 @ h') R" "extends (db_version L (d_db s)) h (h0 @ h')"
        "\<forall>e\<in>set h0. rev_int (fst e) \<le> F" "\<forall>e\<in>set h'. \<not> rev_int (fst e) \<le> F"
      by (auto simp: read_at_def split_at_def not_le intro: extends_append)
    then have "until F (h0 @ h') = h0" by (simp add: until_def)
    with H(1,2) n show ?thesis by (auto simp: at_revision_def)
  qed
qed

end

end
