(* ===== verification/FDB_Watches.thy ===== *)
theory FDB_Watches
  imports FDB_Runs
begin

text \<open>
  What \<^verbatim>\<open>Watch\<close> (\<^verbatim>\<open>src/pkg/drivers/fdb/fdb_watch.go\<close>) delivers: the events its first read finds and those of the batches of the poll loop
  are together every event of its keys from its revision on, in order, each once.
\<close>

section \<open>Watches\<close>

lemma list_all2_filter:
  assumes "list_all2 R xs ys" "\<And>x y. R x y \<Longrightarrow> P x = Q y"
  shows "list_all2 R (filter P xs) (filter Q ys)"
  using assms(1) by induction (auto simp: assms(2))

lemma dropWhile_sorted: "sorted_wrt (\<lambda>x y. g x < (g y :: int)) xs \<Longrightarrow> dropWhile (\<lambda>x. g x \<le> m) xs = filter (\<lambda>x. m < g x) xs"
proof (induction xs)
  case (Cons x xs)
  then have "filter (\<lambda>x. m < g x) xs = xs" if "m < g x" using that by (auto simp: filter_id_conv)
  with Cons show ?case by auto
qed simp

lemma concat_nonempty: "concat (filter (\<lambda>b. b \<noteq> []) bs) = concat bs"
  by (induction bs) auto

lemma concat_innerWatch: "concat (innerWatch pre bs) = filter (\<lambda>ev. doesEventHavePrefix (kv_Key (ev_KV ev)) pre) (concat bs)"
  by (simp add: innerWatch_def concat_nonempty filter_concat)

lemma concat_watch_forward:
  assumes "sorted_wrt (\<lambda>ev ev'. kv_ModRevision (ev_KV ev) < kv_ModRevision (ev_KV ev')) (concat bs)"
  shows "concat (watch_forward m bs) = filter (\<lambda>ev. m < kv_ModRevision (ev_KV ev)) (concat bs)"
proof -
  have "map (dropWhile (\<lambda>ev. kv_ModRevision (ev_KV ev) \<le> m)) bs = map (filter (\<lambda>ev. m < kv_ModRevision (ev_KV ev))) bs"
    using assms by (induction bs) (simp_all add: sorted_wrt_append dropWhile_sorted [where g = "\<lambda>ev. kv_ModRevision (ev_KV ev)"])
  then show ?thesis unfolding watch_forward_def concat_nonempty filter_concat by (rule arg_cong)
qed

lemma since_sorted:
  assumes "sorted_wrt (\<lambda>e e'. rev_int (fst e) < rev_int (fst e')) H" "since m H = es @ rest" "e \<in> set es" "e' \<in> set rest"
  shows "rev_int (fst e) < rev_int (fst e')"
  using sorted_wrt_filter [OF assms(1), of "\<lambda>e. m < rev_int (fst e)"] assms(2-4) by (simp add: since_def sorted_wrt_append)

text \<open>The first read and the batches after it are together the entries of the keys, without gaps or repetitions.\<close>

lemma watch_entries:
  assumes srt: "sorted_wrt (\<lambda>e e'. rev_int (fst e) < rev_int (fst e')) H" and "since m H = es @ rest"
    and "\<forall>e\<in>set rest. V < rev_int (fst e)" "c \<le> V" "l = (if filter tk es = [] then m else rev_int (fst (last (filter tk es))))"
  shows "filter tk (between m (max c' (max l V)) H) = filter tk es @ filter (\<lambda>e. l < rev_int (fst e)) (filter tk (between c c' H))"
proof -
  let ?hi = "max c' (max l V)"
  have in_since: "m < rev_int (fst e)" if "e \<in> set (es @ rest)" for e
    using that unfolding assms(2) [symmetric] since_def by simp
  have last: "filter tk es \<noteq> [] \<Longrightarrow> last (filter tk es) \<in> set es" by (metis last_in_set filter_is_subset subsetD)
  then have ml: "m \<le> l" using in_since assms(5) by (fastforce simp: less_imp_le)
  have esl: "rev_int (fst e) \<le> l" if "e \<in> set es" "tk e" for e
  proof -
    have "sorted_wrt (\<lambda>e e'. rev_int (fst e) < rev_int (fst e')) (filter tk es)"
      using sorted_wrt_filter [OF srt, of "\<lambda>e. m < rev_int (fst e)"] assms(2) by (simp add: since_def sorted_wrt_append sorted_wrt_filter)
    moreover have "e \<in> set (filter tk es)" using that by simp
    ultimately show ?thesis unfolding assms(5) by (cases "filter tk es" rule: rev_cases) (auto simp: sorted_wrt_append intro: less_imp_le)
  qed
  have restl: "l < rev_int (fst e)" if "e \<in> set rest" for e
    using that in_since [of e] last since_sorted [OF srt assms(2), of "last (filter tk es)" e] unfolding assms(5) by auto
  have btw: "between m ?hi H = filter (\<lambda>e. rev_int (fst e) \<le> ?hi) (es @ rest)"
    unfolding assms(2) [symmetric] by (simp add: between_def since_def conj_commute)
  have lhs: "filter tk (between m ?hi H) = filter tk es @ filter (\<lambda>e. tk e \<and> rev_int (fst e) \<le> c') rest"
  proof -
    have "filter (\<lambda>e. tk e \<and> rev_int (fst e) \<le> ?hi) es = filter tk es"
      by (rule filter_cong) (use esl in \<open>auto simp: le_max_iff_disj\<close>)
    moreover have "filter (\<lambda>e. tk e \<and> rev_int (fst e) \<le> ?hi) rest = filter (\<lambda>e. tk e \<and> rev_int (fst e) \<le> c') rest"
      by (rule filter_cong [OF refl]) (use restl assms(3) in \<open>meson le_max_iff_disj not_le\<close>)
    ultimately show ?thesis using btw by (simp add: conj_commute)
  qed
  have "filter (\<lambda>e. l < rev_int (fst e)) (filter tk (between c c' H))
      = filter (\<lambda>e. (tk e \<and> l < rev_int (fst e)) \<and> c < rev_int (fst e) \<and> rev_int (fst e) \<le> c') (es @ rest)"
    unfolding assms(2) [symmetric] since_def between_def filter_filter by (rule filter_cong) (use ml in auto)
  also have "\<dots> = filter (\<lambda>e. tk e \<and> rev_int (fst e) \<le> c') rest"
  proof -
    have "filter (\<lambda>e. (tk e \<and> l < rev_int (fst e)) \<and> c < rev_int (fst e) \<and> rev_int (fst e) \<le> c') es = []"
      using esl unfolding filter_empty_conv by (meson not_le)
    moreover have "filter (\<lambda>e. (tk e \<and> l < rev_int (fst e)) \<and> c < rev_int (fst e) \<and> rev_int (fst e) \<le> c') rest = filter (\<lambda>e. tk e \<and> rev_int (fst e) \<le> c') rest"
      by (rule filter_cong [OF refl]) (use restl assms(3,4) in \<open>meson le_less_trans\<close>)
    ultimately show ?thesis unfolding filter_append by simp
  qed
  finally show ?thesis using lhs by simp
qed

context fdb_driver
begin

lemma shows_events_sorted:
  assumes "sorted_wrt (\<lambda>e e'. rev_int (fst e) < rev_int (fst e')) es" "list_all2 (shows_event f h H) es evs"
  shows "sorted_wrt (\<lambda>ev ev'. kv_ModRevision (ev_KV ev) < kv_ModRevision (ev_KV ev')) evs"
proof -
  have "map (\<lambda>e. rev_int (fst e)) es = map (\<lambda>ev. kv_ModRevision (ev_KV ev)) evs"
    using assms(2) by induction (auto simp: shows_event_simps(3) entry_kv_def)
  moreover have "sorted_wrt (<) (map (\<lambda>e. rev_int (fst e)) es)" using assms(1) by (simp add: sorted_wrt_map)
  ultimately show ?thesis by (simp add: sorted_wrt_map)
qed

lemma watch_delivers:
  assumes srt: "sorted_wrt (\<lambda>e e'. rev_int (fst e) < rev_int (fst e')) H" and "since m H = es @ rest"
    and "\<forall>e\<in>set rest. V < rev_int (fst e)" "c \<le> V" "K = (\<lambda>e. doesEventHavePrefix (entry_key e) pre)"
    and evs: "list_all2 (shows_event f h H) (filter K es) evs" and bat: "list_all2 (shows_event f h H) (between c c' H) (concat batches)"
    and "l = (if evs \<noteq> [] then kv_ModRevision (ev_KV (last evs)) else m)"
  shows "list_all2 (shows_event f h H) (filter K (between m (max c' (max l V)) H)) (evs @ concat (watch_forward l (innerWatch pre batches)))"
proof -
  let ?P = "\<lambda>ev. doesEventHavePrefix (kv_Key (ev_KV ev)) pre"
  have l: "l = (if filter K es = [] then m else rev_int (fst (last (filter K es))))"
    using evs shows_events_last [OF evs] unfolding assms(8) by (cases "evs = []") auto
  have keys: "K e = ?P ev" "(l < rev_int (fst e)) = (l < kv_ModRevision (ev_KV ev))" if "shows_event f h H e ev" for e ev
    using shows_event_simps(3) [OF that] by (simp_all add: entry_kv_def entry_key_def assms(5))
  have flt: "list_all2 (shows_event f h H) (filter (\<lambda>e. l < rev_int (fst e)) (filter K (between c c' H)))
      (filter (\<lambda>ev. l < kv_ModRevision (ev_KV ev)) (filter ?P (concat batches)))"
    by (intro list_all2_filter bat) (use keys in auto)
  have "sorted_wrt (\<lambda>ev ev'. kv_ModRevision (ev_KV ev) < kv_ModRevision (ev_KV ev')) (concat (innerWatch pre batches))"
    unfolding concat_innerWatch by (rule sorted_wrt_filter, rule shows_events_sorted [OF _ bat]) (simp add: between_def srt sorted_wrt_filter)
  from concat_watch_forward [OF this] list_all2_appendI [OF evs flt] watch_entries [OF srt assms(2-4) l]
  show ?thesis unfolding concat_innerWatch by simp
qed

text \<open>
  A watch of the keys of \<open>pre\<close> from revision \<open>m\<close> on, beside the loop whose batches it gets: its first read fails, or it delivers
  every event of its keys after \<open>m\<close> up to the cursor of the loop, or to the version of the start if that is later.
\<close>

lemma Watch_result:
  assumes "\<not> UseSequentialId cfg" "0 < maxBatchSize cfg" "\<forall>script\<in>set scripts. \<forall>a\<in>set script. appending f a"
    and "db_holds f (d_db s) h R" "d_lastWatchRev s \<le> db_version L (d_db s)" "revision_ok minRevision"
    and "Watch f pre0 minRevision scripts batches s = Some (r, s1)" "driver_run f s1 batches s2"
    and m: "m = (if minRevision > 0 then minRevision - 1 else minRevision)" and pre: "pre = (if pre0 = [0] then str ''/'' else pre0)"
  shows "\<exists>wr. r = Ok wr \<and>
    (wr_Events wr = [] \<and> (\<exists>res e. afterAll f m (\<lambda>key. doesEventHavePrefix key pre) scripts (d_db s) = Some (Ok (res, Some e), d_db s1)) \<or>
     wr_Errorc wr = None \<and> (0 < m \<longrightarrow> R \<le> m) \<and>
     (\<exists>H hi. db_holds f (d_db s2) H R \<and> extends (db_version L (d_db s)) h H \<and> db_version L (d_db s) \<le> hi \<and> d_lastWatchRev s2 \<le> hi \<and>
       list_all2 (shows_event f h H) (filter (\<lambda>e. doesEventHavePrefix (entry_key e) pre) (between m hi H)) (concat (wr_Events wr))))"
proof -
  let ?V = "db_version L (d_db s)" and ?c = "d_lastWatchRev s" and ?c2 = "d_lastWatchRev s2"
  let ?K = "\<lambda>e. doesEventHavePrefix (entry_key e) pre"
  have rev: "revision_ok m" using assms(6) m by (auto simp: revision_ok_def)
  from assms(7) obtain r0 d1 where all: "afterAll f m (\<lambda>key. doesEventHavePrefix key pre) scripts (d_db s) = Some (r0, d1)" and s1: "s1 = s\<lparr>d_db := d1\<rparr>"
    unfolding Watch_def Let_def m pre by auto
  note W = assms(7) [unfolded Watch_def Let_def, folded m pre, unfolded all]
  from afterAll_result [OF assms(1,3,4) rev all] show ?thesis
  proof (elim disjE exE conjE)
    fix res e assume "r0 = Ok (res, Some e)"
    with W all s1 show ?thesis by auto
  next
    fix res H1 es rest assume a: "r0 = Ok (res, None)" "db_holds f d1 H1 R" "extends ?V h H1" "?V \<le> db_version L d1" "since m H1 = es @ rest"
      "\<forall>e\<in>set rest. ?V < rev_int (fst e)" "0 < m \<longrightarrow> R \<le> m" "list_all2 (shows_event f h H1) (filter ?K es) (ar_events res)"
    define l where "l = (if ar_events res \<noteq> [] then kv_ModRevision (ev_KV (last (ar_events res))) else m)"
    from W a(1) obtain wr where r: "r = Ok wr" "wr_Errorc wr = None" "concat (wr_Events wr) = ar_events res @ concat (watch_forward l (innerWatch pre batches))"
      unfolding l_def by (auto split: if_splits)
    have cur: "?c \<le> db_version L (d_db s1)" using assms(5) a(4) s1 by simp
    from run_ok [OF assms(8,1,2)] a(2) cur s1 have "steps_ok f H1 R s1 (concat batches) s2" by simp
    then obtain H where H: "db_holds f (d_db s2) H R" "extends (db_version L d1) H1 H"
        "list_all2 (shows_event f H1 H) (between ?c ?c2 H) (concat batches)"
      unfolding steps_ok_def Let_def driver_simps(1) using s1 by auto
    from H(2) obtain h' where h': "H = H1 @ h'" "\<forall>e\<in>set h'. db_version L d1 < rev_int (fst e)" by (auto simp: extends_def)
    have "list_all2 (shows_event f h H) (filter ?K es) (ar_events res)" unfolding h'(1) by (rule shows_events_grow [OF a(8)])
    moreover have "list_all2 (shows_event f h H) (between ?c ?c2 H) (concat batches)"
      by (rule shows_events_older [OF H(3)]) (use a(3) in \<open>auto simp: extends_def\<close>)
    ultimately have "list_all2 (shows_event f h H) (filter ?K (between m (max ?c2 (max l ?V)) H)) (concat (wr_Events wr))"
      unfolding r(3) by (intro watch_delivers [where rest = "rest @ since m h'", OF db_holds_sorted [OF H(1)] _ _ assms(5) refl _ _ l_def])
        (use a(4-6) h' in \<open>auto simp: since_append since_def\<close>)
    with H(1) extends_trans [OF a(3,4) H(2)] r(1,2) a(7) show ?thesis
      by (intro exI [of _ wr] conjI disjI2 exI [of _ H] exI [of _ "max ?c2 (max l ?V)"]) auto
  qed
qed

end

end
