(* ===== verification/FDB_Progress.thy ===== *)
theory FDB_Progress
  imports FDB_Calls
begin

text \<open>
  Termination and progress. A transaction whose client refuses to retry some attempt ends; a write for which
  an attempt meets an answering cluster and commits succeeds with that attempt.
\<close>

section \<open>The retry loop ends\<close>

definition refuses :: "'d attempt \<Rightarrow> bool" where
  "refuses a \<longleftrightarrow> (\<forall>c. at_OnError a c \<noteq> None)"

lemma retryable_ends:
  "\<exists>a\<in>set script. refuses a \<Longrightarrow> \<exists>r a s'. retryable force wrapped i script s = Some (r, a, s') \<and> a \<in> set script"
proof (induction script arbitrary: i s)
  case (Cons a script)
  obtain r s1 where w: "wrapped a s = (r, s1)" by fastforce
  show ?case
  proof (cases "refuses a")
    case True
    then have "at_OnError a c \<noteq> None" for c by (simp add: refuses_def)
    then have "at_OnError a = Some \<circ> (\<lambda>c. the (at_OnError a c))" by (simp add: fun_eq_iff)
    then obtain g where "at_OnError a = Some \<circ> g" by blast
    with w show ?thesis by (auto split: res.splits option.splits)
  next
    case False
    with Cons.prems have "\<exists>a\<in>set script. refuses a" by auto
    from Cons.IH [OF this] w show ?thesis by (fastforce split: res.splits option.splits)
  qed
qed simp

lemma transact_ends: "\<exists>a\<in>set script. refuses a \<Longrightarrow> \<exists>x. transact f zero body script d c = Some x"
proof (cases "db_CreateTransaction (f_lib f) d")
  case (Inr t)
  assume "\<exists>a\<in>set script. refuses a"
  from retryable_ends [OF this, of "forceRetryTransaction (f_cfg f)" "transact_wrapped f zero body" 0 "(d, t, c)"] Inr
  show ?thesis by (auto simp: transact_def)
qed (simp add: transact_def)

section \<open>An attempt that commits\<close>

text \<open>The next attempt: the history it reads is \<open>h\<close>, the cluster answers and commits.\<close>

definition commits :: "('d, 't) FDB \<Rightarrow> 'd attempt \<Rightarrow> 'd \<Rightarrow> entry list \<Rightarrow> bool" where
  "commits f a d h \<longleftrightarrow>
     represents f (db_view (f_lib f) (at_before a d)) h \<and> fresh_stamp h (at_stamp a) \<and> length (at_uuid a) = 16 \<and>
     at_commit a = Committed \<and> (\<exists>t. db_CreateTransaction (f_lib f) d = Inr t) \<and>
     (\<forall>t. tr_alive (f_lib f) (tr_Reset (f_lib f) (at_before a d) t)) \<and> \<not> forceRetryTransaction (f_cfg f) 0"

text \<open>What a write then leaves: its entry, and a wake-up for the poll loop.\<close>

definition wrote :: "('d, 't) FDB \<Rightarrow> 'd driver \<Rightarrow> 'd driver \<Rightarrow> entry list \<Rightarrow> bool" where
  "wrote f s s' h \<longleftrightarrow> represents f (db_view (f_lib f) (d_db s')) h \<and> s' = kickPoll (s\<lparr>d_db := d_db s'\<rparr>)"

context fdb_driver
begin

lemma transact_commits:
  assumes "commits f a d h"
    and "\<And>t. represents f (tr_view L t) h \<Longrightarrow> tr_pending L t = [] \<Longrightarrow> tr_alive L t \<Longrightarrow>
      \<exists>t'. body a t c = (Ok (w, t'), c') \<and> represents f (committed L (at_stamp a) t') h'"
  shows "\<exists>d'. transact f zero body (a # as) d c = Some (Ok w, at_stamp a, d', c') \<and> represents f (db_view L d') h'"
proof -
  from assms(1) obtain t where t: "db_CreateTransaction L d = Inr t" by (auto simp: commits_def)
  let ?t = "tr_Reset L (at_before a d) t"
  have "tr_alive L ?t" using assms(1) by (simp add: commits_def)
  from transact_options_alive [OF this] obtain t2 where t2: "transact_options f ?t = Ok t2" "tr_view L t2 = tr_view L ?t"
    "tr_pending L t2 = tr_pending L ?t" "tr_alive L t2" by blast
  have "represents f (tr_view L t2) h" "tr_pending L t2 = []"
    using assms(1) t2(2,3) by (simp_all add: commits_def reset_view)
  from assms(2) [OF this t2(4)] obtain t' where t': "body a t2 c = (Ok (w, t'), c')"
    "represents f (committed L (at_stamp a) t') h'" by blast
  have "transact_wrapped f zero body a (d, t, c) = (Ok w, tr_Commit L (at_stamp a) t', t', c')"
    using t2(1) t'(1) assms(1) by (simp add: transact_wrapped_def commit_get_def commits_def)
  with t t'(2) assms(1) show ?thesis
    by (auto simp: transact_def commits_def commit_view committed_def)
qed

lemma write_alive:
  assumes "represents f (tr_view L t) h" "tr_pending L t = []" "tr_alive L t"
  obtains t' where "setFirstInBatch f t = Ok t'" "getLast f t' key = Ok (map_option index_record (last_entry h key))"
    "represents f (tr_view L t') h" "tr_pending L t' = []" "tr_alive L t'"
proof -
  from option_alive [OF assms(3), of 710] obtain t' where t': "tr_SetOption L 710 t = Inr t'" by blast
  from option_view [OF t'] assms have "represents f (tr_view L t') h" "tr_pending L t' = []" "tr_alive L t'" by simp_all
  from that [OF _ getLast_alive [OF this] this] t' show thesis by (simp add: setFirstInBatch_def)
qed

lemma appendResult_ok:
  assumes mode: "\<not> UseSequentialId cfg" and rep: "represents f (tr_view L t) h" and clean: "tr_pending L t = []"
    and "writable f (r_Key rec0) (r_Value rec0)" and fresh: "fresh_stamp h (at_stamp a)" and r: "r = rec0\<lparr>r_WriteUUID := at_uuid a\<rparr>"
    and ok: "rec_wf r" "entry_ok L (new_revision (at_stamp a), r)"
    and prev: "\<not> r_IsDelete rec0 \<longrightarrow> prev = int (current_size h (r_Key rec0))"
  shows "\<exists>t'. appendResult f a t u rec0 prev rr
        = (Ok (Some (newModificationResultKey TrVersionstamp (rr r) True), t'), at_uuid a) \<and>
      represents f (committed L (at_stamp a) t') (h @ [(new_revision (at_stamp a), r)])"
proof -
  have "length (r_Value rec0) < 2 ^ 62" using ok(2) r by (simp add: entry_ok_def)
  from append_ok [OF mode rep assms(4) this prev] obtain kf t' where "FDB_append f (at_uuid a) rec0 prev t = Ok (kf, t')" by blast
  then have "\<nexists>e. appendResult f a t u rec0 prev rr = (Err e, u)" by (simp add: appendResult_def)
  with appendResult_sound [OF mode rep clean fresh r ok prev] show ?thesis by blast
qed

lemma Create_commits:
  assumes "\<not> UseSequentialId cfg" "input_ok key val lease" "writable f key val" "commits f a (d_db s) h"
    and r: "mvcc_create f key val lease (at_uuid a) h = Some r" and u: "unused {uuid} h"
  shows "\<exists>s'. Create f key val lease uuid (a # as) s = Some (Ok (rev_int (new_revision (at_stamp a))), s') \<and>
    wrote f s s' (h @ [(new_revision (at_stamp a), r)])"
proof -
  have c: "represents f (db_view L (at_before a (d_db s))) h" "fresh_stamp h (at_stamp a)" "length (at_uuid a) = 16"
    using assms(4) by (simp_all add: commits_def)
  note ok = mvcc_records_ok(1) [OF c(1,3,2) r assms(2)]
  let ?w = "newModificationResultKey TrVersionstamp None True"
  have "\<exists>d'. transact f None (Create_body f key val lease) (a # as) (d_db s) uuid = Some (Ok (Some ?w), at_stamp a, d', at_uuid a) \<and>
      represents f (db_view L d') (h @ [(new_revision (at_stamp a), r)])"
  proof (rule transact_commits [OF assms(4)])
    fix t assume t: "represents f (tr_view L t) h" "tr_pending L t = []" "tr_alive L t"
    obtain t1 where t1: "setFirstInBatch f t = Ok t1" "getLast f t1 key = Ok (map_option index_record (last_entry h key))"
      "represents f (tr_view L t1) h" "tr_pending L t1 = []" by (rule write_alive [OF t])
    define p where "p = (case last_entry h key of None \<Rightarrow> createDummyVersionstamp L | Some e \<Rightarrow> fst e)"
    let ?cr = "\<lparr>r_Key = key, r_IsDelete = False, r_IsCreate = True, r_Lease = lease,
        r_CreateRevision = createDummyVersionstamp L, r_PrevRevision = p,
        r_ValueSize = int (length val), r_WriteUUID = zeroUUID, r_Value = val, r_LatestForKey = False\<rparr>"
    have r': "r = ?cr\<lparr>r_WriteUUID := at_uuid a\<rparr>" and size: "current_size h key = 0"
      using r by (auto simp: mvcc_create_def p_def current_size_def Let_def split: option.splits if_splits)
    have "Create_body f key val lease a t uuid = appendResult f a t1 uuid ?cr 0 (\<lambda>_. None)"
      using t1 r u last_entry_Some(1) [of h key]
      by (cases "last_entry h key") (auto simp: Create_body_def mvcc_create_def p_def unused_def Let_def split: if_splits)
    with appendResult_ok [OF assms(1) t1(3,4) _ c(2) r', of 0 uuid "\<lambda>_. None"] assms(3) ok size
    show "\<exists>t'. Create_body f key val lease a t uuid = (Ok (Some ?w, t'), at_uuid a) \<and>
        represents f (committed L (at_stamp a) t') (h @ [(new_revision (at_stamp a), r)])" by simp
  qed
  then obtain d' where d': "transact f None (Create_body f key val lease) (a # as) (d_db s) uuid
      = Some (Ok (Some ?w), at_stamp a, d', at_uuid a)" "represents f (db_view L d') (h @ [(new_revision (at_stamp a), r)])" by blast
  with assms(2) getResult_written_none [OF is_revision_new [OF c(2)]] show ?thesis
    by (simp add: Create_def finish_def input_ok_def wrote_def kickPoll_def)
qed

lemma Update_commits:
  assumes "\<not> UseSequentialId cfg" "input_ok key val lease" "writable f key val" "commits f a (d_db s) h"
    and r: "mvcc_update key val revision lease (at_uuid a) h = Some r"
  shows "\<exists>s'. Update f key val revision lease uuid (a # as) s
      = Some (Ok (rev_int (new_revision (at_stamp a)), Some (entry_kv f (new_revision (at_stamp a), r)), True), s') \<and>
    wrote f s s' (h @ [(new_revision (at_stamp a), r)])"
proof -
  have c: "represents f (db_view L (at_before a (d_db s))) h" "fresh_stamp h (at_stamp a)" "length (at_uuid a) = 16"
    using assms(4) by (simp_all add: commits_def)
  note ok = mvcc_records_ok(2) [OF c(1,3,2) r assms(2)]
  from r obtain e where e: "last_entry h key = Some e" "\<not> r_IsDelete (snd e)" "rev_int (fst e) = revision"
    by (auto simp: mvcc_update_def split: option.splits if_splits)
  let ?w = "newModificationResultKey TrVersionstamp (Some (zeroVersionstamp, Some r)) True"
  have "\<exists>d'. transact f None (Update_body f key val revision lease) (a # as) (d_db s) uuid = Some (Ok (Some ?w), at_stamp a, d', at_uuid a) \<and>
      represents f (db_view L d') (h @ [(new_revision (at_stamp a), r)])"
  proof (rule transact_commits [OF assms(4)])
    fix t assume t: "represents f (tr_view L t) h" "tr_pending L t = []" "tr_alive L t"
    obtain t1 where t1: "setFirstInBatch f t = Ok t1" "getLast f t1 key = Ok (map_option index_record (last_entry h key))"
      "represents f (tr_view L t1) h" "tr_pending L t1 = []" by (rule write_alive [OF t])
    note facts = last_entry_facts [OF t1(3) e(1)]
    let ?rec = "\<lparr>r_Key = key, r_IsDelete = False, r_IsCreate = False, r_Lease = lease,
        r_CreateRevision = create_revision e, r_PrevRevision = fst e,
        r_ValueSize = int (length val), r_WriteUUID = zeroUUID, r_Value = val, r_LatestForKey = False\<rparr>"
    have r': "r = ?rec\<lparr>r_WriteUUID := at_uuid a\<rparr>" using r e by (simp add: mvcc_update_def)
    have size: "r_ValueSize (snd e) = int (current_size h key)"
      using e facts(3) by (simp add: current_size_def rec_wf_def)
    have "Update_body f key val revision lease a t uuid
        = appendResult f a t1 uuid ?rec (r_ValueSize (snd e)) (\<lambda>r. Some (zeroVersionstamp, Some r))"
      using t1 e VersionstampToInt64_revision [OF facts(1)] by (simp add: Update_body_def)
    with appendResult_ok [OF assms(1) t1(3,4) _ c(2) r', of "r_ValueSize (snd e)" uuid "\<lambda>r. Some (zeroVersionstamp, Some r)"]
      assms(3) ok size
    show "\<exists>t'. Update_body f key val revision lease a t uuid = (Ok (Some ?w, t'), at_uuid a) \<and>
        represents f (committed L (at_stamp a) t') (h @ [(new_revision (at_stamp a), r)])" by simp
  qed
  then obtain d' where d': "transact f None (Update_body f key val revision lease) (a # as) (d_db s) uuid
      = Some (Ok (Some ?w), at_stamp a, d', at_uuid a)" "represents f (db_view L d') (h @ [(new_revision (at_stamp a), r)])" by blast
  have "\<not> r_IsCreate r" using r e by (auto simp: mvcc_update_def)
  with d' assms(2) getResult_written [of "at_stamp a" r] ok show ?thesis
    by (simp add: Update_def finish_def input_ok_def wrote_def kickPoll_def)
qed

lemma Delete_commits:
  assumes "\<not> UseSequentialId cfg" "commits f a (d_db s) h"
    and r: "mvcc_delete key revision (at_uuid a) h = Some r" and "writable f key (r_Value r)"
  shows "\<exists>s'. Delete f key revision uuid (a # as) s
      = Some (Ok (rev_int (new_revision (at_stamp a)), Some (entry_kv f (new_revision (at_stamp a), r)), True), s') \<and>
    wrote f s s' (h @ [(new_revision (at_stamp a), r)])"
proof -
  have c: "represents f (db_view L (at_before a (d_db s))) h" "fresh_stamp h (at_stamp a)" "length (at_uuid a) = 16"
    using assms(2) by (simp_all add: commits_def)
  note ok = mvcc_records_ok(3) [OF c(1,3,2) r]
  from r obtain e where e: "last_entry h key = Some e" "\<not> r_IsDelete (snd e)" "revision \<noteq> 0 \<longrightarrow> rev_int (fst e) = revision"
    by (auto simp: mvcc_delete_def split: option.splits if_splits)
  let ?w = "newModificationResultKey TrVersionstamp (Some (zeroVersionstamp, Some r)) True"
  have "\<exists>d'. transact f None (Delete_body f key revision) (a # as) (d_db s) uuid = Some (Ok (Some ?w), at_stamp a, d', at_uuid a) \<and>
      represents f (db_view L d') (h @ [(new_revision (at_stamp a), r)])"
  proof (rule transact_commits [OF assms(2)])
    fix t assume t: "represents f (tr_view L t) h" "tr_pending L t = []" "tr_alive L t"
    obtain t1 where t1: "setFirstInBatch f t = Ok t1" "getLast f t1 key = Ok (map_option index_record (last_entry h key))"
      "represents f (tr_view L t1) h" "tr_pending L t1 = []" "tr_alive L t1" by (rule write_alive [OF t])
    note facts = last_entry_facts [OF t1(3) e(1)]
    have get: "ByRevision_Get f t1 (fst e) = Ok (Some (by_revision_record (snd e)))"
      using ByRevision_Get_Some [of h t1 "fst e" "snd e"] t1(3-5) last_entry_Some(1) [OF e(1)]
      by (simp add: represents_def del: driver_simps(3))
    let ?rec = "\<lparr>r_Key = key, r_IsDelete = True, r_IsCreate = False, r_Lease = r_Lease (snd e),
        r_CreateRevision = create_revision e, r_PrevRevision = fst e, r_ValueSize = r_ValueSize (snd e),
        r_WriteUUID = zeroUUID, r_Value = r_Value (snd e), r_LatestForKey = False\<rparr>"
    have r': "r = ?rec\<lparr>r_WriteUUID := at_uuid a\<rparr>" using r e facts(2) by (cases "snd e") (simp add: mvcc_delete_def split: if_splits)
    have "Delete_body f key revision a t uuid = appendResult f a t1 uuid ?rec 0 (\<lambda>r. Some (zeroVersionstamp, Some r))"
      using t1 e get VersionstampToInt64_revision [OF facts(1)] by (simp add: Delete_body_def by_revision_record_def)
    with appendResult_ok [OF assms(1) t1(3,4) _ c(2) r', of 0 uuid "\<lambda>r. Some (zeroVersionstamp, Some r)"] assms(4) ok r'
    show "\<exists>t'. Delete_body f key revision a t uuid = (Ok (Some ?w, t'), at_uuid a) \<and>
        represents f (committed L (at_stamp a) t') (h @ [(new_revision (at_stamp a), r)])" by simp
  qed
  then obtain d' where d': "transact f None (Delete_body f key revision) (a # as) (d_db s) uuid
      = Some (Ok (Some ?w), at_stamp a, d', at_uuid a)" "represents f (db_view L d') (h @ [(new_revision (at_stamp a), r)])" by blast
  have "\<not> r_IsCreate r" using r e by (auto simp: mvcc_delete_def)
  with d' getResult_written [of "at_stamp a" r] ok show ?thesis
    by (simp add: Delete_def finish_def wrote_def kickPoll_def)
qed

text \<open>A key that is there is not created again; the database stays as it was.\<close>

lemma Create_exists:
  assumes "commits f a (d_db s) h" "length val \<le> maxRecordSize" "live_entry h key = Some e" "unused {uuid} h"
  shows "Create f key val lease uuid (a # as) s = Some (Err ErrKeyExists, s\<lparr>d_db := at_before a (d_db s)\<rparr>)"
proof -
  from assms(1) obtain t where t: "db_CreateTransaction L (d_db s) = Inr t" by (auto simp: commits_def)
  let ?t = "tr_Reset L (at_before a (d_db s)) t"
  have "tr_alive L ?t" using assms(1) by (simp add: commits_def)
  from transact_options_alive [OF this] obtain t2 where t2: "transact_options f ?t = Ok t2" "tr_view L t2 = tr_view L ?t"
    "tr_pending L t2 = tr_pending L ?t" "tr_alive L t2" by blast
  have "represents f (tr_view L t2) h" "tr_pending L t2 = []"
    using assms(1) t2(2,3) by (simp_all add: commits_def reset_view)
  from this t2(4) obtain t1 where t1: "setFirstInBatch f t2 = Ok t1"
    "getLast f t1 key = Ok (map_option index_record (last_entry h key))" by (rule write_alive)
  have e: "last_entry h key = Some e" "\<not> r_IsDelete (snd e)" "r_WriteUUID (snd e) \<noteq> uuid"
    using assms(3,4) last_entry_Some(1) [of h key e]
    by (auto simp: live_entry_def unused_def split: option.splits if_splits)
  then have "Create_body f key val lease a t2 uuid = (Err ErrKeyExists, uuid)"
    using t1 by (simp add: Create_body_def)
  with t t2(1) assms(1,2) show ?thesis
    by (simp add: Create_def transact_def transact_wrapped_def log_conflicts_def finish_def commits_def)
qed

end

end
