(* ===== verification/FDB_Memory.thy ===== *)
theory FDB_Memory
  imports FDB_Layout "HOL-Library.AList"
begin

text \<open>
  An in-memory FoundationDB client: the published tuple encoding (string 0x02, integers 0x0C to
  0x1C, booleans 0x26 and 0x27, UUID 0x30, versionstamp 0x33) over an association list. It
  satisfies every assumption of \<open>fdb_tuples\<close>, \<open>fdb_client\<close> and \<open>fdb_driver\<close>, so the development
  can evaluate the driver's operations on concrete databases.
\<close>

section \<open>The tuple encoding\<close>

fun esc :: "bytes \<Rightarrow> bytes" where
  "esc [] = []"
| "esc (b # s) = (if b = 0 then 0 # 255 # esc s else b # esc s)"

fun byte_len :: "nat \<Rightarrow> nat" where
  "byte_len x = (if x = 0 then 0 else Suc (byte_len (x div 256)))"

declare byte_len.simps [simp del]

definition enc_int :: "int \<Rightarrow> bytes" where
  "enc_int i =
     (if 0 \<le> i then of_nat (20 + byte_len (nat i)) # be_bytes (byte_len (nat i)) (nat i)
      else let n = byte_len (nat (- i)) in of_nat (20 - n) # be_bytes n (256 ^ n - 1 - nat (- i)))"

fun enc_elem :: "elem \<Rightarrow> bytes" where
  "enc_elem (TString s) = 2 # esc s @ [0]"
| "enc_elem (TInt i) = enc_int i"
| "enc_elem (TBool b) = [if b then 39 else 38]"
| "enc_elem (TUUID u) = 48 # u"
| "enc_elem (TVersionstamp v) = 51 # vs_key v"

definition enc :: "elem list \<Rightarrow> bytes" where
  "enc t = concat (map enc_elem t)"

lemma enc_simps [simp]: "enc [] = []" "enc (a # t) = enc_elem a @ enc t" "enc (s @ t) = enc s @ enc t"
  by (simp_all add: enc_def)

fun dec_str :: "bytes \<Rightarrow> (bytes \<times> bytes) option" where
  "dec_str [] = None"
| "dec_str (b # r) =
     (if b = 0 then (case r of c # r' \<Rightarrow> if c = 255 then map_option (map_prod (Cons 0) id) (dec_str r')
                               else Some ([], r) | [] \<Rightarrow> Some ([], []))
      else map_option (map_prod (Cons b) id) (dec_str r))"

definition dec_elem :: "bytes \<Rightarrow> (elem \<times> bytes) option" where
  "dec_elem bs = (case bs of [] \<Rightarrow> None | c # r \<Rightarrow>
     let n = unat c - 20; n' = 20 - unat c in
     if c = 2 then map_option (map_prod TString id) (dec_str r)
     else if c = 38 then Some (TBool False, r)
     else if c = 39 then Some (TBool True, r)
     else if c = 48 then Some (TUUID (take 16 r), drop 16 r)
     else if c = 51 then Some (TVersionstamp \<lparr>TransactionVersion = take 10 r,
                                UserVersion = be_uint16 (drop 10 r)\<rparr>, drop 12 r)
     else if 20 \<le> c \<and> c \<le> 28 then Some (TInt (int (be_nat (take n r))), drop n r)
     else if 12 \<le> c \<and> c < 20 then Some (TInt (int (be_nat (take n' r)) - (256 ^ n' - 1)), drop n' r)
     else None)"

fun dec_fuel :: "nat \<Rightarrow> bytes \<Rightarrow> go_error + elem list" where
  "dec_fuel n [] = Inr []"
| "dec_fuel 0 (b # bs) = Inl (Errorf ''unable to decode tuple'')"
| "dec_fuel (Suc n) (b # bs) =
     (case dec_elem (b # bs) of None \<Rightarrow> Inl (Errorf ''unable to decode tuple'')
      | Some (e, r) \<Rightarrow> map_sum id (Cons e) (dec_fuel n r))"

definition dec :: "bytes \<Rightarrow> go_error + elem list" where
  "dec bs = dec_fuel (length bs) bs"

text \<open>What can follow a string's terminator: nothing, or a byte other than 0xFF.\<close>

definition follows :: "bytes \<Rightarrow> bool" where
  "follows z \<longleftrightarrow> z = [] \<or> hd z \<noteq> 255"

lemma follows_Cons [simp]: "follows (c # z) \<longleftrightarrow> c \<noteq> 255" "follows []"
  by (simp_all add: follows_def)

lemma byte_len_less: "x < 256 ^ byte_len x"
proof (induction x rule: byte_len.induct)
  case (1 x)
  show ?case
  proof (cases "x = 0")
    case False
    with 1 have "x div 256 < 256 ^ byte_len (x div 256)" by blast
    then have "x < 256 ^ Suc (byte_len (x div 256))" by (simp add: div_less_iff_less_mult mult.commute)
    with False show ?thesis by (simp add: byte_len.simps [of x])
  qed (simp add: byte_len.simps)
qed

lemma byte_len_le: "x < 256 ^ n \<Longrightarrow> byte_len x \<le> n"
proof (induction n arbitrary: x)
  case 0
  then show ?case by (simp add: byte_len.simps)
next
  case (Suc n)
  then have "x div 256 < 256 ^ n" by (simp add: div_less_iff_less_mult mult.commute)
  with Suc.IH show ?case by (subst byte_len.simps) auto
qed

lemma byte_len_mono: "x \<le> y \<Longrightarrow> byte_len x \<le> byte_len y"
  using byte_len_less [of y] by (intro byte_len_le) simp

lemma byte_len_int64: "x \<le> 2 ^ 63 \<Longrightarrow> byte_len x \<le> 8"
  by (rule byte_len_le) simp

lemma be_bytes_less: "x < y \<Longrightarrow> y < 256 ^ n \<Longrightarrow> be_bytes n x < be_bytes n y"
  by (subst be_nat_less_iff) (simp_all add: be_nat_be_bytes)

lemma unat_small: "n < 256 \<Longrightarrow> unat (of_nat n :: byte) = n"
  by (simp add: unat_byte_of_nat)

lemma of_nat_byte_less: "m < n \<Longrightarrow> n < 256 \<Longrightarrow> (of_nat m :: byte) < of_nat n"
  by (simp add: word_less_nat_alt unat_small)

lemma enc_int_pos:
  "0 \<le> i \<Longrightarrow> enc_int i = of_nat (20 + byte_len (nat i)) # be_bytes (byte_len (nat i)) (nat i)"
  by (simp add: enc_int_def)

lemma enc_int_neg:
  "i < 0 \<Longrightarrow> enc_int i = of_nat (20 - byte_len (nat (- i))) #
     be_bytes (byte_len (nat (- i))) (256 ^ byte_len (nat (- i)) - 1 - nat (- i))"
  by (simp add: enc_int_def Let_def)

lemma enc_int_less:
  assumes "i < j" "elem_ok (TInt i)" "elem_ok (TInt j)"
  shows "enc_int i < enc_int j"
proof -
  have len: "byte_len (nat i) \<le> 8" "byte_len (nat j) \<le> 8" "byte_len (nat (- i)) \<le> 8" "byte_len (nat (- j)) \<le> 8"
    using assms by (auto intro!: byte_len_int64 simp: nat_le_iff)
  consider (pp) "0 \<le> i" "0 \<le> j" | (np) "i < 0" "0 \<le> j" | (nn) "i < 0" "j < 0"
    using assms(1) by linarith
  then show ?thesis
  proof cases
    case pp
    let ?m = "byte_len (nat i)" and ?n = "byte_len (nat j)"
    have "?m \<le> ?n" using pp assms(1) by (intro byte_len_mono) simp
    moreover have "be_bytes ?n (nat i) < be_bytes ?n (nat j)"
      using pp assms(1) by (intro be_bytes_less byte_len_less) simp
    ultimately show ?thesis
      using pp len of_nat_byte_less [of "20 + ?m" "20 + ?n"]
      by (cases "?m = ?n") (simp_all add: enc_int_pos)
  next
    case np
    have "0 < byte_len (nat (- i))" using np by (subst byte_len.simps) simp
    then show ?thesis
      using np len of_nat_byte_less [of "20 - byte_len (nat (- i))" "20 + byte_len (nat j)"]
      by (simp add: enc_int_pos enc_int_neg)
  next
    case nn
    let ?m = "byte_len (nat (- i))" and ?n = "byte_len (nat (- j))"
    have "?n \<le> ?m" using nn assms(1) by (intro byte_len_mono) simp
    moreover have "be_bytes ?m (256 ^ ?m - 1 - nat (- i)) < be_bytes ?m (256 ^ ?m - 1 - nat (- j))"
    proof (rule be_bytes_less)
      have "nat (- j) < nat (- i)" "nat (- i) < 256 ^ ?m"
        using nn assms(1) byte_len_less [of "nat (- i)"] by auto
      then show "256 ^ ?m - 1 - nat (- i) < 256 ^ ?m - 1 - nat (- j)" "256 ^ ?m - 1 - nat (- j) < 256 ^ ?m"
        by linarith+
    qed
    ultimately show ?thesis
      using nn len of_nat_byte_less [of "20 - ?m" "20 - ?n"]
      by (cases "?m = ?n") (simp_all add: enc_int_neg)
  qed
qed

lemma dec_elem_int:
  assumes "elem_ok (TInt i)"
  shows "dec_elem (enc_int i @ z) = Some (TInt i, z)"
proof (cases "0 \<le> i")
  case True
  let ?n = "byte_len (nat i)"
  have n: "?n \<le> 8" using assms by (auto intro!: byte_len_int64 simp: nat_le_iff)
  have u: "unat (of_nat (20 + ?n) :: byte) = 20 + ?n" using n by (intro unat_small) simp
  have c: "(of_nat (20 + ?n) :: byte) \<notin> {2, 38, 39, 48, 51}" "(20::byte) \<le> of_nat (20 + ?n)"
      "(of_nat (20 + ?n) :: byte) \<le> 28"
    using n u by (auto simp: word_unat_eq_iff word_le_nat_alt simp del: of_nat_add)
  have "be_nat (be_bytes ?n (nat i)) = nat i"
    using byte_len_less [of "nat i"] by (simp add: be_nat_be_bytes)
  with True c u show ?thesis
    by (simp add: dec_elem_def enc_int_pos Let_def del: of_nat_add)
next
  case False
  let ?n = "byte_len (nat (- i))"
  have n: "?n \<le> 8" using assms by (auto intro!: byte_len_int64 simp: nat_le_iff)
  have n0: "0 < ?n" using False by (subst byte_len.simps) simp
  have u: "unat (of_nat (20 - ?n) :: byte) = 20 - ?n" by (intro unat_small) simp
  have c: "(of_nat (20 - ?n) :: byte) \<notin> {2, 38, 39, 48, 51}" "\<not> (20::byte) \<le> of_nat (20 - ?n)"
      "(12::byte) \<le> of_nat (20 - ?n)" "(of_nat (20 - ?n) :: byte) < 20"
    using n n0 u by (auto simp: word_unat_eq_iff word_le_nat_alt word_less_nat_alt simp del: of_nat_diff)
  have l: "nat (- i) < 256 ^ ?n" by (rule byte_len_less)
  then have "be_nat (be_bytes ?n (256 ^ ?n - 1 - nat (- i))) = 256 ^ ?n - 1 - nat (- i)"
    by (simp add: be_nat_be_bytes)
  moreover have "int (256 ^ ?n - 1 - nat (- i)) - (256 ^ ?n - 1) = i"
  proof -
    have "int (256 ^ ?n - 1 - nat (- i)) = int (256 ^ ?n) - 1 - int (nat (- i))"
      using l by linarith
    then show ?thesis using False by simp
  qed
  ultimately show ?thesis
    using False c u n by (simp add: dec_elem_def enc_int_neg Let_def del: of_nat_diff)
qed

lemma dec_str_esc: "follows z \<Longrightarrow> dec_str (esc s @ 0 # z) = Some (s, z)"
  by (induction s) (auto simp: follows_def split: list.split)

lemma esc_prefix_iff: "follows z \<Longrightarrow> prefix (esc p) (esc x @ 0 # z) \<longleftrightarrow> prefix p x"
proof (induction p arbitrary: x)
  case Nil
  then show ?case by simp
next
  case (Cons b p)
  show ?case
  proof (cases x)
    case Nil
    with Cons.prems show ?thesis by (cases z) auto
  next
    case (Cons c x')
    with Cons.IH [of x'] \<open>follows z\<close> show ?thesis by auto
  qed
qed

lemma esc_terminated_prefix: "follows z \<Longrightarrow> prefix (esc a @ [0]) (esc b @ 0 # z) \<longleftrightarrow> a = b \<or> prefix (a @ [0]) b"
proof (induction a arbitrary: b)
  case Nil
  then show ?case by (cases b) auto
next
  case (Cons c a)
  show ?case
  proof (cases b)
    case Nil
    with Cons.prems show ?thesis by (cases z) auto
  next
    case (Cons d b')
    with Cons.IH [of b'] Cons.prems show ?thesis by auto
  qed
qed

lemma byte_less_255: "c \<noteq> 255 \<Longrightarrow> (c :: byte) < 255"
  using unat_byte_less [of c] by (auto simp: word_less_nat_alt word_unat_eq_iff)

lemma esc_less: "follows s \<Longrightarrow> a < b \<Longrightarrow> esc a @ 0 # s < esc b @ 0 # t"
proof (induction a arbitrary: b)
  case Nil
  then obtain c b' where "b = c # b'" by (cases b) auto
  then show ?case using Nil byte_less_255 by (cases s) (auto simp: word_gt_0)
next
  case (Cons c a)
  then obtain d b' where b: "b = d # b'" by (cases b) auto
  with Cons show ?case by (auto simp: word_gt_0)
qed

lemma vs_key_dec:
  assumes "vs_wf v"
  shows "take 10 (vs_key v @ z) = TransactionVersion v" "be_uint16 (drop 10 (vs_key v @ z)) = UserVersion v"
    "drop 12 (vs_key v @ z) = z"
  using assms unsigned_less [of "UserVersion v", where 'a = nat]
  by (simp_all add: vs_key_def vs_wf_def be_uint16_def be_nat_be_bytes)

lemma dec_elem_enc:
  assumes "elem_ok a" and "is_TString a \<Longrightarrow> follows z"
  shows "dec_elem (enc_elem a @ z) = Some (a, z)"
proof (cases a)
  case (TInt i)
  with assms dec_elem_int [of i z] show ?thesis by simp
next
  case (TVersionstamp v)
  with assms vs_key_dec [of v z] show ?thesis by (simp add: dec_elem_def)
qed (use assms dec_str_esc in \<open>auto simp: dec_elem_def\<close>)

lemma enc_elem_head:
  assumes "elem_ok a"
  shows "\<exists>c r. enc_elem a = c # r \<and> c < 255"
proof (cases a)
  case (TInt i)
  have len: "byte_len (nat i) \<le> 8"
    using assms TInt by (auto intro!: byte_len_int64 simp: nat_le_iff)
  have "(of_nat (20 + byte_len (nat i)) :: byte) < of_nat 255"
    "(of_nat (20 - byte_len (nat (- i))) :: byte) < of_nat 255"
    using len by (intro of_nat_byte_less; simp)+
  with TInt show ?thesis by (cases "0 \<le> i") (simp_all add: enc_int_pos enc_int_neg)
qed auto

lemma follows_enc: "tuple_ok t \<Longrightarrow> follows (enc t)"
  using enc_elem_head by (cases t) (auto, metis append_Cons follows_Cons(1) order_less_irrefl)

lemma dec_enc: "tuple_ok t \<Longrightarrow> dec (enc t) = Inr t"
proof -
  have "length (enc t) \<le> n \<Longrightarrow> tuple_ok t \<Longrightarrow> dec_fuel n (enc t) = Inr t" for n
  proof (induction t arbitrary: n)
    case Nil
    then show ?case by simp
  next
    case (Cons a t)
    from Cons.prems enc_elem_head [of a] obtain c r where a: "enc_elem a = c # r" by auto
    with Cons.prems obtain n' where n: "n = Suc n'" "length (enc t) \<le> n'" by (cases n) auto
    have "dec_elem (enc_elem a @ enc t) = Some (a, enc t)"
      using Cons.prems by (intro dec_elem_enc follows_enc) simp_all
    with Cons.IH [OF n(2)] Cons.prems a n show ?case by simp
  qed
  then show "tuple_ok t \<Longrightarrow> dec (enc t) = Inr t" by (simp add: dec_def)
qed

lemma enc_delimited:
  assumes "elem_ok a" "tuple_ok (b # t)" "enc_elem b @ enc t = enc_elem a @ z"
    and "is_TString a \<Longrightarrow> follows z"
  shows "a = b"
proof -
  have "dec_elem (enc_elem b @ enc t) = Some (b, enc t)"
    using assms(2) by (intro dec_elem_enc follows_enc) simp_all
  moreover have "dec_elem (enc_elem a @ z) = Some (a, z)"
    using assms(1,4) by (intro dec_elem_enc) simp_all
  ultimately have "Some (b, enc t) = Some (a, z)" unfolding assms(3) by (rule trans [OF sym])
  then show ?thesis by simp
qed

lemma enc_less:
  assumes "tuple_ok (a # s)" "tuple_ok (b # t)" "elem_less a b"
  shows "enc (a # s) < enc (b # t)"
proof (cases "is_TString a")
  case True
  then obtain x y where "a = TString x" "b = TString y" using assms(3) by (cases a; cases b) auto
  with assms show ?thesis using esc_less [of "enc s" x y "enc t"] follows_enc [of s] by simp
next
  case False
  have lt: "enc_elem a < enc_elem b"
    using assms False enc_int_less by (cases a; cases b) auto
  have "\<not> prefix (enc_elem a) (enc_elem b)"
    using enc_delimited [of a b "[]"] assms False lt by (auto simp: prefix_def)
  with lt show ?thesis by (simp add: less_append_right)
qed

section \<open>Prefix ranges and versionstamped keys\<close>

definition mem_Strinc :: "bytes \<Rightarrow> go_error + bytes" where
  "mem_Strinc p = (case dropWhile (\<lambda>b. b = 255) (rev p) of
     [] \<Rightarrow> Inl (Errorf ''Key must contain at least one byte not equal to 0xFF'')
   | b # r \<Rightarrow> Inr (rev r @ [b + 1]))"

definition mem_PrefixRange :: "bytes \<Rightarrow> go_error + (bytes \<times> bytes)" where
  "mem_PrefixRange p = map_sum id (Pair p) (mem_Strinc p)"

text \<open>A versionstamped key carries the position of its stamp in its last four bytes.\<close>

definition mem_PackWithVersionstamp :: "bytes \<Rightarrow> elem list \<Rightarrow> go_error + bytes" where
  "mem_PackWithVersionstamp p t =
     (let pos = length p + length (enc (takeWhile (\<lambda>e. \<not> elem_incomplete e) t)) + 1
      in if length (filter elem_incomplete t) \<noteq> 1
         then Inl (Errorf ''no incomplete versionstamp included in tuple pack with versionstamp'')
         else if 2 ^ 32 \<le> pos then Inl (Errorf ''versionstamp position too large'')
         else Inr (p @ enc t @ rev (be_bytes 4 pos)))"

definition mem_complete :: "bytes \<Rightarrow> bytes \<Rightarrow> bytes" where
  "mem_complete k st =
     (let body = take (length k - 4) k; pos = be_nat (rev (drop (length k - 4) k))
      in take pos body @ st @ drop (pos + 10) body)"

lemma ff_prefix: "replicate n (255 :: byte) \<le> k \<Longrightarrow> prefix (replicate n 255) k"
proof (induction n arbitrary: k)
  case 0
  then show ?case by simp
next
  case (Suc n)
  then obtain c k' where k: "k = c # k'" by (cases k) auto
  with Suc.prems have "\<not> c < 255" by auto
  then have "c = 255" using byte_less_255 by blast
  with Suc k show ?case by simp
qed

lemma mem_Strinc_form:
  assumes "mem_Strinc p = Inr e"
  obtains q b n where "p = q @ b # replicate n 255" "b \<noteq> 255" "e = q @ [b + 1]"
proof -
  from assms obtain b r where d: "dropWhile (\<lambda>b. b = 255) (rev p) = b # r" "e = rev r @ [b + 1]"
    by (auto simp: mem_Strinc_def split: list.splits)
  have b: "b \<noteq> 255" using d(1) by (metis (mono_tags, lifting) dropWhile_eq_Cons_conv)
  have "rev p = takeWhile (\<lambda>b. b = 255) (rev p) @ b # r" using d(1) by (metis takeWhile_dropWhile_id)
  moreover have "takeWhile (\<lambda>b. b = 255) (rev p) = replicate (length (takeWhile (\<lambda>b. b = 255) (rev p))) 255"
    by (metis (mono_tags) replicate_eqI set_takeWhileD)
  ultimately obtain n where "rev p = replicate n 255 @ b # r" by metis
  then have "p = rev r @ b # replicate n 255"
    by (metis append.assoc append_Cons append_Nil rev_append rev_replicate rev.simps(2) rev_rev_ident)
  with b d(2) that show ?thesis by blast
qed

lemma byte_less_plus1: "b \<noteq> 255 \<Longrightarrow> (c :: byte) < b + 1 \<longleftrightarrow> c \<le> b"
proof -
  assume "b \<noteq> 255"
  then have "unat b < 255" using byte_less_255 [of b] by (simp add: word_less_nat_alt)
  then have "unat (b + 1) = unat b + 1" by (subst unat_word_ariths) simp
  then show ?thesis by (simp add: word_less_nat_alt word_le_nat_alt less_Suc_eq_le)
qed

lemma mem_Strinc_range:
  assumes "mem_Strinc p = Inr e"
  shows "(p \<le> k \<and> k < e) \<longleftrightarrow> prefix p k"
proof -
  from mem_Strinc_form [OF assms] obtain q b n where
    p: "p = q @ b # replicate n 255" and b: "b \<noteq> 255" and e: "e = q @ [b + 1]" .
  show ?thesis
  proof
    assume k: "p \<le> k \<and> k < e"
    then have "prefix q k" unfolding p e by (intro prefix_convex [of q p e k]) (auto simp: p e)
    then obtain k' where k': "k = q @ k'" by (auto simp: prefix_def)
    with k p e have le: "b # replicate n 255 \<le> k'" and lt: "k' < [b + 1]" by simp_all
    then obtain c k'' where c: "k' = c # k''" by (cases k') auto
    with le lt byte_less_plus1 [OF b, of c] have "c = b" "replicate n 255 \<le> k''"
      by (auto simp: order.order_iff_strict)
    with ff_prefix k' c p show "prefix p k" by simp
  next
    assume k: "prefix p k"
    then obtain k' where "k = q @ b # replicate n 255 @ k'" by (auto simp: prefix_def p)
    then have "k < e" using byte_less_plus1 [OF b, of b] by (simp add: e)
    with k prefix_imp_le show "p \<le> k \<and> k < e" by blast
  qed
qed

lemma mem_Strinc_ok: "\<exists>b\<in>set p. b \<noteq> 255 \<Longrightarrow> \<exists>e. mem_Strinc p = Inr e"
  by (auto simp: mem_Strinc_def dropWhile_eq_Nil_conv split: list.split)

lemma elem_fill_complete: "\<not> elem_incomplete e \<Longrightarrow> elem_fill st e = e"
  by (cases e) auto

lemma mem_complete_pack:
  assumes "mem_PackWithVersionstamp p t = Inr k" "length st = 10"
  shows "mem_complete k st = p @ enc (map (elem_fill st) t)"
proof -
  let ?s = "takeWhile (\<lambda>e. \<not> elem_incomplete e) t"
  let ?pos = "length p + length (enc ?s) + 1"
  from assms(1) have one: "length (filter elem_incomplete t) = 1" and pos: "?pos < 2 ^ 32"
    and k: "k = p @ enc t @ rev (be_bytes 4 ?pos)"
    by (auto simp: mem_PackWithVersionstamp_def Let_def split: if_splits)
  have "\<exists>e\<in>set t. elem_incomplete e" using one by (metis filter_False length_0_conv zero_neq_one)
  then obtain e u where d: "dropWhile (\<lambda>e. \<not> elem_incomplete e) t = e # u" "elem_incomplete e"
    by (metis dropWhile_eq_Nil_conv hd_dropWhile list.exhaust list.sel(1))
  have t: "t = ?s @ e # u" using d(1) by (metis takeWhile_dropWhile_id)
  have s: "filter elem_incomplete ?s = []" by (auto simp: filter_empty_conv dest: set_takeWhileD)
  have "filter elem_incomplete t = filter elem_incomplete ?s @ e # filter elem_incomplete u"
    using d(2) by (subst t) simp
  with one s have u: "filter elem_incomplete u = []" by simp
  have fs: "map (elem_fill st) ?s = ?s" "map (elem_fill st) u = u"
    using s u by (auto simp: filter_empty_conv elem_fill_complete intro!: map_idI)
  have fill: "map (elem_fill st) t = ?s @ elem_fill st e # u" using fs by (subst t) simp
  obtain v where v: "e = TVersionstamp v" "vs_incomplete v" using d(2) by (cases e) auto
  have body: "p @ enc t = (p @ enc ?s @ [51]) @ TransactionVersion v @ (be_bytes 2 (unat (UserVersion v)) @ enc u)"
    by (subst t) (simp add: v vs_key_def)
  have "be_nat (be_bytes 4 ?pos) = ?pos" using pos by (simp add: be_nat_be_bytes)
  then have "mem_complete k st = take ?pos (p @ enc t) @ st @ drop (?pos + 10) (p @ enc t)"
    by (simp add: k mem_complete_def Let_def)
  also have "\<dots> = p @ enc (map (elem_fill st) t)"
    unfolding body fill using v by (simp add: vs_incomplete_def vs_key_def)
  finally show ?thesis .
qed

section \<open>Databases and transactions\<close>

text \<open>\<open>md_up\<close> says whether the cluster answers; without it every read fails with error 1031.\<close>

record mem_db =
  md_kvs :: "kv list"
  md_version :: int64
  md_up :: bool

record mem_tr =
  mt_kvs :: "kv list"
  mt_pending :: "kv list"
  mt_version :: int64
  mt_writes :: bool
  mt_up :: bool

definition mem_range :: "kv list \<Rightarrow> (bytes \<Rightarrow> bool) \<Rightarrow> kv list" where
  "mem_range kvs P = sort_key fst (filter (\<lambda>kv. P (fst kv)) (AList.clearjunk kvs))"

definition mem_GetRange :: "bool \<Rightarrow> mem_tr \<Rightarrow> selector \<Rightarrow> selector \<Rightarrow> range_options \<Rightarrow> iter" where
  "mem_GetRange snap t b e opts =
     (if mt_up t then map Inr (limited opts (mem_range (mt_kvs t) (\<lambda>k. sel_from b k \<and> sel_upto e k)))
      else [Inl (FdbError 1031)])"

definition mem_Add :: "bytes \<Rightarrow> bytes \<Rightarrow> mem_tr \<Rightarrow> mem_tr" where
  "mem_Add k p t =
     (let old = (case map_of (mt_kvs t) k of None \<Rightarrow> [] | Some v \<Rightarrow> v);
          new = rev (be_bytes (length p) (be_nat (rev (take (length p) old)) + be_nat (rev p)))
      in t\<lparr>mt_kvs := AList.update k new (mt_kvs t), mt_writes := True\<rparr>)"

definition mem_Commit :: "bytes \<Rightarrow> mem_tr \<Rightarrow> mem_db" where
  "mem_Commit st t =
     \<lparr>md_kvs = foldl (\<lambda>m (k, v). AList.update (mem_complete k st) v m) (mt_kvs t) (mt_pending t),
      md_version = max (mt_version t) (int (be_nat (take 8 st))), md_up = mt_up t\<rparr>"

definition memory_lib :: "(mem_db, mem_tr) fdb_lib" where
  "memory_lib =
     \<lparr>tuple_Pack = enc,
      tuple_Unpack = dec,
      subspace_Sub = (\<lambda>p t. p @ enc t),
      subspace_Pack = (\<lambda>p t. p @ enc t),
      subspace_PackWithVersionstamp = mem_PackWithVersionstamp,
      subspace_Unpack = (\<lambda>p k. if prefix p k then dec (drop (length p) k)
        else Inl (Errorf ''key is not in subspace'')),
      subspace_FDBRangeKeys = (\<lambda>p. (p @ [0], p @ [255])),
      IncompleteVersionstamp = (\<lambda>u. \<lparr>TransactionVersion = replicate 10 255, UserVersion = u\<rparr>),
      Versionstamp_Bytes = vs_key,
      fdb_Strinc = mem_Strinc,
      fdb_PrefixRange = mem_PrefixRange,
      db_CreateTransaction = (\<lambda>d. Inr \<lparr>mt_kvs = md_kvs d, mt_pending = [], mt_version = md_version d, mt_writes = False, mt_up = md_up d\<rparr>),
      tr_Reset = (\<lambda>d t. \<lparr>mt_kvs = md_kvs d, mt_pending = [], mt_version = md_version d, mt_writes = False, mt_up = md_up d\<rparr>),
      tr_SetOption = (\<lambda>c t. if mt_up t then Inr t else Inl (FdbError 1031)),
      tr_Get = (\<lambda>t k. if mt_up t then Inr (map_of (mt_kvs t) k) else Inl (FdbError 1031)),
      tr_GetRange = mem_GetRange,
      tr_GetReadVersion = (\<lambda>t. if mt_up t then Inr (mt_version t) else Inl (FdbError 1031)),
      tr_Set = (\<lambda>k v t. t\<lparr>mt_kvs := AList.update k v (mt_kvs t), mt_writes := True\<rparr>),
      tr_SetVersionstampedKey = (\<lambda>k v t. t\<lparr>mt_pending := mt_pending t @ [(k, v)], mt_writes := True\<rparr>),
      tr_Clear = (\<lambda>k t. t\<lparr>mt_kvs := AList.delete k (mt_kvs t), mt_writes := True\<rparr>),
      tr_ClearRange = (\<lambda>lo hi t. t\<lparr>mt_kvs := filter (\<lambda>kv. \<not> (lo \<le> fst kv \<and> fst kv < hi)) (mt_kvs t), mt_writes := True\<rparr>),
      tr_Add = mem_Add,
      tr_Commit = mem_Commit,
      tr_GetCommittedVersion = (\<lambda>st t. Inr (if mt_writes t then int (be_nat (take 8 st)) else - 1)),
      tr_GetEstimatedRangeSizeBytes = (\<lambda>t (b, e). Inr (int (sum_list (map (\<lambda>kv. length (fst kv) + length (snd kv))
        (filter (\<lambda>kv. b \<le> fst kv \<and> fst kv < e) (AList.clearjunk (mt_kvs t))))))),
      db_view = (\<lambda>d. map_of (md_kvs d)),
      tr_view = (\<lambda>t. map_of (mt_kvs t)),
      tr_pending = mt_pending,
      tr_alive = mt_up,
      db_version = md_version,
      tr_version = mt_version,
      vs_complete = mem_complete\<rparr>"

lemma map_of_filter_key:
  "map_of (filter (\<lambda>kv. P (fst kv)) l) k = (if P k then map_of l k else None)"
  by (induction l) auto

lemma mem_range_eq: "mem_range kvs P = range_list (map_of kvs) P"
proof (rule sym, rule range_list_unique)
  have d: "distinct (map fst (filter (\<lambda>kv. P (fst kv)) (AList.clearjunk kvs)))"
    using distinct_clearjunk [of kvs] by (auto simp: distinct_map intro: inj_on_subset)
  show "sorted (map fst (mem_range kvs P))" by (simp add: mem_range_def)
  from d show "distinct (map fst (mem_range kvs P))" by (simp add: mem_range_def distinct_map)
  fix k v
  have "(k, v) \<in> set (mem_range kvs P) \<longleftrightarrow> (k, v) \<in> set (AList.clearjunk kvs) \<and> P k"
    by (auto simp: mem_range_def)
  also have "\<dots> \<longleftrightarrow> map_of kvs k = Some v \<and> P k"
    using map_of_eq_Some_iff [OF distinct_clearjunk, of kvs k v] by (simp add: map_of_clearjunk)
  finally show "(k, v) \<in> set (mem_range kvs P) \<longleftrightarrow> map_of kvs k = Some v \<and> P k" .
qed (rule finite_dom_map_of)

lemma mem_Commit_view:
  "map_of (md_kvs (mem_Commit st t)) = stamp_all mem_complete st (mt_pending t) (map_of (mt_kvs t))"
proof -
  have "map_of (foldl (\<lambda>m (k, v). AList.update (mem_complete k st) v m) kvs ps)
      = foldl (\<lambda>m (k, v). m(mem_complete k st \<mapsto> v)) (map_of kvs) ps" for kvs ps
    by (induction ps arbitrary: kvs) (auto simp: update_conv')
  then show ?thesis by (simp add: mem_Commit_def stamp_all_def)
qed

lemma mem_Commit_version: "md_version (mem_Commit st t) = max (mt_version t) (int (be_nat (take 8 st)))"
  by (simp add: mem_Commit_def)

interpretation mem: fdb_client memory_lib
proof unfold_locales
  fix t :: mem_tr and opts b e snap
  show "let xs = limited opts (sel_range (tr_view memory_lib t) b e)
       in tr_GetRange memory_lib snap t b e opts = map Inr xs \<or>
          (\<exists>n err. tr_GetRange memory_lib snap t b e opts = map Inr (take n xs) @ [Inl err])"
    by (auto simp: memory_lib_def mem_GetRange_def sel_range_def mem_range_eq Let_def intro: exI [of _ 0])
next
  fix a b :: elem and t z
  assume "elem_ok a" "tuple_ok (b # t)" "tuple_Pack memory_lib (b # t) = tuple_Pack memory_lib [a] @ z"
    "is_TString a \<longrightarrow> z = [] \<or> hd z \<noteq> 255"
  then show "a = b" using enc_delimited [of a b t z] by (simp add: memory_lib_def follows_def)
next
  fix a :: elem and s b t
  assume "tuple_ok (a # s)" "tuple_ok (b # t)" "elem_less a b"
  then show "tuple_Pack memory_lib (a # s) < tuple_Pack memory_lib (b # t)"
    using enc_less [of a s b t] by (simp add: memory_lib_def)
next
  fix a :: elem
  assume "elem_ok a"
  then show "\<exists>c r. tuple_Pack memory_lib [a] = c # r \<and> c < 255"
    using enc_elem_head by (simp add: memory_lib_def)
next
  fix lo hi :: bytes and t
  show "tr_view memory_lib (tr_ClearRange memory_lib lo hi t) =
      (\<lambda>k. if lo \<le> k \<and> k < hi then None else tr_view memory_lib t k)"
    using map_of_filter_key [of "\<lambda>k. \<not> (lo \<le> k \<and> k < hi)" "mt_kvs t"]
    by (simp add: memory_lib_def fun_eq_iff)
qed (simp_all add: memory_lib_def dec_enc esc_prefix_iff esc_terminated_prefix follows_enc
    mem_complete_pack mem_Strinc_ok mem_Strinc_range mem_PrefixRange_def mem_GetRange_def mem_range_eq
    sel_range_def finite_dom_map_of update_conv' delete_conv' mem_Add_def Let_def
    mem_Commit_view mem_Commit_version fun_eq_iff butlast_append split: if_splits)

text \<open>A driver opened on an in-memory database.\<close>

interpretation mem: fdb_driver memory_lib cfg dir "openSubspaces memory_lib cfg dir" for cfg dir
  by unfold_locales (rule refl)

end
