(* ===== verification/FDB_Sample.thy ===== *)
theory FDB_Sample
  imports FDB_Progress FDB_Memory "HOL-Library.Code_Target_Numeral"
begin

text \<open>
  Concrete states for examples: the database that holds a given history, and attempts of a client
  that is alone. Every well-formed history is held by a database, so \<open>represents\<close> is satisfiable
  at each of them.
\<close>

section \<open>The database of a history\<close>

definition layout_kvs :: "('d, 't) FDB \<Rightarrow> entry list \<Rightarrow> kv list" where
  "layout_kvs f h =
     concat (map (rev_kvs (f_lib f) (f_byRevision f)) h) @ map (index_kv (f_lib f) (f_byKeyAndRevision f)) h @
     concat (map (\<lambda>e. current_kvs (f_lib f) (f_byKeyCurrent f) (r_Key (snd e), r_Value (snd e))) (filter (live h) h))"

lemma map_of_append_left: "\<forall>kv\<in>set ys. fst kv \<noteq> k \<Longrightarrow> map_of (xs @ ys) k = map_of xs k"
  by (induction xs) (auto simp: map_of_eq_None_iff)

lemma map_of_append_right: "\<forall>kv\<in>set xs. fst kv \<noteq> k \<Longrightarrow> map_of (xs @ ys) k = map_of ys k"
  by (induction xs) auto

lemma live_same_key: "live h e \<Longrightarrow> live h e' \<Longrightarrow> r_Key (snd e) = r_Key (snd e') \<Longrightarrow> e = e'"
  by (auto simp: live_def)

lemma map_of_concat_Some:
  assumes "\<And>x. x \<in> set xs \<Longrightarrow> distinct (map fst (g x))"
    and "\<And>x y. x \<in> set xs \<Longrightarrow> y \<in> set xs \<Longrightarrow> k \<in> fst ` set (g x) \<Longrightarrow> k \<in> fst ` set (g y) \<Longrightarrow> x = y"
  shows "map_of (concat (map g xs)) k = Some v \<longleftrightarrow> (\<exists>x\<in>set xs. (k, v) \<in> set (g x))"
  using assms
proof (induction xs)
  case Nil
  then show ?case by simp
next
  case (Cons a xs)
  have IH: "map_of (concat (map g xs)) k = Some v \<longleftrightarrow> (\<exists>x\<in>set xs. (k, v) \<in> set (g x))"
    by (rule Cons.IH) (use Cons.prems in auto)
  show ?case
  proof (cases "k \<in> fst ` set (g a)")
    case True
    then have "map_of (concat (map g (a # xs))) k = map_of (g a) k"
      by (simp add: map_add_dom_app_simps(1) dom_map_of_conv_image_fst)
    moreover have "(k, v) \<in> set (g x) \<Longrightarrow> x \<in> set xs \<Longrightarrow> x = a" for x
      using Cons.prems(2) [of x a] True by (force simp: image_iff)
    ultimately show ?thesis using Cons.prems(1) [of a] by (auto simp: map_of_eq_Some_iff)
  next
    case False
    then have "map_of (concat (map g (a # xs))) k = map_of (concat (map g xs)) k"
      using map_of_append_right [of "g a" k "concat (map g xs)"] by (auto simp del: map_of_append)
    with IH False show ?thesis by (force simp: image_iff)
  qed
qed

context fdb_driver
begin

lemma represents_layout:
  assumes "hist_wf h" "\<forall>e\<in>set h. entry_ok L e"
  shows "represents f (map_of (layout_kvs f h)) h"
proof -
  let ?r = "concat (map (rev_kvs L (f_byRevision f)) h)" and ?i = "map (index_kv L (f_byKeyAndRevision f)) h"
  let ?g = "\<lambda>e. current_kvs L (f_byKeyCurrent f) (r_Key (snd e), r_Value (snd e))"
  let ?c = "concat (map ?g (filter (live h) h))"
  have kvs: "layout_kvs f h = ?r @ ?i @ ?c" by (simp add: layout_kvs_def)
  have r: "prefix (f_byRevision f) (fst kv)" if "kv \<in> set ?r" for kv
    using that assms(1) by (auto simp: hist_wf_def simp del: driver_simps intro: subspace_keys(1))
  have i: "prefix (f_byKeyAndRevision f) (fst kv)" if "kv \<in> set ?i" for kv
    using that subspace_keys(2) by (auto simp del: driver_simps)
  have ok: "length (r_Value (snd e)) < 2 ^ 62" "0 \<notin> set (r_Key (snd e))" if "e \<in> set h" for e
    using that assms(2) by (auto simp: entry_ok_def)
  have g: "prefix (f_byKeyCurrent f) (fst kv)" if "e \<in> set h" "kv \<in> set (?g e)" for kv e
    using that(2) ok(1) [OF that(1)] chunk_kvs_prefix [of "[TString (r_Key (snd e))]" "r_Value (snd e)" kv "f_byKeyCurrent f"]
    by (auto simp: current_kvs_def simp del: driver_simps)
  have c: "prefix (f_byKeyCurrent f) (fst kv)" if "kv \<in> set ?c" for kv
    using that by (auto simp del: driver_simps intro: g)
  have out: "\<not> prefix (f_byRevision f) k \<Longrightarrow> \<forall>kv\<in>set ?r. fst kv \<noteq> k"
    "\<not> prefix (f_byKeyAndRevision f) k \<Longrightarrow> \<forall>kv\<in>set ?i. fst kv \<noteq> k"
    "\<not> prefix (f_byKeyCurrent f) k \<Longrightarrow> \<forall>kv\<in>set ?c. fst kv \<noteq> k" for k
    using r i c by blast+
  have "map_of (layout_kvs f h) k = map_of ?r k" if k: "prefix (f_byRevision f) k" for k
    unfolding kvs using out(2) [OF subspaces_disjoint(1) [OF k]] out(3) [OF subspaces_disjoint(2) [OF k]]
    by (intro map_of_append_left) (simp only: set_append ball_Un)
  then have "agree_on (f_byRevision f) (map_of (layout_kvs f h)) ?r" by (simp add: agree_on_def del: driver_simps)
  moreover have "map_of (layout_kvs f h) k = map_of ?i k" if k: "prefix (f_byKeyAndRevision f) k" for k
    unfolding kvs map_of_append_right [OF out(1) [OF subspaces_disjoint(3) [OF k]]]
    by (rule map_of_append_left [OF out(3) [OF subspaces_disjoint(4) [OF k]]])
  then have "agree_on (f_byKeyAndRevision f) (map_of (layout_kvs f h)) ?i"
    by (simp add: agree_on_def del: driver_simps)
  moreover have "current_agrees L (f_byKeyCurrent f) (map_of (layout_kvs f h)) h"
    unfolding current_agrees_def
  proof (intro allI impI)
    fix k x assume k: "prefix (f_byKeyCurrent f) k"
    have "map_of (layout_kvs f h) k = map_of ?c k"
      unfolding kvs map_of_append_right [OF out(1) [OF subspaces_disjoint(5) [OF k]]]
      by (rule map_of_append_right [OF out(2) [OF subspaces_disjoint(6) [OF k]]])
    moreover have "map_of ?c k = Some x \<longleftrightarrow> (\<exists>e\<in>set (filter (live h) h). (k, x) \<in> set (?g e))"
    proof (rule map_of_concat_Some)
      show "distinct (map fst (?g e))" if "e \<in> set (filter (live h) h)" for e
        using that ok chunk_kvs_distinct by (simp add: current_kvs_def del: driver_simps)
      fix e e' assume ee: "e \<in> set (filter (live h) h)" "e' \<in> set (filter (live h) h)"
        "k \<in> fst ` set (?g e)" "k \<in> fst ` set (?g e')"
      then obtain y y' where "(k, y) \<in> set (?g e)" "(k, y') \<in> set (?g e')" by auto
      with ee ok current_key_prefix [of k y "f_byKeyCurrent f" "r_Key (snd e)" "r_Value (snd e)" "r_Key (snd e')"]
        current_key_prefix [of k y' "f_byKeyCurrent f" "r_Key (snd e')" "r_Value (snd e')" "r_Key (snd e')"]
      have "r_Key (snd e) = r_Key (snd e')" by (simp del: driver_simps)
      then show "e = e'" using live_same_key [of h e e'] ee(1,2) by simp
    qed
    ultimately show "map_of (layout_kvs f h) k = Some x \<longleftrightarrow> (\<exists>e. live h e \<and> (k, x) \<in> set (?g e))"
      using live_in by (auto simp del: driver_simps)
  qed
  ultimately show ?thesis using assms by (simp add: represents_def del: driver_simps(3-))
qed

text \<open>A client that is alone: nobody commits between its attempts.\<close>

lemma quiet_script_alone:
  assumes "\<forall>a\<in>set script. at_before a = id \<and> length (at_uuid a) = 16 \<and> revision_stamp (at_stamp a)"
    and "sorted_wrt (\<lambda>x y. vs_key (new_revision x) < vs_key (new_revision y)) (lo # map at_stamp script)"
  shows "quiet_script f key lo script"
  using assms
proof (induction script arbitrary: lo)
  case (Cons a script)
  have lo: "vs_key (new_revision lo) < vs_key (new_revision (at_stamp a))" using Cons.prems by simp
  have "fresh_stamp h (at_stamp a)" if "below lo h" for h
    using that lo Cons.prems(1) by (auto simp: fresh_stamp_def below_def intro: order.strict_trans1)
  with Cons lo show ?case by (auto intro!: exI [of _ "[]"])
qed simp

end

section \<open>Evaluation\<close>

text \<open>
  Equations with which the simplifier evaluates runs faster: bytes become literals as soon as they are
  made, and range reads compare keys as lists of integers.
\<close>

lemma be_bytes_code [code]:
  "be_bytes n x =
     (if n = 0 then [] else if x = 0 then replicate n 0
      else be_bytes (n - 1) (x div 256) @ [let b = x mod 256
        in if b = 0 then 0 else if b = 1 then 1 else if b = 2 then 2 else if b = 3 then 3 else if b = 4 then 4 else if b = 5 then 5
           else if b = 6 then 6 else if b = 7 then 7 else of_nat x])"
proof -
  have z: "be_bytes n 0 = replicate n 0" by (induction n) (simp_all add: replicate_append_same)
  have "(of_nat x :: byte) = of_nat (x mod 256)" by (rule word_unat_eq_iff [THEN iffD2]) (simp add: unat_byte_of_nat)
  with z show ?thesis by (cases n) (auto simp: Let_def)
qed

definition ints :: "bytes \<Rightarrow> int list" where
  "ints = map uint"

definition with_ints :: "kv \<Rightarrow> int list \<times> kv" where
  "with_ints kv = (ints (fst kv), kv)"

lemma ints_iff: "ints a = ints b \<longleftrightarrow> a = b" "ints a < ints b \<longleftrightarrow> a < b" "ints a \<le> ints b \<longleftrightarrow> a \<le> b"
proof -
  show eq: "ints a = ints b \<longleftrightarrow> a = b" unfolding ints_def by (rule inj_map_eq_map) (simp add: inj_def word_uint_eqI)
  show less: "ints a < ints b \<longleftrightarrow> a < b"
  proof (induction a arbitrary: b)
    case Nil
    show ?case by (cases b) (simp_all add: ints_def)
  next
    case (Cons x a)
    then show ?case by (cases b) (simp_all add: ints_def word_less_def word_uint_eq_iff)
  qed
  show "ints a \<le> ints b \<longleftrightarrow> a \<le> b" using eq less by (auto simp: order.order_iff_strict)
qed

fun ints_from :: "selector \<Rightarrow> int list \<Rightarrow> bool" where
  "ints_from (FirstGreaterOrEqual b) = (\<le>) (ints b)"
| "ints_from (FirstGreaterThan b) = (<) (ints b)"

fun ints_upto :: "selector \<Rightarrow> int list \<Rightarrow> bool" where
  "ints_upto (FirstGreaterOrEqual e) = (\<lambda>k. k < ints e)"
| "ints_upto (FirstGreaterThan e) = (\<lambda>k. k \<le> ints e)"

lemma sel_ints: "ints_from b (ints k) \<longleftrightarrow> sel_from b k" "ints_upto e (ints k) \<longleftrightarrow> sel_upto e k"
  by (cases b; cases e; simp add: ints_iff Let_def)+

lemma sort_with_ints: "sort_key fst (map with_ints kvs) = map with_ints (sort_key fst kvs)"
proof -
  have "insort_key fst (with_ints x) (map with_ints xs) = map with_ints (insort_key fst x xs)" for x xs
    by (induction xs) (simp_all add: with_ints_def ints_iff)
  then show ?thesis by (induction kvs) simp_all
qed

lemma clearjunk_with_ints: "AList.clearjunk (map with_ints kvs) = map with_ints (AList.clearjunk kvs)"
proof -
  have "AList.delete (ints k) (map with_ints xs) = map with_ints (AList.delete k xs)" for k xs
    by (induction xs) (simp_all add: with_ints_def ints_iff)
  then show ?thesis
    by (induction kvs rule: AList.clearjunk.induct) (simp_all add: with_ints_def)
qed

lemma mem_GetRange_code [code]:
  "mem_GetRange snap t b e opts =
     (if mt_up t then
        let lo = ints_from b; hi = ints_upto e
        in map (Inr \<circ> snd) (limited opts (sort_key fst (filter (\<lambda>kv. lo (fst kv) \<and> hi (fst kv)) (AList.clearjunk (map with_ints (mt_kvs t))))))
      else [Inl (FdbError 1031)])"
proof -
  have "filter (\<lambda>kv. ints_from b (fst kv) \<and> ints_upto e (fst kv)) (AList.clearjunk (map with_ints (mt_kvs t)))
    = map with_ints (filter (\<lambda>kv. sel_from b (fst kv) \<and> sel_upto e (fst kv)) (AList.clearjunk (mt_kvs t)))"
    unfolding clearjunk_with_ints filter_map by (simp add: o_def with_ints_def sel_ints)
  then show ?thesis
    by (auto simp: mem_GetRange_def mem_range_def sort_with_ints Let_def limited_def rev_map take_map with_ints_def)
qed

section \<open>A sample driver\<close>

definition sample_cfg :: config where
  "sample_cfg =
     \<lparr>UseSequentialId = False, APITest = False, CleanDirOnStart = False, LogConflictingKeys = False,
      maxBatchSize = 1000, forceRetryTransaction = (\<lambda>_. False)\<rparr>"

definition sample :: "(mem_db, mem_tr) FDB" where
  "sample = openSubspaces memory_lib sample_cfg [21, 1]"

definition sample_stamp :: "nat \<Rightarrow> bytes" where
  "sample_stamp n = be_bytes 8 n @ [0, 0]"

definition sample_uuid :: "nat \<Rightarrow> bytes" where
  "sample_uuid n = be_bytes 16 n"

text \<open>Attempt number \<open>n\<close>, retried on any error.\<close>

definition sample_attempt :: "nat \<Rightarrow> commit_outcome \<Rightarrow> mem_db attempt" where
  "sample_attempt n c =
     \<lparr>at_before = id, at_stamp = sample_stamp n, at_commit = c, at_OnError = (\<lambda>_. None), at_uuid = sample_uuid n,
      at_slow = (\<lambda>_. False), at_conflicts = None\<rparr>"

definition sample_state :: "entry list \<Rightarrow> mem_db driver" where
  "sample_state h = NewFDB \<lparr>md_kvs = layout_kvs sample h, md_version = 0, md_up = True\<rparr>"

definition sample_record :: "bytes \<Rightarrow> bytes \<Rightarrow> nat \<Rightarrow> entry" where
  "sample_record key val n =
     (new_revision (sample_stamp n),
      \<lparr>r_Key = key, r_IsDelete = False, r_IsCreate = True, r_Lease = 0,
       r_CreateRevision = createDummyVersionstamp memory_lib, r_PrevRevision = createDummyVersionstamp memory_lib,
       r_ValueSize = int (length val), r_WriteUUID = sample_uuid n, r_Value = val, r_LatestForKey = False\<rparr>)"

lemma sample_driver: "fdb_driver memory_lib sample_cfg [21, 1] sample"
  unfolding sample_def by (rule mem.fdb_driver_axioms)

lemma sample_lib: "f_lib sample = memory_lib" "\<not> UseSequentialId sample_cfg"
  by (simp_all add: sample_def sample_cfg_def openSubspaces_def)

lemma sample_represents:
  "hist_wf h \<Longrightarrow> \<forall>e\<in>set h. entry_ok memory_lib e \<Longrightarrow> represents sample (db_view memory_lib (d_db (sample_state h))) h"
  using fdb_driver.represents_layout [OF sample_driver]
  by (simp add: sample_state_def NewFDB_def memory_lib_def)

text \<open>Two attempts, the first of them committed without the client knowing.\<close>

definition sample_script :: "mem_db attempt list" where
  "sample_script = [sample_attempt 5 (CommitUnknown (FdbError 1021)), sample_attempt 7 Committed]"

lemma sample_quiet: "quiet_script sample key (sample_stamp 3) sample_script"
proof (rule fdb_driver.quiet_script_alone [OF sample_driver])
  have "revision_stamp (sample_stamp 5)" "revision_stamp (sample_stamp 7)"
    "length (sample_uuid 5) = 16" "length (sample_uuid 7) = 16"
    by code_simp+
  then show "\<forall>a\<in>set sample_script. at_before a = id \<and> length (at_uuid a) = 16 \<and> revision_stamp (at_stamp a)"
    by (simp add: sample_script_def sample_attempt_def)
  show "sorted_wrt (\<lambda>x y. vs_key (new_revision x) < vs_key (new_revision y)) (sample_stamp 3 # map at_stamp sample_script)"
    unfolding sample_script_def sample_attempt_def by code_simp
qed

definition sample_key :: bytes where
  "sample_key = str ''/a''"

definition sample_history :: "entry list" where
  "sample_history = [sample_record sample_key [1, 2, 3] 2]"

lemma sample_starts:
  "starts sample sample_key (sample_stamp 3) (sample_uuid 0) sample_script (sample_state []) []"
  "starts sample sample_key (sample_stamp 3) (sample_uuid 0) sample_script (sample_state sample_history) sample_history"
proof -
  show "starts sample sample_key (sample_stamp 3) (sample_uuid 0) sample_script (sample_state []) []"
    unfolding starts_def sample_lib(1)
    using sample_represents [of "[]"] sample_quiet by (simp add: hist_wf_def hist_sorted_def below_def unused_def)
  have "list_all (entry_ok memory_lib) sample_history" "hist_wf sample_history" "below (sample_stamp 3) sample_history"
    "unused (call_uuids (sample_uuid 0) sample_script) sample_history"
    by code_simp+
  then show "starts sample sample_key (sample_stamp 3) (sample_uuid 0) sample_script (sample_state sample_history) sample_history"
    unfolding starts_def sample_lib(1) using sample_quiet by (simp add: list_all_iff sample_represents)
qed

text \<open>An attempt that commits.\<close>

lemma sample_commits:
  assumes "hist_wf h" "\<forall>e\<in>set h. entry_ok memory_lib e" "fresh_stamp h (sample_stamp n)"
  shows "commits sample (sample_attempt n Committed) (d_db (sample_state h)) h"
  using sample_represents [OF assms(1,2)] assms(3)
  by (simp add: commits_def sample_attempt_def sample_lib(1) sample_uuid_def)
    (simp add: memory_lib_def sample_state_def NewFDB_def sample_def openSubspaces_def sample_cfg_def)

lemma sample_history_commits: "commits sample (sample_attempt 5 Committed) (d_db (sample_state sample_history)) sample_history"
proof (rule sample_commits)
  have "list_all (entry_ok memory_lib) sample_history" by code_simp
  then show "\<forall>e\<in>set sample_history. entry_ok memory_lib e" by (simp add: list_all_iff)
  show "hist_wf sample_history" "fresh_stamp sample_history (sample_stamp 5)" by code_simp+
qed

lemma sample_writable: "writable sample sample_key [1, 2, 3]" "writable sample sample_key [9]"
  by code_simp+

text \<open>The runs of the examples.\<close>

lemma sample_Create:
  "map_option fst (Create sample sample_key [1, 2, 3] 0 (sample_uuid 0) sample_script (sample_state [])) = Some (Ok 5)"
  by code_simp

lemma sample_Update:
  "map_option (map_res (\<lambda>(i, kv, ok). (i, ok)) \<circ> fst)
     (Update sample sample_key [9] 2 0 (sample_uuid 0) sample_script (sample_state sample_history)) = Some (Ok (5, True))"
  by code_simp

lemma sample_Delete:
  "map_option (map_res (\<lambda>(i, kv, ok). (i, ok)) \<circ> fst)
     (Delete sample sample_key 2 (sample_uuid 0) sample_script (sample_state sample_history)) = Some (Ok (5, True))"
  by code_simp

end
