(* ===== verification/FDB_Sample_Read.thy ===== *)
theory FDB_Sample_Read
  imports FDB_Sample FDB_Lists
begin

text \<open>
  Examples of the read path: a database at a given version that holds a given history, and range reads
  by a client that is alone.
\<close>

definition sample_at :: "int64 \<Rightarrow> entry list \<Rightarrow> mem_db driver" where
  "sample_at n h = NewFDB \<lparr>md_kvs = layout_kvs sample h, md_version = n, md_up = True\<rparr>"

definition sample_update :: "bytes \<Rightarrow> bytes \<Rightarrow> nat \<Rightarrow> nat \<Rightarrow> nat \<Rightarrow> entry" where
  "sample_update key val create prv n =
     (new_revision (sample_stamp n),
      (snd (sample_record key val n))\<lparr>r_IsCreate := False, r_CreateRevision := new_revision (sample_stamp create),
        r_PrevRevision := new_revision (sample_stamp prv)\<rparr>)"

definition sample_reads :: "entry list" where
  "sample_reads =
     [sample_record [47, 97] [1] 2, sample_record [47, 98] [2, 2] 3, sample_update [47, 97] [4, 4] 2 2 6]"

definition sample_batches :: "mem_db attempt list list" where
  "sample_batches = [[sample_attempt 9 (NotCommitted (FdbError 1007)), sample_attempt 10 Committed]]"

lemma sample_holds:
  assumes "hist_wf h" "\<forall>e\<in>set h. entry_ok memory_lib e" "\<forall>e\<in>set h. rev_int (fst e) \<le> n" "0 < n"
    and "map_of (layout_kvs sample h) (f_compactRev sample) = None"
  shows "db_holds sample (d_db (sample_at n h)) h 0"
  using fdb_driver.represents_layout [OF sample_driver assms(1,2)] assms(3-5)
  by (simp add: db_holds_def watermark_def sample_lib(1) sample_at_def NewFDB_def memory_lib_def)

lemma sample_version: "db_version memory_lib (d_db (sample_at n h)) = n"
  by (simp add: sample_at_def NewFDB_def memory_lib_def)

lemma sample_appending: "appending sample (sample_attempt n c)"
  unfolding appending_def by (auto simp: sample_attempt_def intro!: exI [of _ "[]"])

lemma sample_batches_appending: "\<forall>script\<in>set sample_batches. \<forall>a\<in>set script. appending sample a"
  by (simp add: sample_batches_def sample_appending)

lemma sample_reads_holds: "db_holds sample (d_db (sample_at 7 sample_reads)) sample_reads 0"
proof (rule sample_holds)
  have "list_all (entry_ok memory_lib) sample_reads" "list_all (\<lambda>e. rev_int (fst e) \<le> 7) sample_reads" by code_simp+
  then show "\<forall>e\<in>set sample_reads. entry_ok memory_lib e" "\<forall>e\<in>set sample_reads. rev_int (fst e) \<le> 7"
    by (simp_all add: list_all_iff)
  show "hist_wf sample_reads" "map_of (layout_kvs sample sample_reads) (f_compactRev sample) = None" by code_simp+
qed simp

text \<open>The runs of the examples.\<close>

lemma sample_run:
  "map_option (map_res (map_prod id g) \<circ> fst) x = Some (Ok (n, v)) \<Longrightarrow> \<exists>y s'. x = Some (Ok (n, y), s') \<and> g y = v"
  by (auto simp: map_res_Ok_iff)

lemma sample_List:
  "map_option (map_res (map_prod id (map kv_Value)) \<circ> fst)
     (List sample [47] [47] 0 0 False sample_batches (sample_at 7 sample_reads)) = Some (Ok (7, [[4, 4], [2, 2]]))"
  by code_simp

lemma sample_Get:
  "map_option (map_res (map_prod id (map_option kv_Value)) \<circ> fst)
     (Get sample [47, 97] [] 3 False sample_batches (sample_at 7 sample_reads)) = Some (Ok (7, Some [1]))"
  by code_simp

lemma sample_Count:
  "map_option fst (Count sample [47] [47] 3 sample_batches id (sample_at 7 sample_reads)) = Some (Ok (7, 2))"
  by code_simp

end
