(* ===== verification/FDB_Sample_Watch.thy ===== *)
theory FDB_Sample_Watch
  imports FDB_Watches FDB_Sample_Read
begin

text \<open>
  Examples of the poll loop, the count tracker and watches, on the database of the read examples.
\<close>

definition sample_polling :: "int64 \<Rightarrow> mem_db driver" where
  "sample_polling c = poll_start c (sample_at 7 sample_reads)"

definition sample_alone :: "mem_db attempt list" where
  "sample_alone = [sample_attempt 10 Committed]"

lemma sample_alone_appending:
  "\<forall>a\<in>set sample_alone. appending sample a" "\<forall>script\<in>set [sample_alone]. \<forall>a\<in>set script. appending sample a"
  by (simp_all add: sample_alone_def sample_appending)

lemma sample_polling_simps:
  "d_db (sample_polling c) = d_db (sample_at 7 sample_reads)" "d_lastWatchRev (sample_polling c) = c"
  "db_version memory_lib (d_db (sample_polling c)) = 7" "db_holds sample (d_db (sample_polling c)) sample_reads 0"
  using sample_version sample_reads_holds by (simp_all add: sample_polling_def)

lemma sample_maxBatch: "0 < maxBatchSize sample_cfg"
  by code_simp

lemma sample_poll:
  "map_option (map_prod (map_res (map (\<lambda>ev. (kv_ModRevision (ev_KV ev), map_option kv_Value (ev_PrevKV ev))))) d_lastWatchRev)
     (poll_iteration sample sample_alone sample_alone Floor (sample_polling 3)) = Some (Ok [(6, Some [1])], 6)"
  by code_simp

lemma sample_poll_run:
  "\<exists>ev s'. driver_run sample (sample_polling 3) [[ev]] s' \<and> d_lastWatchRev s' = 6 \<and> kv_ModRevision (ev_KV ev) = 6 \<and>
     Some [1] = map_option kv_Value (ev_PrevKV ev)"
proof -
  from sample_poll obtain ev s' where ev: "poll_iteration sample sample_alone sample_alone Floor (sample_polling 3) = Some (Ok [ev], s')"
      "kv_ModRevision (ev_KV ev) = 6" "Some [1] = map_option kv_Value (ev_PrevKV ev)" "d_lastWatchRev s' = 6"
    by (auto simp: map_res_Ok_iff)
  have "driver_step sample (sample_polling 3) (case Ok [ev] of Ok evs \<Rightarrow> evs | _ \<Rightarrow> []) s'"
    by (rule driver_step.poll [OF _ sample_alone_appending(1,1) ev(1)]) (simp add: sample_polling_simps revision_ok_def)
  from run_step [OF run_start this] ev show ?thesis by auto
qed

text \<open>A count seeds the tracker; the next one is answered from it.\<close>

lemma sample_seed:
  "map_option (map_prod id (\<lambda>s. (d_counts s [47], d_lastWatchRev s, d_pollActive s)))
     (Count sample [47] [47] 0 [sample_alone] id (sample_polling 7)) = Some (Ok (7, 2), Some \<lparr>ce_count = 2, ce_seedRev = 7\<rparr>, 7, True)"
  by code_simp

lemma sample_count_run:
  "\<exists>s'. driver_run sample (sample_polling 7) [] s' \<and> d_lastWatchRev s' = 7 \<and> d_counts s' [47] = Some \<lparr>ce_count = 2, ce_seedRev = 7\<rparr> \<and>
     Count sample [47] [47] 0 [] id s' = Some (Ok (7, 2), s')"
proof -
  from sample_seed obtain s' where s': "Count sample [47] [47] 0 [sample_alone] id (sample_polling 7) = Some (Ok (7, 2), s')"
      "d_counts s' [47] = Some \<lparr>ce_count = 2, ce_seedRev = 7\<rparr>" "d_lastWatchRev s' = 7" "d_pollActive s'" by auto
  have "driver_step sample (sample_polling 7) [] s'" by (rule driver_step.count [OF sample_alone_appending(2) s'(1)])
  from run_step [OF run_start this] s' show ?thesis by (auto simp: Count_def countTracker_get_def)
qed

lemma sample_Watch:
  "map_option (map_res (\<lambda>wr. map (map (\<lambda>ev. kv_ModRevision (ev_KV ev))) (wr_Events wr)) \<circ> fst)
     (Watch sample [47] 6 [sample_alone] [] (sample_polling 6)) = Some (Ok [[6]])"
  by code_simp

lemma sample_ReadWAL:
  "map_option (map_res (map (\<lambda>r. r_Value (rr_Record r))) \<circ> fst) (ReadWAL sample [sample_alone] (sample_at 7 sample_reads))
     = Some (Ok [[1], [2, 2], [4, 4]])"
  by code_simp

end
