(* ===== verification/FDB_Sample_Compact.thy ===== *)
theory FDB_Sample_Compact
  imports FDB_Compaction FDB_Sample_Watch
begin

text \<open>
  An example of a compaction, of a history in which a key has been updated, to a revision before the update, and two reads afterwards: a list, and the key at the
  revision compacted to.
\<close>

definition compact_then_read :: "((int64 \<times> KeyValue list) res \<times> (int64 \<times> KeyValue option) res) option" where
  "compact_then_read =
     (case Compact sample 3 [sample_alone] (sample_at 7 sample_reads) of
        Some (Ok v, s) \<Rightarrow>
          (case (List sample [47] [47] 0 0 False [sample_alone] s, Get sample [47, 97] [] 3 False [sample_alone] s) of
             (Some (l, s1), Some (g, s2)) \<Rightarrow> Some (l, g)
           | _ \<Rightarrow> None)
      | _ \<Rightarrow> None)"

lemma sample_compact_read:
  "map_option (map_prod (map_res (map_prod id (map kv_Value))) (map_res (map_prod (\<lambda>_. ()) (map_option kv_Value)))) compact_then_read
    = Some (Ok (10, [[4, 4], [2, 2]]), Ok ((), None))"
  by code_simp

lemma sample_Compact_List:
  "\<exists>v s1 kvs s2. Compact sample 3 [sample_alone] (sample_at 7 sample_reads) = Some (Ok v, s1) \<and>
    List sample [47] [47] 0 0 False [sample_alone] s1 = Some (Ok (10, kvs), s2) \<and> map kv_Value kvs = [[4, 4], [2, 2]]"
  using sample_compact_read by (auto simp: compact_then_read_def map_res_Ok_iff split: option.splits res.splits)

lemma sample_superseded: "sample_record [47, 97] [1] 2 \<in> set sample_reads" "\<not> live sample_reads (sample_record [47, 97] [1] 2)"
    "rev_int (fst (sample_record [47, 97] [1] 2)) \<le> 3"
  by code_simp+

end
