(* ===== verification/FDB_Defects.thy ===== *)
theory FDB_Defects
  imports FDB_Sample_Compact
begin

text \<open>
  Behaviour of the code that is not what it means to do, shown on the model: on the example database, or in general.
\<close>











text \<open>
  C33: The chunks of a key are cleared by the prefix of its encoding (\<^verbatim>\<open>Clear\<close> of \<^verbatim>\<open>fdb_subspace_by_key_data.go\<close>), which is also the prefix of the keys that continue it
  with a zero byte: their current values go with it.
\<close>

lemma Clear_reaches_nul:
  assumes "fdb_driver L cfg dir f" "ByKeyCurrent_Clear f key t = Ok t'" "elem_ok (TInt off)"
  shows "tr_view L t' (f_byKeyCurrent f @ tuple_Pack L [TString (key @ 0 # rest), TInt off]) = None"
proof -
  have "prefix (key @ [0]) (key @ 0 # rest)" by simp
  with fdb_tuples.pack_string_nul [of L "[TInt off]" key "key @ 0 # rest"] assms(1,3)
  have "prefix (tuple_Pack L [TString key]) (tuple_Pack L [TString (key @ 0 # rest), TInt off])"
    by (auto simp: fdb_driver_def fdb_client_def)
  with fdb_driver.ByKeyCurrent_Clear_effect [OF assms(1), of key t] assms(2) show ?thesis by auto
qed

lemma Clear_reaches_nul_witness:
  "\<exists>t t'. ByKeyCurrent_Clear sample [97] t = Ok t' \<and>
     tr_view memory_lib t' (f_byKeyCurrent sample @ tuple_Pack memory_lib [TString [97, 0, 98], TInt 0]) = None"
proof -
  from fdb_driver.ByKeyCurrent_Clear_effect [OF sample_driver, of "[97]"] obtain t t' where "ByKeyCurrent_Clear sample [97] t = Ok t'" by blast
  with Clear_reaches_nul [OF sample_driver this, of 0 "[98]"] show ?thesis by auto
qed




end
