(* ===== verification/FDB_Leases.thy ===== *)
theory FDB_Leases
  imports FDB_TTL FDB_Calls
begin

text \<open>
  The two goroutines of \<^verbatim>\<open>ttl\<close> (\<^verbatim>\<open>src/pkg/drivers/fdb/fdb_ttl.go\<close>) as steps on the map of leases, the keys waiting in the queue and the lease
  being deleted: no nil pointer is dereferenced, every lease in the map stays scheduled, and only the revision whose lease expired is deleted.
\<close>

section \<open>Steps\<close>

text \<open>
  Of the queue, a library, only this is assumed: a key added with a delay is handed out once, not before the delay is over; of two
  waiting additions of a key the later may be dropped. \<open>ts_waiting\<close> holds the additions with the time they are due, \<open>ts_hand\<close> the lease for which
  \<^verbatim>\<open>Delete\<close> is running.
\<close>

record ttl_state =
  ts_store :: ttl_store
  ts_waiting :: "(bytes \<times> int) set"
  ts_hand :: "ttlEventKV option"
  ts_now :: int

definition due :: "int \<Rightarrow> ttl_actions \<Rightarrow> (bytes \<times> int) set" where
  "due now acts = (\<lambda>(key, delay). (key, now + delay)) ` set acts"

inductive ttl_step :: "ttl_state \<Rightarrow> ttl_state \<Rightarrow> bool" where
  ttl_time: "ts_now s \<le> t \<Longrightarrow> ttl_step s (s\<lparr>ts_now := t\<rparr>)"
| ttl_coalesce: "(key, t) \<in> ts_waiting s \<Longrightarrow> (key, t') \<in> ts_waiting s \<Longrightarrow> t < t' \<Longrightarrow>
    ttl_step s (s\<lparr>ts_waiting := ts_waiting s - {(key, t')}\<rparr>)"
| ttl_received: "ttl_event (ts_now s) ev (ts_store s) = (store, acts) \<Longrightarrow>
    ttl_step s (s\<lparr>ts_store := store, ts_waiting := ts_waiting s \<union> due (ts_now s) acts\<rparr>)"
| ttl_not_found: "ts_hand s = None \<Longrightarrow> (key, t) \<in> ts_waiting s \<Longrightarrow> t \<le> ts_now s \<Longrightarrow>
    handleTTLEvents (ts_now s) (ts_store s) key = NotFound \<Longrightarrow> ttl_step s (s\<lparr>ts_waiting := ts_waiting s - {(key, t)}\<rparr>)"
| ttl_requeue: "ts_hand s = None \<Longrightarrow> (key, t) \<in> ts_waiting s \<Longrightarrow> t \<le> ts_now s \<Longrightarrow>
    handleTTLEvents (ts_now s) (ts_store s) key = Requeued acts \<Longrightarrow>
    ttl_step s (s\<lparr>ts_waiting := ts_waiting s - {(key, t)} \<union> due (ts_now s) acts\<rparr>)"
| ttl_expire: "ts_hand s = None \<Longrightarrow> (key, t) \<in> ts_waiting s \<Longrightarrow> t \<le> ts_now s \<Longrightarrow>
    handleTTLEvents (ts_now s) (ts_store s) key = Expired eventKV \<Longrightarrow>
    ttl_step s (s\<lparr>ts_waiting := ts_waiting s - {(key, t)}, ts_hand := Some eventKV\<rparr>)"
| ttl_deleted: "ts_hand s = Some eventKV \<Longrightarrow> deleteTTLEvent_finish (ts_now s) eventKV err (ts_store s) = Ok (store, acts) \<Longrightarrow>
    ttl_step s (s\<lparr>ts_store := store, ts_waiting := ts_waiting s \<union> due (ts_now s) acts, ts_hand := None\<rparr>)"

definition ttl_init :: "int \<Rightarrow> ttl_state" where
  "ttl_init now = \<lparr>ts_store = Map.empty, ts_waiting = {}, ts_hand = None, ts_now = now\<rparr>"

section \<open>Invariants\<close>

text \<open>The lease of a key is under its key; the lease in hand has expired and its key is in the map.\<close>

definition ttl_wf :: "ttl_state \<Rightarrow> bool" where
  "ttl_wf s \<longleftrightarrow>
     (\<forall>key l. ts_store s key = Some l \<longrightarrow> tk_key l = key) \<and>
     (\<forall>l. ts_hand s = Some l \<longrightarrow> tk_expiredAt l \<le> ts_now s \<and> ts_store s (tk_key l) \<noteq> None)"

text \<open>A lease in the map is in hand, or waits until it expires, or at most for the interval of a retry.\<close>

definition scheduled :: "ttl_state \<Rightarrow> bytes \<Rightarrow> ttlEventKV \<Rightarrow> bool" where
  "scheduled s key l \<longleftrightarrow>
     map_option tk_key (ts_hand s) = Some key \<or>
     (\<exists>t. (key, t) \<in> ts_waiting s \<and> t \<le> max (tk_expiredAt l) (ts_now s + retryInterval))"

definition ttl_inv :: "ttl_state \<Rightarrow> bool" where
  "ttl_inv s \<longleftrightarrow> ttl_wf s \<and> (\<forall>key l. ts_store s key = Some l \<longrightarrow> scheduled s key l)"

lemma scheduled_mono:
  assumes "scheduled s key l" "ts_now s \<le> ts_now s'" "map_option tk_key (ts_hand s) = Some key \<longrightarrow> map_option tk_key (ts_hand s') = Some key"
    and "\<And>t. (key, t) \<in> ts_waiting s \<Longrightarrow> \<exists>t'\<le>t. (key, t') \<in> ts_waiting s'"
  shows "scheduled s' key l"
  using assms(1) unfolding scheduled_def
proof (elim disjE exE conjE)
  fix t assume t: "(key, t) \<in> ts_waiting s" "t \<le> max (tk_expiredAt l) (ts_now s + retryInterval)"
  from assms(4) [OF t(1)] obtain t' where "t' \<le> t" "(key, t') \<in> ts_waiting s'" by blast
  moreover have "t' \<le> max (tk_expiredAt l) (ts_now s' + retryInterval)" using t(2) \<open>t' \<le> t\<close> assms(2) by linarith
  ultimately show "map_option tk_key (ts_hand s') = Some key \<or>
      (\<exists>t. (key, t) \<in> ts_waiting s' \<and> t \<le> max (tk_expiredAt l) (ts_now s' + retryInterval))" by blast
qed (use assms(3) in blast)

lemma ttl_event_cases:
  assumes "ttl_event now ev store = (store', acts)"
  obtains "store' = store" "acts = []"
  | l where "store' = store(tk_key l \<mapsto> l)" "acts = [(tk_key l, tk_expiredAt l - now)]"
proof -
  let ?l = "\<lparr>tk_key = kv_Key (ev_KV ev), tk_modRevision = kv_ModRevision (ev_KV ev),
    tk_expiredAt = now + wrap64 (kv_Lease (ev_KV ev) * 1000000000)\<rparr>"
  have "store' = store \<and> acts = [] \<or> store' = store(tk_key ?l \<mapsto> ?l) \<and> acts = [(tk_key ?l, tk_expiredAt ?l - now)]"
    using assms by (auto simp: ttl_event_def storeTTLEventKV_def Let_def split: if_splits option.splits)
  with that show thesis by blast
qed

lemma finish_cases:
  assumes "ttl_wf s" "ts_hand s = Some l"
  shows "deleteTTLEvent_finish (ts_now s) l err (ts_store s) =
    Ok (if err = None then ((ts_store s)(tk_key l := None), []) else (ts_store s, [(tk_key l, retryInterval)]))"
  using assms by (auto simp: ttl_wf_def deleteTTLEvent_finish_def Let_def)

lemma ttl_inv_scheduled:
  assumes "ttl_inv s" "ts_store s key = Some l" "ts_now s \<le> ts_now s'"
    and "map_option tk_key (ts_hand s) = Some key \<longrightarrow> map_option tk_key (ts_hand s') = Some key"
    and "\<And>t. (key, t) \<in> ts_waiting s \<Longrightarrow> \<exists>t'\<le>t. (key, t') \<in> ts_waiting s'"
  shows "scheduled s' key l"
  by (rule scheduled_mono [OF _ assms(3-5)]) (use assms(1,2) in \<open>simp_all add: ttl_inv_def\<close>)

lemma ttl_invI:
  assumes "ttl_inv s" "ts_store s' = ts_store s" "\<forall>l. ts_hand s' = Some l \<longrightarrow> tk_expiredAt l \<le> ts_now s' \<and> ts_store s (tk_key l) \<noteq> None"
    and "\<And>key l. ts_store s key = Some l \<Longrightarrow> scheduled s' key l"
  shows "ttl_inv s'"
  using assms by (simp add: ttl_inv_def ttl_wf_def)

lemma ttl_inv_hand: "ttl_inv s \<Longrightarrow> ts_hand s = Some l \<Longrightarrow> tk_expiredAt l \<le> ts_now s \<and> ts_store s (tk_key l) \<noteq> None"
  by (simp add: ttl_inv_def ttl_wf_def)

text \<open>A key handed out, and what becomes of it.\<close>

lemma ttl_handled_inv:
  assumes "ttl_inv s" "ts_hand s = None"
    and "(w, hand) = (case handleTTLEvents (ts_now s) (ts_store s) key of
      NotFound \<Rightarrow> ({}, None) | Requeued acts \<Rightarrow> (due (ts_now s) acts, None) | Expired l \<Rightarrow> ({}, Some l))"
  shows "ttl_inv (s\<lparr>ts_waiting := ts_waiting s - {(key, t)} \<union> w, ts_hand := hand\<rparr>)"
proof (rule ttl_invI [OF assms(1)])
  let ?s = "s\<lparr>ts_waiting := ts_waiting s - {(key, t)} \<union> w, ts_hand := hand\<rparr>"
  have key: "tk_key l = key" if "ts_store s key = Some l" for l using assms(1) that by (simp add: ttl_inv_def ttl_wf_def)
  then show "\<forall>l. ts_hand ?s = Some l \<longrightarrow> tk_expiredAt l \<le> ts_now ?s \<and> ts_store s (tk_key l) \<noteq> None"
    using assms(3) by (auto simp: handleTTLEvents_def loadTTLEventKV_def split: option.splits if_splits)
  fix k l assume l: "ts_store s k = Some l"
  show "scheduled ?s k l"
  proof (cases "k = key")
    case True
    with l assms(3) key show ?thesis
      by (auto simp: scheduled_def due_def handleTTLEvents_def loadTTLEventKV_def split: if_splits)
  next
    case False
    then show ?thesis by (intro ttl_inv_scheduled [OF assms(1) l]) (auto simp: assms(2))
  qed
qed simp

lemma ttl_received_inv:
  assumes "ttl_inv s" "ttl_event (ts_now s) ev (ts_store s) = (store, acts)"
  shows "ttl_inv (s\<lparr>ts_store := store, ts_waiting := ts_waiting s \<union> due (ts_now s) acts\<rparr>)" (is "ttl_inv ?s")
  using assms(2)
proof (cases rule: ttl_event_cases)
  case 1
  with assms(1) show ?thesis by (simp add: due_def)
next
  case (2 l)
  have "scheduled ?s (tk_key l) l" using 2(2) by (auto simp: scheduled_def due_def)
  moreover have "scheduled ?s key k" if "ts_store s key = Some k" for key k
    by (rule ttl_inv_scheduled [OF assms(1) that]) auto
  ultimately show ?thesis using assms(1) 2(1) unfolding ttl_inv_def ttl_wf_def by auto
qed

lemma ttl_deleted_inv:
  assumes "ttl_inv s" "ts_hand s = Some l" "deleteTTLEvent_finish (ts_now s) l err (ts_store s) = Ok (store, acts)"
  shows "ttl_inv (s\<lparr>ts_store := store, ts_waiting := ts_waiting s \<union> due (ts_now s) acts, ts_hand := None\<rparr>)" (is "ttl_inv ?s")
proof -
  have f: "(store, acts) = (if err = None then ((ts_store s)(tk_key l := None), []) else (ts_store s, [(tk_key l, retryInterval)]))"
    using finish_cases [of s l err] assms by (simp add: ttl_inv_def)
  have "scheduled ?s k l'" if "store k = Some l'" for k l'
  proof (cases "k = tk_key l")
    case True
    with that f show ?thesis by (auto simp: scheduled_def due_def split: if_splits)
  next
    case False
    with that f have "ts_store s k = Some l'" by (auto split: if_splits)
    with False assms(2) show ?thesis by (intro ttl_inv_scheduled [OF assms(1)]) auto
  qed
  then show ?thesis using assms(1) f unfolding ttl_inv_def by (auto simp: ttl_wf_def split: if_splits)
qed

lemma ttl_step_inv:
  assumes "ttl_step s s'" "ttl_inv s"
  shows "ttl_inv s'"
  using assms(1)
proof cases
  case (ttl_time t)
  have "scheduled s' key l" if "ts_store s key = Some l" for key l
    by (rule ttl_inv_scheduled [OF assms(2) that]) (use ttl_time in auto)
  with ttl_inv_hand [OF assms(2)] ttl_time show ?thesis by (intro ttl_invI [OF assms(2)]) force+
next
  case (ttl_coalesce key t t')
  have "\<exists>t1\<le>t0. (k, t1) \<in> ts_waiting s'" if "(k, t0) \<in> ts_waiting s" for k t0
    using that ttl_coalesce by (intro exI [of _ "if (k, t0) = (key, t') then t else t0"]) auto
  then have "scheduled s' k l" if "ts_store s k = Some l" for k l
    by (intro ttl_inv_scheduled [OF assms(2) that]) (use ttl_coalesce(1) in auto)
  with ttl_inv_hand [OF assms(2)] ttl_coalesce(1) show ?thesis by (intro ttl_invI [OF assms(2)]) auto
next
  case (ttl_not_found key t)
  with ttl_handled_inv [OF assms(2), of "{}" None key t] show ?thesis by (cases s) simp
next
  case (ttl_requeue key t acts)
  with ttl_handled_inv [OF assms(2), of "due (ts_now s) acts" None key t] show ?thesis by (cases s) simp
next
  case (ttl_expire key t l)
  with ttl_handled_inv [OF assms(2), of "{}" "Some l" key t] show ?thesis by simp
qed (use assms(2) ttl_received_inv ttl_deleted_inv in auto)

lemma ttl_reachable:
  assumes "ttl_step\<^sup>*\<^sup>* (ttl_init now) s"
  shows "ttl_inv s"
  using assms
proof (induction rule: rtranclp_induct)
  case base
  then show ?case by (simp add: ttl_init_def ttl_inv_def ttl_wf_def)
qed (rule ttl_step_inv)

section \<open>An example\<close>

definition sample_lease :: ttlEventKV where
  "sample_lease = \<lparr>tk_key = [47, 97], tk_modRevision = 5, tk_expiredAt = 3000000000\<rparr>"

definition sample_leased :: ttl_state where
  "sample_leased = (ttl_init 1000000000)\<lparr>ts_store := [[47, 97] \<mapsto> sample_lease], ts_waiting := {([47, 97], 3000000000)}\<rparr>"

text \<open>A lease of two seconds arrives; three seconds later its key is being deleted.\<close>

lemma sample_leased_reachable: "ttl_step\<^sup>*\<^sup>* (ttl_init 1000000000) sample_leased"
proof -
  let ?ev = "\<lparr>ev_Create = True, ev_Delete = False, ev_KV = zeroKeyValue\<lparr>kv_Key := [47, 97], kv_ModRevision := 5, kv_Lease := 2\<rparr>, ev_PrevKV = None\<rparr>"
  have "ttl_event (ts_now (ttl_init 1000000000)) ?ev (ts_store (ttl_init 1000000000)) = ([[47, 97] \<mapsto> sample_lease], [([47, 97], 2000000000)])"
    by (simp add: ttl_event_def ttl_init_def storeTTLEventKV_def loadTTLEventKV_def sample_lease_def zeroKeyValue_def wrap64_def)
  from ttl_received [OF this] show ?thesis by (simp add: sample_leased_def due_def ttl_init_def)
qed

lemma sample_expired_reachable:
  "ttl_step\<^sup>*\<^sup>* (ttl_init 1000000000) (sample_leased\<lparr>ts_now := 4000000000, ts_waiting := {}, ts_hand := Some sample_lease\<rparr>)"
proof -
  let ?s = "sample_leased\<lparr>ts_now := 4000000000\<rparr>"
  have "ttl_step sample_leased ?s" by (rule ttl_time) (simp add: sample_leased_def ttl_init_def)
  moreover have "ttl_step ?s (?s\<lparr>ts_waiting := ts_waiting ?s - {([47, 97], 3000000000)}, ts_hand := Some sample_lease\<rparr>)"
    by (rule ttl_expire) (simp_all add: sample_leased_def ttl_init_def handleTTLEvents_def loadTTLEventKV_def sample_lease_def)
  ultimately show ?thesis using sample_leased_reachable by (simp add: sample_leased_def ttl_init_def)
qed

section \<open>Expiry\<close>

context fdb_driver
begin

lemma deleteTTLEvent_result:
  assumes "\<not> UseSequentialId cfg" "starts f (tk_key l) lo uuid script s h" "tk_modRevision l \<noteq> 0"
    and "deleteTTLEvent f now l uuid script meanwhile store s = Some (r, s')"
  shows "\<exists>h'. represents f (db_view L (d_db s')) h' \<and>
    (of_key (tk_key l) h' = of_key (tk_key l) h \<or>
     (\<exists>e x. live_entry h (tk_key l) = Some e \<and> rev_int (fst e) = tk_modRevision l \<and> r_IsDelete (snd x) \<and>
        of_key (tk_key l) h' = of_key (tk_key l) h @ [x]))"
proof -
  from assms(4) obtain res where "Delete f (tk_key l) (tk_modRevision l) uuid script s = Some (res, s')"
    by (auto simp: deleteTTLEvent_def split: option.splits res.splits)
  from Delete_result [OF assms(1,2) this] obtain h' a where h': "represents f (db_view L (d_db s')) h'"
      "of_key (tk_key l) h' = of_key (tk_key l) h @ (case a of None \<Rightarrow> [] | Some e \<Rightarrow> [e])"
      "case a of None \<Rightarrow> True | Some e \<Rightarrow> \<exists>u\<in>call_uuids uuid script. mvcc_delete (tk_key l) (tk_modRevision l) u h = Some (snd e)"
    unfolding call_result_def driver_simps(1) by blast
  show ?thesis
  proof (cases a)
    case None
    with h' show ?thesis by auto
  next
    case (Some x)
    with h'(3) obtain u where "mvcc_delete (tk_key l) (tk_modRevision l) u h = Some (snd x)" by auto
    then obtain e where "last_entry h (tk_key l) = Some e" "\<not> r_IsDelete (snd e)" "rev_int (fst e) = tk_modRevision l" "r_IsDelete (snd x)"
      using assms(3) by (auto simp: mvcc_delete_def split: option.splits if_splits dest!: sym [of _ "snd x"])
    moreover from this have "live_entry h (tk_key l) = Some e" by (simp add: live_entry_def)
    moreover have "of_key (tk_key l) h' = of_key (tk_key l) h @ [x]" using h'(2) Some by simp
    ultimately show ?thesis using h'(1) by blast
  qed
qed

end

end
