(* ===== verification/FDB_Logger.thy ===== *)
theory FDB_Logger
  imports FDB_Watch
begin

text \<open>
  The backend the driver hands to kine (\<^verbatim>\<open>src/pkg/drivers/fdb/fdb_logger.go\<close>): it logs each call of another backend, with its duration. That
  backend, an interface of kine, is a record of its methods on a state; each returns, or panics, and the deferred log line is written in
  either case. The format of a line is checked against its arguments.
\<close>

section \<open>Log lines\<close>

datatype log_level = Info | Warn | Trace

datatype log_arg =
    AStr bytes
  | AInt int64
  | ABool bool
  | AError "go_error option"
  | ADuration int64

type_synonym log_line = "log_level \<times> string \<times> log_arg list"

text \<open>The verbs of a format, without flags and widths, which no format of the logger has.\<close>

fun verbs :: "string \<Rightarrow> char list" where
  "verbs [] = []"
| "verbs [c] = []"
| "verbs (c # v # cs) = (if c \<noteq> CHR ''%'' then verbs (v # cs) else if v = CHR ''%'' then verbs cs else v # verbs cs)"

text \<open>A duration prints itself, so that it is fit for \<^verbatim>\<open>%s\<close>.\<close>

fun arg_fits :: "char \<Rightarrow> log_arg \<Rightarrow> bool" where
  "arg_fits v (AStr _) \<longleftrightarrow> v \<in> {CHR ''s'', CHR ''v''}"
| "arg_fits v (AInt _) \<longleftrightarrow> v \<in> {CHR ''d'', CHR ''v''}"
| "arg_fits v (ABool _) \<longleftrightarrow> v \<in> {CHR ''t'', CHR ''v''}"
| "arg_fits v (AError _) \<longleftrightarrow> v \<in> {CHR ''s'', CHR ''v''}"
| "arg_fits v (ADuration _) \<longleftrightarrow> v \<in> {CHR ''s'', CHR ''d'', CHR ''v''}"

definition well_formatted :: "log_line \<Rightarrow> bool" where
  "well_formatted line = (case line of (level, fmt, args) \<Rightarrow> list_all2 arg_fits (verbs fmt) args)"

section \<open>The logger\<close>

datatype 'r outcome = Returned 'r | Panicked go_panic

record 's backend =
  b_Start :: "'s \<Rightarrow> go_error option outcome \<times> 's"
  b_Get :: "bytes \<Rightarrow> bytes \<Rightarrow> int64 \<Rightarrow> int64 \<Rightarrow> bool \<Rightarrow> 's \<Rightarrow> (int64 \<times> KeyValue option \<times> go_error option) outcome \<times> 's"
  b_Create :: "bytes \<Rightarrow> bytes \<Rightarrow> int64 \<Rightarrow> 's \<Rightarrow> (int64 \<times> go_error option) outcome \<times> 's"
  b_Update :: "bytes \<Rightarrow> bytes \<Rightarrow> int64 \<Rightarrow> int64 \<Rightarrow> 's \<Rightarrow> (int64 \<times> KeyValue option \<times> bool \<times> go_error option) outcome \<times> 's"
  b_Delete :: "bytes \<Rightarrow> int64 \<Rightarrow> 's \<Rightarrow> (int64 \<times> KeyValue option \<times> bool \<times> go_error option) outcome \<times> 's"
  b_List :: "bytes \<Rightarrow> bytes \<Rightarrow> int64 \<Rightarrow> int64 \<Rightarrow> bool \<Rightarrow> 's \<Rightarrow> (int64 \<times> KeyValue list \<times> go_error option) outcome \<times> 's"
  b_Count :: "bytes \<Rightarrow> bytes \<Rightarrow> int64 \<Rightarrow> 's \<Rightarrow> (int64 \<times> int64 \<times> go_error option) outcome \<times> 's"
  b_Watch :: "bytes \<Rightarrow> int64 \<Rightarrow> 's \<Rightarrow> WatchResult outcome \<times> 's"
  b_DbSize :: "'s \<Rightarrow> (int64 \<times> go_error option) outcome \<times> 's"
  b_CurrentRevision :: "'s \<Rightarrow> (int64 \<times> go_error option) outcome \<times> 's"
  b_Compact :: "int64 \<Rightarrow> 's \<Rightarrow> (int64 \<times> go_error option) outcome \<times> 's"

record 's FdbLogger =
  fl_backend :: "'s backend"
  fl_threshold :: int64

text \<open>As \<^verbatim>\<open>NewFDB\<close> sets it up, with a threshold of 500 ms.\<close>

definition newFdbLogger :: "'s backend \<Rightarrow> 's FdbLogger" where
  "newFdbLogger backend = \<lparr>fl_backend = backend, fl_threshold = 500 * 1000000\<rparr>"

definition logMethod :: "'s FdbLogger \<Rightarrow> int64 \<Rightarrow> string \<Rightarrow> log_arg list \<Rightarrow> log_line" where
  "logMethod b dur fmt args = (if dur > fl_threshold b then Warn else Trace, fmt, args)"

text \<open>The named results as the deferred function sees them: zero values after a panic.\<close>

definition named :: "'r \<Rightarrow> 'r outcome \<Rightarrow> 'r" where
  "named zero r = (case r of Returned x \<Rightarrow> x | Panicked p \<Rightarrow> zero)"

text \<open>\<open>dur\<close> is the duration measured. A method gives the outcome, the state and the lines logged.\<close>

definition Logger_Start :: "'s FdbLogger \<Rightarrow> 's \<Rightarrow> (go_error option outcome \<times> 's) \<times> log_line list" where
  "Logger_Start b s =
     (let (r, s') = b_Start (fl_backend b) s
      in ((r, s'), (Info, ''Starting backend'', []) #
           (case r of Returned err \<Rightarrow> [(Info, ''Started backend. Err: %v'', [AError err])] | Panicked p \<Rightarrow> [])))"

definition Logger_Get ::
    "'s FdbLogger \<Rightarrow> int64 \<Rightarrow> bytes \<Rightarrow> bytes \<Rightarrow> int64 \<Rightarrow> int64 \<Rightarrow> bool \<Rightarrow> 's
     \<Rightarrow> ((int64 \<times> KeyValue option \<times> go_error option) outcome \<times> 's) \<times> log_line list" where
  "Logger_Get b dur key rangeEnd limit revision keysOnly s =
     (let (r, s') = b_Get (fl_backend b) key rangeEnd limit revision keysOnly s;
          (revRet, kvRet, errRet) = named (0, None, None) r
      in ((r, s'),
          [logMethod b 0 ''GET start %s, rangeEnd=%s rev=%d'' [AStr key, AStr rangeEnd, AInt revision, AInt 0],
           logMethod b dur ''GET end %s, rangeEnd=%s rev=%d => revRet=%d, kv=%v, size=%d, err=%v, duration=%s''
             [AStr key, AStr rangeEnd, AInt revision, AInt revRet, ABool (kvRet \<noteq> None),
              AInt (case kvRet of None \<Rightarrow> 0 | Some kv \<Rightarrow> int (length (kv_Value kv))), AError errRet, ADuration dur]]))"

definition Logger_Create ::
    "'s FdbLogger \<Rightarrow> int64 \<Rightarrow> bytes \<Rightarrow> bytes \<Rightarrow> int64 \<Rightarrow> 's \<Rightarrow> ((int64 \<times> go_error option) outcome \<times> 's) \<times> log_line list" where
  "Logger_Create b dur key val lease s =
     (let (r, s') = b_Create (fl_backend b) key val lease s;
          (revRet, errRet) = named (0, None) r
      in ((r, s'),
          [logMethod b 0 ''CREATE start %s, size=%d, lease=%d'' [AStr key, AInt (int (length val)), AInt lease],
           logMethod b dur ''CREATE end %s, size=%d, lease=%d => rev=%d, err=%v, duration=%s''
             [AStr key, AInt (int (length val)), AInt lease, AInt revRet, AError errRet, ADuration dur]]))"

definition Logger_Update ::
    "'s FdbLogger \<Rightarrow> int64 \<Rightarrow> bytes \<Rightarrow> bytes \<Rightarrow> int64 \<Rightarrow> int64 \<Rightarrow> 's
     \<Rightarrow> ((int64 \<times> KeyValue option \<times> bool \<times> go_error option) outcome \<times> 's) \<times> log_line list" where
  "Logger_Update b dur key val revision lease s =
     (let (r, s') = b_Update (fl_backend b) key val revision lease s;
          (revRet, kvRet, updateRet, errRet) = named (0, None, False, None) r
      in ((r, s'),
          [logMethod b 0 ''UPDATE start %s, value=%d, rev=%d, lease=%v'' [AStr key, AInt (int (length val)), AInt revision, AInt lease],
           logMethod b dur ''UPDATE end %s, value=%d, rev=%d, lease=%v => rev=%d, kv=%v, updated=%v, err=%v, duration=%s''
             [AStr key, AInt (int (length val)), AInt revision, AInt lease, AInt revRet, ABool (kvRet \<noteq> None), ABool updateRet, AError errRet,
              ADuration dur]]))"

definition Logger_Delete ::
    "'s FdbLogger \<Rightarrow> int64 \<Rightarrow> bytes \<Rightarrow> int64 \<Rightarrow> 's
     \<Rightarrow> ((int64 \<times> KeyValue option \<times> bool \<times> go_error option) outcome \<times> 's) \<times> log_line list" where
  "Logger_Delete b dur key revision s =
     (let (r, s') = b_Delete (fl_backend b) key revision s;
          (revRet, kvRet, deletedRet, errRet) = named (0, None, False, None) r
      in ((r, s'),
          [logMethod b 0 ''DELETE start %s, rev=%d'' [AStr key, AInt revision],
           logMethod b dur ''DELETE end %s, rev=%d => rev=%d, kv=%v, deleted=%v, err=%v, duration=%s''
             [AStr key, AInt revision, AInt revRet, ABool (kvRet \<noteq> None), ABool deletedRet, AError errRet, ADuration dur]]))"

definition Logger_List ::
    "'s FdbLogger \<Rightarrow> int64 \<Rightarrow> bytes \<Rightarrow> bytes \<Rightarrow> int64 \<Rightarrow> int64 \<Rightarrow> bool \<Rightarrow> 's
     \<Rightarrow> ((int64 \<times> KeyValue list \<times> go_error option) outcome \<times> 's) \<times> log_line list" where
  "Logger_List b dur pre startKey limit revision keysOnly s =
     (let (r, s') = b_List (fl_backend b) pre startKey limit revision keysOnly s;
          (revRet, kvRet, errRet) = named (0, [], None) r
      in ((r, s'),
          [logMethod b 0 ''LIST start %s, start=%s, limit=%d, rev=%d'' [AStr pre, AStr startKey, AInt limit, AInt revision],
           logMethod b dur ''LIST end %s, start=%s, limit=%d, rev=%d => rev=%d, kvs=%d, err=%v, duration=%s''
             [AStr pre, AStr startKey, AInt limit, AInt revision, AInt revRet, AInt (int (length kvRet)), AError errRet, ADuration dur]]))"

definition Logger_Count ::
    "'s FdbLogger \<Rightarrow> int64 \<Rightarrow> bytes \<Rightarrow> bytes \<Rightarrow> int64 \<Rightarrow> 's
     \<Rightarrow> ((int64 \<times> int64 \<times> go_error option) outcome \<times> 's) \<times> log_line list" where
  "Logger_Count b dur pre startKey revision s =
     (let (r, s') = b_Count (fl_backend b) pre startKey revision s;
          (revRet, count, err) = named (0, 0, None) r
      in ((r, s'),
          [logMethod b 0 ''COUNT start %s, start=%s, rev=%d'' [AStr pre, AStr startKey, AInt revision],
           logMethod b dur ''COUNT end %s, start=%s, rev=%d => rev=%d, count=%d, err=%v, duration=%s''
             [AStr pre, AStr startKey, AInt revision, AInt revRet, AInt count, AError err, ADuration dur]]))"

definition Logger_Watch ::
    "'s FdbLogger \<Rightarrow> int64 \<Rightarrow> bytes \<Rightarrow> int64 \<Rightarrow> 's \<Rightarrow> (WatchResult outcome \<times> 's) \<times> log_line list" where
  "Logger_Watch b dur pre revision s =
     (let (r, s') = b_Watch (fl_backend b) pre revision s;
          (current, compact) = named (0, 0) (map_outcome (\<lambda>res. (wr_CurrentRevision res, wr_CompactRevision res)) r)
      in ((r, s'),
          [logMethod b dur ''WATCH prefix=%s rev=%s => rev=%d, compactRev=%v, duration=%s''
             [AStr pre, AInt revision, AInt current, AInt compact, ADuration dur]]))"

definition Logger_DbSize :: "'s FdbLogger \<Rightarrow> 's \<Rightarrow> ((int64 \<times> go_error option) outcome \<times> 's) \<times> log_line list" where
  "Logger_DbSize b s = (b_DbSize (fl_backend b) s, [])"

definition Logger_CurrentRevision ::
    "'s FdbLogger \<Rightarrow> int64 \<Rightarrow> 's \<Rightarrow> ((int64 \<times> go_error option) outcome \<times> 's) \<times> log_line list" where
  "Logger_CurrentRevision b dur s =
     (let (r, s') = b_CurrentRevision (fl_backend b) s;
          (revRet, errRet) = named (0, None) r
      in ((r, s'), [logMethod b dur ''CURRENT_REV => revRet=%d, err=%v, duration=%s'' [AInt revRet, AError errRet, ADuration dur]]))"

definition Logger_Compact ::
    "'s FdbLogger \<Rightarrow> int64 \<Rightarrow> int64 \<Rightarrow> 's \<Rightarrow> ((int64 \<times> go_error option) outcome \<times> 's) \<times> log_line list" where
  "Logger_Compact b dur revision s =
     (let (r, s') = b_Compact (fl_backend b) revision s;
          (revRet, errRet) = named (0, None) r
      in ((r, s'),
          [logMethod b dur ''COMPACT rev=%d => rev=%d, err=%v, duration=%s'' [AInt revision, AInt revRet, AError errRet, ADuration dur]]))"

lemmas logger_defs = Logger_Start_def Logger_Get_def Logger_Create_def Logger_Update_def Logger_Delete_def Logger_List_def
  Logger_Count_def Logger_Watch_def Logger_DbSize_def Logger_CurrentRevision_def Logger_Compact_def

section \<open>What the logger does\<close>

text \<open>It passes every call on and its outcome back, panics included.\<close>

lemma logger_transparent:
  "fst (Logger_Start b s) = b_Start (fl_backend b) s"
  "fst (Logger_Get b dur key rangeEnd limit revision keysOnly s) = b_Get (fl_backend b) key rangeEnd limit revision keysOnly s"
  "fst (Logger_Create b dur key val lease s) = b_Create (fl_backend b) key val lease s"
  "fst (Logger_Update b dur key val revision lease s) = b_Update (fl_backend b) key val revision lease s"
  "fst (Logger_Delete b dur key revision s) = b_Delete (fl_backend b) key revision s"
  "fst (Logger_List b dur pre startKey limit revision keysOnly s) = b_List (fl_backend b) pre startKey limit revision keysOnly s"
  "fst (Logger_Count b dur pre startKey revision s) = b_Count (fl_backend b) pre startKey revision s"
  "fst (Logger_Watch b dur pre revision s) = b_Watch (fl_backend b) pre revision s"
  "fst (Logger_DbSize b s) = b_DbSize (fl_backend b) s"
  "fst (Logger_CurrentRevision b dur s) = b_CurrentRevision (fl_backend b) s"
  "fst (Logger_Compact b dur revision s) = b_Compact (fl_backend b) revision s"
  by (simp_all add: logger_defs split: prod.split)

lemma logMethod_formatted [simp]: "well_formatted (logMethod b dur fmt args) \<longleftrightarrow> list_all2 arg_fits (verbs fmt) args"
  by (simp add: well_formatted_def logMethod_def)

lemma logger_formatted:
  "list_all well_formatted (snd (Logger_Start b s))"
  "list_all well_formatted (snd (Logger_Create b dur key val lease s))"
  "list_all well_formatted (snd (Logger_Update b dur key val revision lease s))"
  "list_all well_formatted (snd (Logger_Delete b dur key revision s))"
  "list_all well_formatted (snd (Logger_List b dur pre startKey limit revision keysOnly s))"
  "list_all well_formatted (snd (Logger_Count b dur pre startKey revision s))"
  "list_all well_formatted (snd (Logger_DbSize b s))"
  "list_all well_formatted (snd (Logger_CurrentRevision b dur s))"
  "list_all well_formatted (snd (Logger_Compact b dur revision s))"
  by (simp_all add: logger_defs well_formatted_def [of "(Info, _)"] split: prod.split outcome.split)

lemma logger_unformatted:
  "map well_formatted (snd (Logger_Get b dur key rangeEnd limit revision keysOnly s)) = [False, True]"
  "map well_formatted (snd (Logger_Watch b dur pre revision s)) = [False]"
  by (simp_all add: logger_defs split: prod.split)

end
