(* ===== verification/FDB_Command.thy ===== *)
theory FDB_Command
  imports Main
begin

text \<open>
  The command (\<^verbatim>\<open>src/cmd/kube-foundationdb/main.go\<close>): the arguments handed to kine's application. Running that is a library call.
\<close>

definition setFDBEndpointIfNotConfigured :: "string list \<Rightarrow> string list" where
  "setFDBEndpointIfNotConfigured args =
     (if ''--endpoint'' \<in> set args then args else args @ [''--endpoint'', ''fdb://''])"

text \<open>The arguments given come first, there is an endpoint, and a second call adds nothing.\<close>

lemma setFDBEndpoint_configured:
  "take (length args) (setFDBEndpointIfNotConfigured args) = args"
  "''--endpoint'' \<in> set (setFDBEndpointIfNotConfigured args)"
  "setFDBEndpointIfNotConfigured (setFDBEndpointIfNotConfigured args) = setFDBEndpointIfNotConfigured args"
  by (simp_all add: setFDBEndpointIfNotConfigured_def)

text \<open>An endpoint given in the form with an equals sign is not recognised: the default is appended after it.\<close>

lemma endpoint_overridden:
  "setFDBEndpointIfNotConfigured [''kube-foundationdb'', ''--endpoint=fdb://a'']
    = [''kube-foundationdb'', ''--endpoint=fdb://a'', ''--endpoint'', ''fdb://'']"
  by (simp add: setFDBEndpointIfNotConfigured_def)

end
