(* ===== verification/Spec2Isabelle.thy ===== *)
theory Spec2Isabelle
  imports FDB_Defects FDB_Leases FDB_Logger FDB_Command
begin

text \<open>
  A storage backend for kine on FoundationDB (\<^verbatim>\<open>src/pkg/drivers/fdb\<close>), which gives Kubernetes API servers an etcd whose data is in
  FoundationDB. This theory holds the properties, but for those of \<open>FDB_Defects\<close>; the others hold the model and its lemmas.

  \<^bold>\<open>The program.\<close> Each write of a key appends one record under a new revision, the version at which FoundationDB commits it. A record is kept in
  a log ordered by revision, in an index ordered by key and revision, and, while it is the newest of its key, its value also by key alone.
  Writes are transactions that read the newest record of a key and append the next; \<^verbatim>\<open>transact\<close> retries them, and a UUID in the record tells a
  retry that an earlier attempt had been committed. Reads walk the index or the log in ranges that are split into batches, one transaction each. A poll loop reads the
  log behind a cursor and broadcasts the events to the watches; a watch reads what precedes its subscription itself. A tracker keeps the number of keys
  under the prefixes that were counted. Compaction removes superseded records from log and index, and a pair of goroutines deletes keys when their leases expire.

  \<^bold>\<open>The model\<close>, in the order of the code; a definition has the name of the function it models, a method that of its type in front.
  \<^item> \<open>FDB_Prelude\<close>: results (\<open>Ok\<close>, \<open>Err\<close>, \<open>Panic\<close>), bytes, \<^verbatim>\<open>int64\<close> with its wrap-around, key order. \<open>FDB_Versionstamp\<close>: \<^verbatim>\<open>util.go\<close>.
  \<^item> \<open>FDB_Client\<close>: the FoundationDB bindings, a library, as the record \<open>fdb_lib\<close> of its operations. The locales \<open>fdb_tuples\<close> (tuple encoding: order, prefixes,
    round trip) and \<open>fdb_client\<close> (what a transaction sees, sets, clears and commits, and that a failed read yields an error) state the documented behaviour relied on. They are
    interpreted in \<open>FDB_Memory\<close> by a client in memory, with the tuple encoding written out.
  \<^item> \<open>FDB_Subspaces\<close>: \<^verbatim>\<open>fdb_subspace_*.go\<close>, \<^verbatim>\<open>fdb_config.go\<close>. \<open>FDB_Transact\<close>: \<^verbatim>\<open>transact\<close> and \<^verbatim>\<open>retryable\<close> of \<^verbatim>\<open>fdb_util.go\<close>.
    \<open>FDB_Driver\<close>: the fields of \<^verbatim>\<open>FDB\<close> that change, events, \<^verbatim>\<open>fdb_count.go\<close>. \<open>FDB_Range\<close>: \<^verbatim>\<open>processRange\<close> and \<^verbatim>\<open>processBatch\<close>.
  \<^item> \<open>FDB_Write\<close>: \<^verbatim>\<open>fdb_write.go\<close>. \<open>FDB_Read\<close>: \<^verbatim>\<open>fdb_read.go\<close>. \<open>FDB_Watch\<close>: \<^verbatim>\<open>fdb_watch.go\<close>, \<^verbatim>\<open>fdb_wal.go\<close>.
    \<open>FDB_Compact\<close>: \<^verbatim>\<open>fdb_compact.go\<close>. \<open>FDB_TTL\<close>: \<^verbatim>\<open>fdb_ttl.go\<close>, and \<open>FDB_Leases\<close> its goroutines as steps. \<open>FDB_Start\<close>: \<^verbatim>\<open>fdb.go\<close>.
    \<open>FDB_Logger\<close>: \<^verbatim>\<open>fdb_logger.go\<close>. \<open>FDB_Command\<close>: \<^verbatim>\<open>main.go\<close>.

  \<^bold>\<open>State, time and other clients.\<close> A call maps the driver's state (\<open>driver\<close>, with the database in \<open>d_db\<close>) to a result and a new state. The outside of a call is
  a script, one \<open>attempt\<close> for each try of a transaction: what other clients do to the database before it, the stamp of its commit, whether the commit
  succeeds, fails, or succeeds unknown to the client, what \<^verbatim>\<open>OnError\<close> answers, its UUID, after which records the time for a batch is up, and the conflicting
  keys. A range read has one script per batch. The result is \<open>None\<close> when the script ends before the call; C23 shows that a transaction returns
  as soon as the error of an attempt is one that is not retried. The loops of the batches recur on the iterator, which is finite.

  \<^bold>\<open>The specification\<close> of the store is a history: the list of all entries (revision and record) in order. \<open>represents\<close> (\<open>FDB_Store\<close>) relates a database to
  a history: log, index and current values are exactly those of its entries. \<open>mvcc_create\<close>, \<open>mvcc_update\<close> and \<open>mvcc_delete\<close> (\<open>FDB_MVCC\<close>) say which record a write appends to
  it. \<open>db_holds\<close> adds the mark of the last compaction and that no revision is ahead of the database's version; \<open>appending\<close> that the other clients only append; \<open>extends V h H\<close>
  that \<open>H\<close> is \<open>h\<close> with entries after version \<open>V\<close>.

  \<^bold>\<open>The lemmas.\<close>
  \<^item> \<open>FDB_Layout\<close>, \<open>FDB_Store\<close>, \<open>FDB_MVCC\<close>: the bytes of records, what is read back from them, and that an append takes a database that represents \<open>h\<close> to one
    that represents \<open>h\<close> with the entry, in the locale \<open>fdb_driver\<close> of an opened driver.
  \<^item> \<open>FDB_Retry\<close>, \<open>FDB_Writers\<close>, \<open>FDB_Calls\<close>, \<open>FDB_Progress\<close>: retries, once, in the locale \<open>mvcc_writer\<close>, of which the three writes are instances;
    C1 to C3, C18 to C23. There the other clients leave the key alone during the call.
  \<^item> \<open>FDB_Batches\<close>: what every attempt keeps holds in the end. \<open>FDB_Scan\<close>, \<open>FDB_Snapshot\<close>, \<open>FDB_Values\<close>, \<open>FDB_List\<close>, \<open>FDB_Lists\<close>: the walk of the index in batches gives the
    newest entries of one snapshot, for any collector that meets \<open>inner_collector\<close> (the list and the count), and the values joined to them are theirs; C4, C10, C11.
  \<^item> \<open>FDB_Log\<close>, \<open>FDB_Events\<close>, \<open>FDB_Poll\<close>, \<open>FDB_Watches\<close>: the walk of the log for any reader that meets \<open>log_reader\<close> (watches, poll loop, log reader); C5, C7, C14.
  \<^item> \<open>FDB_Counts\<close>, \<open>FDB_Runs\<close>: runs of the poll loop and of counts as steps; C8, C9, C12.
  \<^item> \<open>FDB_Removal\<close>, \<open>FDB_Compaction\<close>: removing entries from a history and from the database that represents it, beside writers; C6, C13. \<open>FDB_Leases\<close>: C15 to C17.
  \<^item> \<open>FDB_Sample\<close>, \<open>FDB_Sample_Read\<close>, \<open>FDB_Sample_Watch\<close>, \<open>FDB_Sample_Compact\<close>: runs of the model on the client in memory, on which the hypotheses of the properties hold.
    \<open>FDB_Defects\<close>: behaviour the code does not intend, shown on the model; C28 to C34.

  \<^bold>\<open>Limits of the statements.\<close> The properties are about the mode in which revisions are commit versions (\<^verbatim>\<open>UseSequentialId\<close> off; the other mode is modelled). They assume that no
  compaction runs beside a read, a write or a watch, and for C8 that the poll loop does not run between the scan of a count and its seed, without which it is false (\<open>Count_seed_race\<close>).

  \<^bold>\<open>Not modelled.\<close> Channels, goroutines and kine's broadcaster: the batches delivered to a watch are an argument, the steps of the loops are interleaved
  explicitly. The delaying queue of the leases, of which \<open>ttl_step\<close> states what is relied on. Opening the database and the directory layer, whose answers are arguments of
  \<^verbatim>\<open>Start\<close>; closing it. Registering a FoundationDB watch, which has no effect on data. \<^verbatim>\<open>util_unsafe.go\<close>, a link to an option setter of the bindings. \<^verbatim>\<open>fdb_log_util.go\<close>, which
  copies trace files of the client to the log. The flags of \<^verbatim>\<open>fdb_config.go\<close> and kine's application, which the command runs. Trace and warning lines outside the logging backend.
\<close>

section \<open>Writes\<close>







text \<open>
  C18: Progress of \<^verbatim>\<open>Create\<close>. If the first attempt reads a history in which the key is absent or deleted, and the
  cluster answers and commits, the call returns the revision of the commit, the history grows by
  the entry and the poll loop is woken.
\<close>

theorem Create_succeeds:
  assumes "fdb_driver L cfg dir f" "\<not> UseSequentialId cfg" "input_ok key val lease" "writable f key val"
    and "commits f a (d_db s) h" "mvcc_create f key val lease (at_uuid a) h = Some r" "unused {uuid} h"
  shows "\<exists>s'. Create f key val lease uuid (a # as) s = Some (Ok (rev_int (new_revision (at_stamp a))), s') \<and>
    wrote f s s' (h @ [(new_revision (at_stamp a), r)])"
  by (rule fdb_driver.Create_commits [OF assms])

theorem Create_succeeds_witness:
  "\<exists>s' r. Create sample sample_key [1, 2, 3] 0 (sample_uuid 0) [sample_attempt 5 Committed] (sample_state [])
      = Some (Ok (rev_int (new_revision (sample_stamp 5))), s') \<and>
    wrote sample (sample_state []) s' [(new_revision (sample_stamp 5), r)]"
proof -
  have "fresh_stamp [] (sample_stamp 5)" by code_simp
  then have "commits sample (sample_attempt 5 Committed) (d_db (sample_state [])) []"
    by (intro sample_commits) (simp_all add: hist_wf_def hist_sorted_def)
  from Create_succeeds [OF sample_driver sample_lib(2) _ sample_writable(1) this, of 0 _ "sample_uuid 0" "[]"] show ?thesis
    by (auto simp: input_ok_def maxRecordSize_def sample_key_def str_def unused_def mvcc_create_def last_entry_def Let_def
        sample_attempt_def)
qed

text \<open>C19: Progress of \<^verbatim>\<open>Update\<close>: an attempt that finds the revision given and commits ends the call, with the new entry.\<close>

theorem Update_succeeds:
  assumes "fdb_driver L cfg dir f" "\<not> UseSequentialId cfg" "input_ok key val lease" "writable f key val"
    and "commits f a (d_db s) h" "mvcc_update key val revision lease (at_uuid a) h = Some r"
  shows "\<exists>s'. Update f key val revision lease uuid (a # as) s
      = Some (Ok (rev_int (new_revision (at_stamp a)), Some (entry_kv f (new_revision (at_stamp a), r)), True), s') \<and>
    wrote f s s' (h @ [(new_revision (at_stamp a), r)])"
  by (rule fdb_driver.Update_commits [OF assms])

theorem Update_succeeds_witness:
  "\<exists>s' r kv. Update sample sample_key [9] 2 0 (sample_uuid 0) [sample_attempt 5 Committed] (sample_state sample_history)
      = Some (Ok (rev_int (new_revision (sample_stamp 5)), Some kv, True), s') \<and>
    wrote sample (sample_state sample_history) s' (sample_history @ [(new_revision (sample_stamp 5), r)])"
proof -
  have "\<not> Option.is_none (mvcc_update sample_key [9] 2 0 (at_uuid (sample_attempt 5 Committed)) sample_history)" by code_simp
  then obtain r where "mvcc_update sample_key [9] 2 0 (at_uuid (sample_attempt 5 Committed)) sample_history = Some r"
    by (auto simp: Option.is_none_def)
  from Update_succeeds [OF sample_driver sample_lib(2) _ sample_writable(2) sample_history_commits this, of "sample_uuid 0" "[]"]
  show ?thesis
    by (auto simp: input_ok_def maxRecordSize_def sample_key_def str_def sample_attempt_def)
qed

text \<open>C20: Progress of \<^verbatim>\<open>Delete\<close>: an attempt that finds a live entry of the revision given and commits ends the call.\<close>

theorem Delete_succeeds:
  assumes "fdb_driver L cfg dir f" "\<not> UseSequentialId cfg" "commits f a (d_db s) h"
    and "mvcc_delete key revision (at_uuid a) h = Some r" "writable f key (r_Value r)"
  shows "\<exists>s'. Delete f key revision uuid (a # as) s
      = Some (Ok (rev_int (new_revision (at_stamp a)), Some (entry_kv f (new_revision (at_stamp a), r)), True), s') \<and>
    wrote f s s' (h @ [(new_revision (at_stamp a), r)])"
  by (rule fdb_driver.Delete_commits [OF assms])

theorem Delete_succeeds_witness:
  "\<exists>s' r kv. Delete sample sample_key 0 (sample_uuid 0) [sample_attempt 5 Committed] (sample_state sample_history)
      = Some (Ok (rev_int (new_revision (sample_stamp 5)), Some kv, True), s') \<and>
    wrote sample (sample_state sample_history) s' (sample_history @ [(new_revision (sample_stamp 5), r)])"
proof -
  have "\<exists>r. mvcc_delete sample_key 0 (at_uuid (sample_attempt 5 Committed)) sample_history = Some r \<and> r_Value r = [1, 2, 3]"
    by (simp add: mvcc_delete_def last_entry_def sample_history_def sample_record_def)
  then obtain r where "mvcc_delete sample_key 0 (at_uuid (sample_attempt 5 Committed)) sample_history = Some r"
    "writable sample sample_key (r_Value r)" using sample_writable(1) by auto
  from Delete_succeeds [OF sample_driver sample_lib(2) sample_history_commits this, of "sample_uuid 0" "[]"]
  show ?thesis by (auto simp: sample_attempt_def)
qed

text \<open>C21: \<^verbatim>\<open>Create\<close> of a key that is there fails with \<^verbatim>\<open>ErrKeyExists\<close> and writes nothing, not even a wake-up.\<close>

theorem Create_key_exists:
  assumes "fdb_driver L cfg dir f" "commits f a (d_db s) h" "length val \<le> maxRecordSize" "live_entry h key = Some e"
    and "unused {uuid} h"
  shows "Create f key val lease uuid (a # as) s = Some (Err ErrKeyExists, s\<lparr>d_db := at_before a (d_db s)\<rparr>)"
  by (rule fdb_driver.Create_exists [OF assms])

theorem Create_key_exists_witness:
  "Create sample sample_key [7] 0 (sample_uuid 0) [sample_attempt 5 Committed] (sample_state sample_history)
    = Some (Err ErrKeyExists, sample_state sample_history)"
proof -
  have "unused {sample_uuid 0} sample_history" by code_simp
  from Create_key_exists [OF sample_driver sample_history_commits _ _ this, of "[7]" sample_key _ 0 "[]"] show ?thesis
    by (simp add: maxRecordSize_def live_entry_def last_entry_def sample_history_def sample_record_def sample_attempt_def)
qed



section \<open>Retries\<close>



section \<open>Reads\<close>

text \<open>
  C4: \<^verbatim>\<open>List\<close> reads one snapshot. However its range is split into batches and its attempts retried, and
  whatever other clients append meanwhile, the result is an error or the live entries under the prefix,
  in key order with their values, of the history at the revision requested (for revision 0, of the history as
  the first batch saw it); it is complete without a limit, and exact in its first \<open>limit\<close> elements with one.
  The only effect on the driver is the database moved on by the others.
\<close>

theorem List_snapshot:
  assumes "fdb_driver L cfg dir f" "\<not> UseSequentialId cfg"
    and "\<forall>script\<in>set scripts. \<forall>a\<in>set script. appending f a" "db_holds f (d_db s) h R" "0 \<le> limit"
    and "List f pre startKey limit M keysOnly scripts s = Some (r, s')"
  shows "s' = s\<lparr>d_db := d_db s'\<rparr> \<and> moved f (db_version L (d_db s)) h R (d_db s') \<and>
    ((\<exists>e. r = Err e) \<or>
     (\<exists>F kvs h0 h'. r = Ok (F, kvs) \<and> read_at f (db_version L (d_db s)) M h R F (d_db s') h0 h' \<and>
        listed f keysOnly limit (snapshot (list_keys pre startKey) (at_revision M h0)) kvs))"
  by (rule fdb_driver.List_result [OF assms])

theorem List_snapshot_witness:
  "\<exists>kvs d' h0 h'. map kv_Value kvs = [[4, 4], [2, 2]] \<and>
     read_at sample 7 0 sample_reads 0 7 d' h0 h' \<and>
     listed sample False 0 (snapshot (list_keys [47] [47]) (at_revision 0 h0)) kvs"
proof -
  from sample_run [OF sample_List] obtain kvs s' where kvs: "map kv_Value kvs = [[4, 4], [2, 2]]"
    and run: "List sample [47] [47] 0 0 False sample_batches (sample_at 7 sample_reads) = Some (Ok (7, kvs), s')"
    by (elim exE conjE) metis
  from List_snapshot [OF sample_driver sample_lib(2) sample_batches_appending sample_reads_holds order.refl run] sample_version
  have "\<exists>h0 h'. read_at sample 7 0 sample_reads 0 7 (d_db s') h0 h' \<and>
      listed sample False 0 (snapshot (list_keys [47] [47]) (at_revision 0 h0)) kvs" by auto
  with kvs show ?thesis by metis
qed

text \<open>
  C10: \<^verbatim>\<open>Get\<close> of a key that does not end in a slash returns an error or the newest live entry of the key in the history at
  the revision requested, nothing if it has none.
\<close>

theorem Get_snapshot:
  assumes "fdb_driver L cfg dir f" "\<not> UseSequentialId cfg"
    and "\<forall>script\<in>set scripts. \<forall>a\<in>set script. appending f a" "db_holds f (d_db s) h R" "\<not> suffix (str ''/'') key"
    and "Get f key [] M keysOnly scripts s = Some (r, s')"
  shows "s' = s\<lparr>d_db := d_db s'\<rparr> \<and> moved f (db_version L (d_db s)) h R (d_db s') \<and>
    ((\<exists>e. r = Err e) \<or>
     (\<exists>F h0 h'. read_at f (db_version L (d_db s)) M h R F (d_db s') h0 h' \<and>
        r = Ok (F, map_option (list_kv f keysOnly) (live_entry (at_revision M h0) key))))"
  by (rule fdb_driver.Get_result [OF assms])

theorem Get_snapshot_witness:
  "\<exists>kv d' h0 h'. kv_Value kv = [1] \<and> read_at sample 7 3 sample_reads 0 7 d' h0 h' \<and>
     Some kv = map_option (list_kv sample False) (live_entry (at_revision 3 h0) [47, 97])"
proof -
  from sample_run [OF sample_Get] obtain kv s' where kv: "kv_Value kv = [1]"
    and run: "Get sample [47, 97] [] 3 False sample_batches (sample_at 7 sample_reads) = Some (Ok (7, Some kv), s')"
    by auto
  have "\<not> suffix (str ''/'') [47, 97 :: byte]" by code_simp
  from Get_snapshot [OF sample_driver sample_lib(2) sample_batches_appending sample_reads_holds this run] sample_version
  have "\<exists>h0 h'. read_at sample 7 3 sample_reads 0 7 (d_db s') h0 h' \<and>
      Some kv = map_option (list_kv sample False) (live_entry (at_revision 3 h0) [47, 97])" by auto
  with kv show ?thesis by metis
qed

text \<open>
  C11: \<^verbatim>\<open>Count\<close>, when it scans, returns an error or the number of entries \<^verbatim>\<open>List\<close> would return without a limit,
  as an \<^verbatim>\<open>int64\<close>.
\<close>

theorem Count_snapshot:
  assumes "fdb_driver L cfg dir f" "\<not> UseSequentialId cfg"
    and "\<forall>script\<in>set scripts. \<forall>a\<in>set script. appending f a" "db_holds f (d_db s) h R"
    and "M \<noteq> 0 \<or> pre \<noteq> startKey \<or> \<not> d_pollActive s"
    and "Count f pre startKey M scripts meanwhile s = Some (r, s')"
  shows "\<exists>d'. s' = meanwhile (s\<lparr>d_db := d'\<rparr>) \<and> moved f (db_version L (d_db s)) h R d' \<and>
    ((\<exists>e. r = Err e) \<or>
     (\<exists>F h0 h'. read_at f (db_version L (d_db s)) M h R F d' h0 h' \<and>
        r = Ok (F, wrap64 (int (length (snapshot (list_keys pre startKey) (at_revision M h0)))))))"
  by (rule fdb_driver.Count_result [OF assms])

theorem Count_snapshot_witness:
  "\<exists>d' h0 h'. read_at sample 7 3 sample_reads 0 7 d' h0 h' \<and>
     wrap64 (int (length (snapshot (list_keys [47] [47]) (at_revision 3 h0)))) = 2"
proof -
  from sample_Count obtain s' where
    "Count sample [47] [47] 3 sample_batches id (sample_at 7 sample_reads) = Some (Ok (7, 2), s')" by auto
  from Count_snapshot [OF sample_driver sample_lib(2) sample_batches_appending sample_reads_holds _ this] sample_version
  show ?thesis by auto
qed

section \<open>Events\<close>

text \<open>
  C7: The poll loop broadcasts the log, without gaps, repetitions or reordering. In a run of poll iterations (failing ones
  too) and counts beside other clients that append, the batches broadcast are together one event for each entry between the cursor of
  the start and that of the end, in the order of their revisions; an event has the key, value, lease and revisions of its entry, and the previous
  value if that was in the log. The cursor never goes back.
\<close>

theorem poll_stream:
  assumes "fdb_driver L cfg dir f" "\<not> UseSequentialId cfg" "0 < maxBatchSize cfg" "db_holds f (d_db s) h R"
    and "d_lastWatchRev s \<le> db_version L (d_db s)" "driver_run f s batches s'"
  shows "\<exists>H. db_holds f (d_db s') H R \<and> extends (db_version L (d_db s)) h H \<and>
    d_lastWatchRev s \<le> d_lastWatchRev s' \<and> d_lastWatchRev s' \<le> db_version L (d_db s') \<and>
    list_all2 (shows_event f h H) (between (d_lastWatchRev s) (d_lastWatchRev s') H) (concat batches)"
  using fdb_driver.run_ok [OF assms(1,6,2-5)] fdb_driver.driver_simps(1) [OF assms(1)]
  unfolding steps_ok_def Let_def by auto

theorem poll_stream_witness:
  "\<exists>ev d H. db_holds sample d H 0 \<and> extends 7 sample_reads H \<and> Some [1] = map_option kv_Value (ev_PrevKV ev) \<and>
     list_all2 (shows_event sample sample_reads H) (between 3 6 H) [ev]"
proof -
  from sample_poll_run obtain ev s' where run: "driver_run sample (sample_polling 3) [[ev]] s'" "d_lastWatchRev s' = 6"
    "Some [1] = map_option kv_Value (ev_PrevKV ev)" by blast
  have "d_lastWatchRev (sample_polling 3) \<le> db_version memory_lib (d_db (sample_polling 3))" by (simp add: sample_polling_simps sample_version)
  from poll_stream [OF sample_driver sample_lib(2) sample_maxBatch sample_polling_simps(4) this run(1)] run(2,3) show ?thesis
    unfolding sample_polling_simps sample_version by auto
qed

text \<open>
  C5: A watch is complete. It subscribes to the poll loop and then reads the log once; if that read succeeds, then the events it
  delivers, from the read and from the batches of the loop, are those of the entries of its keys from its revision on, in order, each
  once, up to the cursor of the loop and at least to the version of the database when it started. A revision
  below the compacted one is refused.
\<close>

theorem Watch_complete:
  assumes "fdb_driver L cfg dir f" "\<not> UseSequentialId cfg" "0 < maxBatchSize cfg" "\<forall>script\<in>set scripts. \<forall>a\<in>set script. appending f a"
    and "db_holds f (d_db s) h R" "d_lastWatchRev s \<le> db_version L (d_db s)" "revision_ok minRevision"
    and "Watch f pre0 minRevision scripts batches s = Some (r, s1)" "driver_run f s1 batches s2"
    and "m = (if minRevision > 0 then minRevision - 1 else minRevision)" "pre = (if pre0 = [0] then str ''/'' else pre0)"
  shows "\<exists>wr. r = Ok wr \<and>
    (wr_Events wr = [] \<and> (\<exists>res e. afterAll f m (\<lambda>key. doesEventHavePrefix key pre) scripts (d_db s) = Some (Ok (res, Some e), d_db s1)) \<or>
     wr_Errorc wr = None \<and> (0 < m \<longrightarrow> R \<le> m) \<and>
     (\<exists>H hi. db_holds f (d_db s2) H R \<and> extends (db_version L (d_db s)) h H \<and> db_version L (d_db s) \<le> hi \<and> d_lastWatchRev s2 \<le> hi \<and>
       list_all2 (shows_event f h H) (filter (\<lambda>e. doesEventHavePrefix (entry_key e) pre) (between m hi H)) (concat (wr_Events wr))))"
  by (rule fdb_driver.Watch_result [OF assms])

theorem Watch_complete_witness:
  "\<exists>ev d H hi. db_holds sample d H 0 \<and> extends 7 sample_reads H \<and> 7 \<le> hi \<and> kv_ModRevision (ev_KV ev) = 6 \<and>
     list_all2 (shows_event sample sample_reads H) (filter (\<lambda>e. doesEventHavePrefix (entry_key e) [47]) (between 5 hi H)) [ev]"
proof -
  from sample_Watch obtain wr s1 where run: "Watch sample [47] 6 [sample_alone] [] (sample_polling 6) = Some (Ok wr, s1)"
    and ev: "map (map (\<lambda>ev. kv_ModRevision (ev_KV ev))) (wr_Events wr) = [[6]]" by (auto simp: map_res_Ok_iff)
  from ev obtain e where e: "wr_Events wr = [[e]]" "kv_ModRevision (ev_KV e) = 6" by (auto simp: map_eq_Cons_conv)
  have le: "d_lastWatchRev (sample_polling 6) \<le> db_version memory_lib (d_db (sample_polling 6))" by (simp add: sample_polling_simps sample_version)
  have m: "5 = (if (6 :: int64) > 0 then 6 - 1 else (6 :: int64))" "revision_ok 6" by (simp_all add: revision_ok_def)
  from Watch_complete [OF sample_driver sample_lib(2) sample_maxBatch sample_alone_appending(2) sample_polling_simps(4) le m(2) run run_start m(1) refl] e
  show ?thesis unfolding sample_polling_simps sample_version by auto
qed

text \<open>
  C14: \<^verbatim>\<open>ReadWAL\<close> returns an error or the whole log: the entries of the history in the order of their revisions, with their values, those the other
  clients appended before the last batch included.
\<close>

theorem ReadWAL_all:
  assumes "fdb_driver L cfg dir f" "\<forall>script\<in>set scripts. \<forall>a\<in>set script. appending f a" "db_holds f (d_db s) h R"
    and "ReadWAL f scripts s = Some (r, s')"
  shows "s' = s\<lparr>d_db := d_db s'\<rparr> \<and>
    ((\<exists>e. r = Err e) \<or> (\<exists>H. prefix h H \<and> db_holds f (d_db s') H R \<and> r = Ok (map wal_record H)))"
  by (rule fdb_driver.ReadWAL_result [OF assms])

theorem ReadWAL_all_witness:
  "\<exists>d H. prefix sample_reads H \<and> db_holds sample d H 0 \<and> map (r_Value \<circ> rr_Record \<circ> wal_record) H = [[1], [2, 2], [4, 4]]"
proof -
  from sample_ReadWAL obtain rs s' where run: "ReadWAL sample [sample_alone] (sample_at 7 sample_reads) = Some (Ok rs, s')"
    and rs: "map (\<lambda>r. r_Value (rr_Record r)) rs = [[1], [2, 2], [4, 4]]" by (auto simp: map_res_Ok_iff)
  from ReadWAL_all [OF sample_driver sample_alone_appending(2) sample_reads_holds run] obtain H where
    H: "prefix sample_reads H" "db_holds sample (d_db s') H 0" "rs = map wal_record H" by auto
  from rs have "map (r_Value \<circ> rr_Record \<circ> wal_record) H = [[1], [2, 2], [4, 4]]" unfolding H(3) map_map by (simp only: comp_def)
  with H(1,2) show ?thesis by metis
qed

section \<open>Counts\<close>

text \<open>
  C12: The writes keep the order of lives of a key: after any call of \<^verbatim>\<open>Create\<close>, \<^verbatim>\<open>Update\<close> or \<^verbatim>\<open>Delete\<close>, however its attempts end, an entry of
  the key creates it exactly if no live entry precedes it, and is then no deletion. The count tracker depends on this: it adds one for
  each creation and takes one off for each deletion.
\<close>

theorem writes_alternate:
  assumes "fdb_driver L cfg dir f" "\<not> UseSequentialId cfg" "starts f key lo uuid script s h" "alternates c (of_key key h)"
    and "write_call f key uuid script s s'"
  shows "\<exists>h'. represents f (db_view L (d_db s')) h' \<and> alternates c (of_key key h')"
  by (rule fdb_driver.write_call_alternates [OF assms])

theorem writes_alternate_witness:
  "\<exists>d' h'. represents sample (db_view memory_lib d') h' \<and> alternates 0 (of_key sample_key h')"
proof -
  from sample_Create obtain s' where
    "Create sample sample_key [1, 2, 3] 0 (sample_uuid 0) sample_script (sample_state []) = Some (Ok 5, s')" by auto
  then have "write_call sample sample_key (sample_uuid 0) sample_script (sample_state []) s'"
    by (intro write_create) (auto simp: input_ok_def maxRecordSize_def sample_key_def str_def)
  from writes_alternate [OF sample_driver sample_lib(2) sample_starts(1) _ this, of 0] show ?thesis by (auto simp: alternates_def)
qed





section \<open>Compaction\<close>

text \<open>
  C6: \<^verbatim>\<open>Compact\<close> is safe beside other writers. Over its batches, under retries and while other clients append, whether it ends in an
  error or not, it only removes entries, of which no snapshot of the present state depends, and none after its revision; the indexes still agree; the mark of
  the last compaction is as before or at most the revision. When it succeeds, what is left up to the revision are entries that were live at the start.
\<close>

theorem Compact_safe:
  assumes "fdb_driver L cfg dir f" "\<not> UseSequentialId cfg" "revision_ok n" "n \<le> db_version L (d_db s)" "db_holds f (d_db s) h R"
    and "\<forall>script\<in>set scripts. \<forall>a\<in>set script. appending f a" "Compact f n scripts s = Some (r, s')"
  shows "s' = s\<lparr>d_db := d_db s'\<rparr> \<and>
    (\<exists>H g R'. extends (db_version L (d_db s)) h H \<and> db_holds f (d_db s') g R' \<and> (R' = R \<or> R' \<le> n) \<and>
       g = filter (\<lambda>e. e \<in> set g) H \<and> (\<forall>K. snapshot K g = snapshot K H) \<and> since n g = since n H \<and>
       ((\<exists>err. r = Err err) \<or> (\<exists>v. r = Ok v) \<and> (\<forall>e\<in>set g. rev_int (fst e) \<le> n \<longrightarrow> live h e)))"
  by (rule fdb_driver.Compact_kept [OF assms])

theorem Compact_safe_witness:
  "\<exists>d H g R'. extends 7 sample_reads H \<and> db_holds sample d g R' \<and> since 3 g = since 3 H \<and> sample_record [47, 97] [1] 2 \<in> set H - set g"
proof -
  from sample_Compact_List obtain v s' where run: "Compact sample 3 [sample_alone] (sample_at 7 sample_reads) = Some (Ok v, s')" by blast
  have "revision_ok 3" "3 \<le> db_version memory_lib (d_db (sample_at 7 sample_reads))" by (simp_all add: revision_ok_def sample_version)
  from Compact_safe [OF sample_driver sample_lib(2) this sample_reads_holds sample_alone_appending(2) run] obtain H g R' where
    H: "extends 7 sample_reads H" "db_holds sample (d_db s') g R'" "since 3 g = since 3 H" "\<forall>e\<in>set g. rev_int (fst e) \<le> 3 \<longrightarrow> live sample_reads e"
    unfolding sample_version by auto
  from H(1,4) sample_superseded have "sample_record [47, 97] [1] 2 \<in> set H - set g" by (auto simp: extends_def)
  with H(1-3) show ?thesis by metis
qed

text \<open>
  C13: Lists do not see a compaction. A list without a revision after a compaction, successful or not, returns what it would return of the
  history that was never compacted, the entries other clients appended before it included.
\<close>

theorem List_after_Compact:
  assumes "fdb_driver L cfg dir f" "\<not> UseSequentialId cfg" "revision_ok n" "n \<le> db_version L (d_db s)" "db_holds f (d_db s) h R"
    and "\<forall>script\<in>set scripts. \<forall>a\<in>set script. appending f a" "Compact f n scripts s = Some (r, s1)"
    and "\<forall>script\<in>set scripts'. \<forall>a\<in>set script. appending f a" "0 \<le> limit"
    and "List f pre startKey limit 0 keysOnly scripts' s1 = Some (Ok (F, kvs), s2)"
  shows "\<exists>H g R'. extends (db_version L (d_db s)) h H \<and> listed f keysOnly limit (snapshot (list_keys pre startKey) H) kvs \<and>
    db_holds f (d_db s2) g R' \<and> prefix (since n H) (since n g)"
  by (rule fdb_driver.Compact_List [OF assms])

theorem List_after_Compact_witness:
  "\<exists>kvs H. map kv_Value kvs = [[4, 4], [2, 2]] \<and> extends 7 sample_reads H \<and>
     listed sample False 0 (snapshot (list_keys [47] [47]) H) kvs"
proof -
  from sample_Compact_List obtain v s1 kvs s2 where c: "Compact sample 3 [sample_alone] (sample_at 7 sample_reads) = Some (Ok v, s1)"
    and l: "List sample [47] [47] 0 0 False [sample_alone] s1 = Some (Ok (10, kvs), s2)" and v: "map kv_Value kvs = [[4, 4], [2, 2]]"
    by (elim exE conjE) metis
  have "revision_ok 3" "3 \<le> db_version memory_lib (d_db (sample_at 7 sample_reads))" by (simp_all add: revision_ok_def sample_version)
  from List_after_Compact [OF sample_driver sample_lib(2) this sample_reads_holds sample_alone_appending(2) c sample_alone_appending(2) order.refl l] v
  show ?thesis unfolding sample_version by metis
qed

section \<open>Leases\<close>

text \<open>
  C15: No lease is lost by the queue. In every state the two goroutines of \<^verbatim>\<open>ttl\<close> can reach, a lease in the map is of the key it is under, and that key is
  being deleted or waits in the queue, until the lease expires or for at most the interval of a retry.
\<close>

theorem lease_scheduled:
  assumes "ttl_step\<^sup>*\<^sup>* (ttl_init start) s" "ts_store s key = Some l"
  shows "tk_key l = key \<and> scheduled s key l"
  using ttl_reachable [OF assms(1)] assms(2) by (simp add: ttl_inv_def ttl_wf_def)

theorem lease_scheduled_witness: "scheduled sample_leased [47, 97] sample_lease"
proof -
  have "ts_store sample_leased [47, 97] = Some sample_lease" by (simp add: sample_leased_def)
  from lease_scheduled [OF sample_leased_reachable this] show ?thesis by simp
qed

text \<open>
  C17: \<^verbatim>\<open>deleteTTLEvent\<close> does not dereference a nil pointer: when the call of \<^verbatim>\<open>Delete\<close> returns, with whatever error and whatever events have arrived
  meanwhile, the map still has a lease of the key.
\<close>

theorem deleteTTLEvent_no_panic:
  assumes "ttl_step\<^sup>*\<^sup>* (ttl_init start) s" "ts_hand s = Some l"
  shows "\<exists>store acts. deleteTTLEvent_finish (ts_now s) l err (ts_store s) = Ok (store, acts)"
  using finish_cases [of s l err] ttl_reachable [OF assms(1)] assms(2) by (auto simp: ttl_inv_def split: if_splits)

theorem deleteTTLEvent_no_panic_witness:
  "\<exists>store acts. deleteTTLEvent_finish 4000000000 sample_lease (Some ErrCompacted) [[47, 97] \<mapsto> sample_lease] = Ok (store, acts)"
  using deleteTTLEvent_no_panic [OF sample_expired_reachable, of sample_lease "Some ErrCompacted"]
  by (simp add: sample_leased_def ttl_init_def)

text \<open>
  C16: Expiry deletes only what expired. When a lease is expired, its key is left as it is, or its newest entry was live, had the revision of
  the lease, and is followed by one deletion: a key renewed since is not deleted.
\<close>

theorem expiry_safe:
  assumes "fdb_driver L cfg dir f" "\<not> UseSequentialId cfg" "starts f (tk_key l) lo uuid script s h" "tk_modRevision l \<noteq> 0"
    and "deleteTTLEvent f now l uuid script meanwhile store s = Some (r, s')"
  shows "\<exists>h'. represents f (db_view L (d_db s')) h' \<and>
    (of_key (tk_key l) h' = of_key (tk_key l) h \<or>
     (\<exists>e x. live_entry h (tk_key l) = Some e \<and> rev_int (fst e) = tk_modRevision l \<and> r_IsDelete (snd x) \<and>
        of_key (tk_key l) h' = of_key (tk_key l) h @ [x]))"
  by (rule fdb_driver.deleteTTLEvent_result [OF assms])

theorem expiry_safe_witness:
  "\<exists>d h'. represents sample (db_view memory_lib d) h' \<and>
    (of_key sample_key h' = of_key sample_key sample_history \<or> (\<exists>x. r_IsDelete (snd x) \<and> of_key sample_key h' = of_key sample_key sample_history @ [x]))"
proof -
  let ?l = "\<lparr>tk_key = sample_key, tk_modRevision = 2, tk_expiredAt = 0\<rparr>"
  from sample_Delete obtain kv s' where
    "Delete sample sample_key 2 (sample_uuid 0) sample_script (sample_state sample_history) = Some (Ok (5, kv, True), s')"
    by (auto simp: map_res_Ok_iff split: prod.splits)
  then have run: "deleteTTLEvent sample 1 ?l (sample_uuid 0) sample_script id [sample_key \<mapsto> ?l] (sample_state sample_history)
      = Some (deleteTTLEvent_finish 1 ?l None [sample_key \<mapsto> ?l], s')" by (simp add: deleteTTLEvent_def)
  have "starts sample (tk_key ?l) (sample_stamp 3) (sample_uuid 0) sample_script (sample_state sample_history) sample_history" "tk_modRevision ?l \<noteq> 0"
    using sample_starts(2) by simp_all
  from expiry_safe [OF sample_driver sample_lib(2) this run] show ?thesis unfolding ttlEventKV.select_convs by blast
qed

section \<open>Logging\<close>


section \<open>Revisions\<close>

text \<open>
  C24: Revisions survive the conversion to versionstamps and back, for every \<^verbatim>\<open>int64\<close>.
\<close>

theorem revision_roundtrip:
  assumes "- (2 ^ 63) \<le> r" "r < 2 ^ 63"
  shows "VersionstampToInt64 (int64ToVersionstamp r) = Ok r"
  by (rule VersionstampToInt64_int64ToVersionstamp [OF assms])

theorem revision_roundtrip_witness:
  "VersionstampToInt64 (int64ToVersionstamp (- 5)) = Ok (- 5) \<and> VersionstampToInt64 (int64ToVersionstamp (2 ^ 63 - 1)) = Ok (2 ^ 63 - 1)"
  using revision_roundtrip [of "- 5"] revision_roundtrip [of "2 ^ 63 - 1"] by simp

text \<open>C25: The byte order of the versionstamps of non-negative revisions, in which FoundationDB sorts the log, is the order of the revisions.\<close>

theorem revision_order:
  assumes "0 \<le> r" "r < 2 ^ 63" "0 \<le> s" "s < 2 ^ 63"
  shows "vs_key (int64ToVersionstamp r) < vs_key (int64ToVersionstamp s) \<longleftrightarrow> r < s"
  by (rule int64ToVersionstamp_less_iff [OF assms])

theorem revision_order_witness: "vs_key (int64ToVersionstamp 255) < vs_key (int64ToVersionstamp 256)"
  using revision_order [of 255 256] by simp



end
